(* ===== verification/Prelude.thy ===== *)
theory Prelude
  imports Main "HOL-Library.Word"
begin

text \<open>
  What every component shares: the machine types, the ways a C++ call can fail, the
  sequencing of fallible steps, and the lemma collections of the development.

  A call of the library returns \<^typ>\<open>'a + 'b\<close>: \<open>Inr\<close> of the result, or \<open>Inl\<close> of the way
  it fails. The default build (\<^verbatim>\<open>sylar/CMakeLists.txt\<close>) is the Debug build, so \<^verbatim>\<open>assert\<close> is
  active and a false \<^verbatim>\<open>SYLAR_ASSERT\<close> (\<^verbatim>\<open>sylar/base/debug.h\<close>) ends the process: it is the
  value \<open>Inl Assert_failed\<close>. What the macros log is not modelled.
\<close>

section \<open>Machine types\<close>

type_synonym u8 = "8 word"
type_synonym u16 = "16 word"
type_synonym u32 = "32 word"
type_synonym u64 = "64 word"
type_synonym pthread_t = "64 word"

lemma of_nat_word_inj:
  assumes "a < 2 ^ LENGTH('a::len)" "b < 2 ^ LENGTH('a)"
  shows "(of_nat a :: 'a word) = of_nat b \<longleftrightarrow> a = b"
  using assms by (simp add: word_of_nat_eq_iff take_bit_nat_eq_self)

lemma ucast_u16_u64_inj: "(ucast (x :: u16) :: u64) = ucast y \<longleftrightarrow> x = y"
  by transfer (simp add: take_bit_eq_mod)

section \<open>Failures\<close>

datatype exn =
    Invalid_argument
  | Runtime_error
  | Logic_error
  | Length_error
  | Bad_function_call
  | Bad_lexical_cast
  | Yaml_exception
  | System_error

datatype cpp_error =
    Assert_failed            \<comment> \<open>a false \<^verbatim>\<open>assert\<close> / \<^verbatim>\<open>SYLAR_ASSERT\<close>\<close>
  | Aborted                  \<comment> \<open>\<^verbatim>\<open>std::abort()\<close>\<close>
  | Undefined_behaviour      \<comment> \<open>null dereference, \<^verbatim>\<open>erase(end())\<close>, signed overflow\<close>
  | Thread_exit              \<comment> \<open>the thread's flow of control ends\<close>
  | Thrown exn               \<comment> \<open>an exception leaves the call\<close>
  | Diverges                 \<comment> \<open>the call does not return\<close>
  | Outside_model            \<comment> \<open>control enters code that another definition gives\<close>

type_synonym 'a res = "cpp_error + 'a"

named_theorems res_simps \<open>evaluation of fallible steps\<close>
named_theorems frame_simps \<open>what an operation leaves unchanged\<close>

definition res_bind :: "'a res \<Rightarrow> ('a \<Rightarrow> 'b res) \<Rightarrow> 'b res" where
  "res_bind m f = (case m of Inl e \<Rightarrow> Inl e | Inr x \<Rightarrow> f x)"

lemma res_bind_Inl [simp, res_simps]: "res_bind (Inl e) f = Inl e"
  by (simp add: res_bind_def)

lemma res_bind_Inr [simp, res_simps]: "res_bind (Inr x) f = f x"
  by (simp add: res_bind_def)

lemma res_bind_eq_Inr: "res_bind m f = Inr y \<longleftrightarrow> (\<exists>x. m = Inr x \<and> f x = Inr y)"
  by (cases m) auto

lemma res_bind_InrE:
  assumes "res_bind m f = Inr y"
  obtains x where "m = Inr x" and "f x = Inr y"
  using assms by (cases m) auto

lemma res_bind_assoc: "res_bind (res_bind m f) g = res_bind m (\<lambda>x. res_bind (f x) g)"
  by (cases m) auto

lemma res_bind_cong [fundef_cong]:
  assumes "m = m'" and "\<And>x. m' = Inr x \<Longrightarrow> f x = f' x"
  shows "res_bind m f = res_bind m' f'"
  using assms by (cases m') auto

text \<open>\<^verbatim>\<open>SYLAR_ASSERT(expr)\<close> and \<^verbatim>\<open>SYLAR_ASSERT_WITH_MSG(expr, msg)\<close>.\<close>

definition sylar_assert :: "bool \<Rightarrow> unit res" where
  "sylar_assert b = (if b then Inr () else Inl Assert_failed)"

lemma sylar_assert_True [simp, res_simps]: "sylar_assert True = Inr ()"
  by (simp add: sylar_assert_def)

lemma sylar_assert_False [simp, res_simps]: "sylar_assert False = Inl Assert_failed"
  by (simp add: sylar_assert_def)

lemma sylar_assert_eq_Inr [simp]: "sylar_assert b = Inr u \<longleftrightarrow> b"
  by (simp add: sylar_assert_def)

lemma bind_assert_eq_Inr:
  "res_bind (sylar_assert b) f = Inr y \<longleftrightarrow> b \<and> f () = Inr y"
  by (cases b) auto

text \<open>Dereferencing a pointer that may be null.\<close>

definition deref :: "'a option \<Rightarrow> 'a res" where
  "deref p = (case p of None \<Rightarrow> Inl Undefined_behaviour | Some x \<Rightarrow> Inr x)"

lemma deref_None [simp, res_simps]: "deref None = Inl Undefined_behaviour"
  by (simp add: deref_def)

lemma deref_Some [simp, res_simps]: "deref (Some x) = Inr x"
  by (simp add: deref_def)

lemma deref_eq_Inr [simp]: "deref p = Inr x \<longleftrightarrow> p = Some x"
  by (cases p) auto

text \<open>A loop that may not end yields \<open>None\<close> where it does not.\<close>

definition returns :: "'a res option \<Rightarrow> 'a res" where
  "returns r = (case r of None \<Rightarrow> Inl Diverges | Some x \<Rightarrow> x)"

lemma returns_None [simp, res_simps]: "returns None = Inl Diverges"
  by (simp add: returns_def)

lemma returns_Some [simp, res_simps]: "returns (Some x) = x"
  by (simp add: returns_def)

lemma returns_eq_Inr [simp]: "returns r = Inr x \<longleftrightarrow> r = Some (Inr x)"
  by (cases r) auto

lemmas res_inv_simps = res_bind_eq_Inr bind_assert_eq_Inr deref_eq_Inr

section \<open>Integer division as in C++\<close>

text \<open>Integer division rounds towards zero; the divisors of the code are positive.\<close>

definition cxx_div :: "int \<Rightarrow> int \<Rightarrow> int" where
  "cxx_div a b = (if a < 0 then - ((- a) div b) else a div b)"

section \<open>Lists updated at an index\<close>

lemma sum_list_map_update:
  fixes f :: "'a \<Rightarrow> 'b::comm_monoid_add"
  shows "i < length xs \<Longrightarrow>
    sum_list (map f (xs[i := x])) + f (xs ! i) = sum_list (map f xs) + f x"
proof (induction xs arbitrary: i)
  case (Cons z zs)
  show ?case
  proof (cases i)
    case (Suc j)
    with Cons.IH[of j] Cons.prems show ?thesis by (simp add: add.assoc)
  qed (simp add: ac_simps)
qed simp

lemma list_all_update: "list_all P xs \<Longrightarrow> P x \<Longrightarrow> list_all P (xs[i := x])"
  by (auto simp: list_all_iff dest!: set_update_subset_insert[THEN subsetD])

section \<open>Runs of operations\<close>

text \<open>Running operations one after the other until the first failure.\<close>

fun run_ops :: "('op \<Rightarrow> 's \<Rightarrow> 's res) \<Rightarrow> 'op list \<Rightarrow> 's \<Rightarrow> 's res" where
  "run_ops f [] s = Inr s"
| "run_ops f (x # xs) s = res_bind (f x s) (run_ops f xs)"

lemma run_ops_append: "run_ops f (xs @ ys) s = res_bind (run_ops f xs s) (run_ops f ys)"
proof (induction xs arbitrary: s)
  case Nil
  then show ?case by simp
next
  case (Cons x xs)
  then show ?case by (cases "f x s") auto
qed

section \<open>Interleavings\<close>

text \<open>
  A run of interleaved steps: an action that is not enabled makes it no run (\<open>None\<close>), and a
  failure ends it.
\<close>

fun interleave :: "('a \<Rightarrow> 's \<Rightarrow> 's res option) \<Rightarrow> 'a list \<Rightarrow> 's \<Rightarrow> 's res option" where
  "interleave f [] s = Some (Inr s)"
| "interleave f (a # as) s =
     (case f a s of
        None \<Rightarrow> None
      | Some (Inl e) \<Rightarrow> Some (Inl e)
      | Some (Inr t) \<Rightarrow> interleave f as t)"

lemma interleave_append:
  "interleave f (as @ bs) s =
     (case interleave f as s of
        Some (Inr t) \<Rightarrow> interleave f bs t
      | r \<Rightarrow> r)"
  by (induction as arbitrary: s) (auto split: option.splits sum.splits)

text \<open>Every action of the run satisfies a condition in the state it is taken in.\<close>

fun along :: "('a \<Rightarrow> 's \<Rightarrow> 's res option) \<Rightarrow> ('a \<Rightarrow> 's \<Rightarrow> bool) \<Rightarrow> 'a list \<Rightarrow> 's \<Rightarrow> bool" where
  "along f P [] s \<longleftrightarrow> True"
| "along f P (a # as) s \<longleftrightarrow>
     P a s \<and> (case f a s of Some (Inr t) \<Rightarrow> along f P as t | _ \<Rightarrow> True)"

lemma along_mono:
  assumes "\<And>a s. P a s \<Longrightarrow> Q a s"
  shows "along f P as s \<Longrightarrow> along f Q as s"
  by (induction as arbitrary: s) (auto simp: assms split: option.splits sum.splits)

lemma along_always:
  assumes "\<And>a s. P a s"
  shows "along f P as s"
  by (induction as arbitrary: s) (auto simp: assms split: option.splits sum.splits)

text \<open>What the actions of a run yield, in order; \<open>g a s\<close> is what action \<open>a\<close> yields in state \<open>s\<close>.\<close>

fun harvest :: "('a \<Rightarrow> 's \<Rightarrow> 's res option) \<Rightarrow> ('a \<Rightarrow> 's \<Rightarrow> 'b list) \<Rightarrow> 'a list \<Rightarrow> 's \<Rightarrow> 'b list" where
  "harvest f g [] s = []"
| "harvest f g (a # as) s = g a s @ (case f a s of Some (Inr t) \<Rightarrow> harvest f g as t | _ \<Rightarrow> [])"

end
