(* ===== verification/Interfaces.thy ===== *)
theory Interfaces
  imports Prelude
begin

text \<open>
  The contracts that several components share, as locales. \<open>store\<close> and \<open>registry\<close> (a store
  with removal) are the contracts of the hash maps in which the managers keep their objects
  (\<^verbatim>\<open>EpollPoller::eventSet_\<close>, \<^verbatim>\<open>FdManager::fdSet_\<close>, \<^verbatim>\<open>LoggerManager::loggers_\<close>,
  \<^verbatim>\<open>ConfigManager::configs_\<close>).
  \<open>task_sink\<close> is what the timer manager and the poller rely on when they hand work to
  their scheduler through \<^verbatim>\<open>Scheduler::Co\<close>. \<open>guarded_system\<close> is the contract of a state
  machine with an invariant: every operation that returns keeps it, and
  \<open>guarded_interleaving\<close> the same for the interleaved steps of several threads.
\<close>

section \<open>Registries\<close>

locale store =
  fixes look :: "'r \<Rightarrow> 'k \<Rightarrow> 'v option"
    and put :: "'k \<Rightarrow> 'v \<Rightarrow> 'r \<Rightarrow> 'r"
  assumes look_put: "look (put k v r) = (look r)(k \<mapsto> v)"
begin

lemma look_put_same: "look (put k v r) k = Some v"
  by (simp add: look_put)

lemma look_put_other: "j \<noteq> k \<Longrightarrow> look (put k v r) j = look r j"
  by (simp add: look_put)

lemma put_put: "look (put k v (put k w r)) = look (put k v r)"
  by (simp add: look_put)

lemma dom_put: "dom (look (put k v r)) = insert k (dom (look r))"
  by (simp add: look_put)

text \<open>An invariant of every entry is kept by storing an entry that satisfies it.\<close>

lemma all_put:
  "\<forall>j v. look r j = Some v \<longrightarrow> P j v \<Longrightarrow> P k w \<Longrightarrow> look (put k w r) j = Some v \<Longrightarrow> P j v"
  by (auto simp: look_put split: if_splits)

end

locale registry = store look put
  for look :: "'r \<Rightarrow> 'k \<Rightarrow> 'v option" and put :: "'k \<Rightarrow> 'v \<Rightarrow> 'r \<Rightarrow> 'r" +
  fixes drop :: "'k \<Rightarrow> 'r \<Rightarrow> 'r"
  assumes look_drop: "look (drop k r) = (look r)(k := None)"
begin

lemma look_drop_same: "look (drop k r) k = None"
  by (simp add: look_drop)

lemma look_drop_other: "j \<noteq> k \<Longrightarrow> look (drop k r) j = look r j"
  by (simp add: look_drop)

lemma drop_put: "look (drop k (put k v r)) = look (drop k r)"
  by (simp add: look_put look_drop)

lemma dom_drop: "dom (look (drop k r)) = dom (look r) - {k}"
  by (simp add: look_drop)

end

section \<open>Task sinks\<close>

text \<open>
  \<open>post t s\<close> hands one piece of work over, \<open>pending s\<close> is the work waiting, in order, and
  \<open>wakes s\<close> how many wake-ups have been requested so far: posting to a sink with nothing
  pending wakes a thread, posting to a sink that has work does not.
\<close>

locale task_sink =
  fixes post :: "'t \<Rightarrow> 's \<Rightarrow> 's"
    and pending :: "'s \<Rightarrow> 't list"
    and wakes :: "'s \<Rightarrow> nat"
  assumes pending_post: "pending (post t s) = pending s @ [t]"
    and wakes_post: "wakes (post t s) = (if pending s = [] then Suc (wakes s) else wakes s)"
begin

lemma pending_fold: "pending (fold post ts s) = pending s @ ts"
  by (induction ts arbitrary: s) (auto simp: pending_post)

lemma wakes_fold:
  "wakes (fold post ts s) =
     (if pending s = [] \<and> ts \<noteq> [] then Suc (wakes s) else wakes s)"
  by (induction ts arbitrary: s) (auto simp: pending_post wakes_post)

lemma wakes_mono: "wakes s \<le> wakes (fold post ts s)"
  by (simp add: wakes_fold)

end

section \<open>State machines with an invariant\<close>

locale guarded_system =
  fixes exec :: "'op \<Rightarrow> 's \<Rightarrow> 's res"
    and inv :: "'s \<Rightarrow> bool"
  assumes exec_inv: "inv s \<Longrightarrow> exec x s = Inr s' \<Longrightarrow> inv s'"
begin

lemma run_ops_inv: "inv s \<Longrightarrow> run_ops exec xs s = Inr s' \<Longrightarrow> inv s'"
  by (induction xs arbitrary: s) (auto simp: res_bind_eq_Inr dest: exec_inv)

end

text \<open>The same for the calls that a program of the right types can make.\<close>

locale guarded_calls =
  fixes exec :: "'op \<Rightarrow> 's \<Rightarrow> 's res"
    and inv :: "'s \<Rightarrow> bool"
    and legal :: "'op \<Rightarrow> bool"
  assumes legal_inv: "legal x \<Longrightarrow> inv s \<Longrightarrow> exec x s = Inr s' \<Longrightarrow> inv s'"
begin

lemma run_legal_inv:
  "\<forall>x\<in>set xs. legal x \<Longrightarrow> inv s \<Longrightarrow> run_ops exec xs s = Inr s' \<Longrightarrow> inv s'"
  by (induction xs arbitrary: s) (auto simp: res_bind_eq_Inr dest: legal_inv)

end

sublocale guarded_system \<subseteq> all_legal: guarded_calls exec inv "\<lambda>_. True"
  by unfold_locales (rule exec_inv)

text \<open>
  Interleaved threads with an invariant, under a condition on the actions: no action fails,
  and each keeps the invariant.
\<close>

locale guarded_interleaving =
  fixes act :: "'a \<Rightarrow> 's \<Rightarrow> 's res option"
    and inv :: "'s \<Rightarrow> bool"
    and allowed :: "'a \<Rightarrow> 's \<Rightarrow> bool"
  assumes act_inv: "inv s \<Longrightarrow> allowed a s \<Longrightarrow> act a s = Some r \<Longrightarrow> \<exists>t. r = Inr t \<and> inv t"
begin

lemma run_inv:
  "inv s \<Longrightarrow> along act allowed as s \<Longrightarrow> interleave act as s = Some r \<Longrightarrow> \<exists>t. r = Inr t \<and> inv t"
proof (induction as arbitrary: s)
  case (Cons a as)
  then obtain r' where r': "act a s = Some r'" by (auto split: option.splits)
  with Cons.prems act_inv[of s a r'] obtain t where "r' = Inr t" "inv t" by auto
  with Cons r' show ?case by simp
qed auto

end

end
