(* ===== verification/Coroutine.thy ===== *)
theory Coroutine
  imports Interfaces
begin

text \<open>
  The stackful coroutines of \<^verbatim>\<open>concurrency/coroutine.h\<close> and \<^verbatim>\<open>concurrency/coroutine.cpp\<close>:
  the objects, the thread-local pointers of the calling thread, creation, destruction,
  \<^verbatim>\<open>SwapIn\<close>, \<^verbatim>\<open>SwapOut\<close>, \<^verbatim>\<open>Reset\<close> and the two yields. The results of \<^verbatim>\<open>getcontext\<close>,
  \<^verbatim>\<open>swapcontext\<close> and \<^verbatim>\<open>malloc\<close> are parameters (\<open>os_env\<close>).

  A callback is code of the library's user. What matters of it is the order in which it
  calls back into the library and how it ends, so it is a tree (\<open>body\<close>): a finished
  callback, an exception, or one call followed by the rest.
\<close>

section \<open>Callbacks\<close>

type_synonym co_addr = nat

datatype body =
    Return                              \<comment> \<open>the callback returns\<close>
  | Throw_std                           \<comment> \<open>a \<^verbatim>\<open>std::exception\<close> leaves it\<close>
  | Throw_unknown                       \<comment> \<open>any other exception leaves it\<close>
  | Yield_to_hold body                  \<comment> \<open>\<^verbatim>\<open>Coroutine::YieldCurCoroutineToHold()\<close>\<close>
  | Yield_to_ready body                 \<comment> \<open>\<^verbatim>\<open>Coroutine::YieldCurCoroutineToReady()\<close>\<close>
  | Bare_swap_out body                  \<comment> \<open>\<^verbatim>\<open>GetCurrentRunningCoroutine()->SwapOut()\<close>\<close>
  | Spawn body pthread_t body           \<comment> \<open>\<^verbatim>\<open>scheduler->Co(func, thread)\<close>\<close>
  | Spawn_co co_addr pthread_t body     \<comment> \<open>\<^verbatim>\<open>scheduler->Co(coroutine, thread)\<close>\<close>
  | If_alive nat body                   \<comment> \<open>\<^verbatim>\<open>if (cond.lock()) { cb(); }\<close>\<close>
  | Failing_assert                      \<comment> \<open>a \<^verbatim>\<open>SYLAR_ASSERT\<close> of the callback is false\<close>
  | Handle_idle                         \<comment> \<open>\<^verbatim>\<open>Scheduler::HandleIdle\<close>, given in Scheduler\<close>
  | Scheduling_func                     \<comment> \<open>\<^verbatim>\<open>Scheduler::SchedulingFunc\<close>, given in Scheduler\<close>

datatype request = Req_func body pthread_t | Req_co co_addr pthread_t

text \<open>Where a running body gives up control.\<close>

datatype stop =
    Returned | Threw | Held body | Readied body | Swapped body
  | is_Stuck: Stuck (stuck_error: cpp_error)

text \<open>
  One stretch of execution: the requests handed to the scheduler, in order, and the stop.
  \<open>alive\<close> tells which \<^verbatim>\<open>weak_ptr\<close> targets still exist.
\<close>

fun run_body :: "(nat \<Rightarrow> bool) \<Rightarrow> body \<Rightarrow> request list \<times> stop" where
  "run_body alive Return = ([], Returned)"
| "run_body alive Throw_std = ([], Threw)"
| "run_body alive Throw_unknown = ([], Threw)"
| "run_body alive (Yield_to_hold k) = ([], Held k)"
| "run_body alive (Yield_to_ready k) = ([], Readied k)"
| "run_body alive (Bare_swap_out k) = ([], Swapped k)"
| "run_body alive (Spawn f p k) =
     (let (rs, s) = run_body alive k in (Req_func f p # rs, s))"
| "run_body alive (Spawn_co a p k) =
     (let (rs, s) = run_body alive k in (Req_co a p # rs, s))"
| "run_body alive (If_alive c f) = (if alive c then run_body alive f else ([], Returned))"
| "run_body alive Failing_assert = ([], Stuck Assert_failed)"
| "run_body alive Handle_idle = ([], Stuck Outside_model)"
| "run_body alive Scheduling_func = ([], Stuck Outside_model)"

text \<open>How often a body gives up control before it ends.\<close>

fun yields :: "(nat \<Rightarrow> bool) \<Rightarrow> body \<Rightarrow> nat" where
  "yields alive (Yield_to_hold k) = Suc (yields alive k)"
| "yields alive (Yield_to_ready k) = Suc (yields alive k)"
| "yields alive (Bare_swap_out k) = Suc (yields alive k)"
| "yields alive (Spawn f p k) = yields alive k"
| "yields alive (Spawn_co a p k) = yields alive k"
| "yields alive (If_alive c f) = (if alive c then yields alive f else 0)"
| "yields alive _ = 0"

section \<open>Coroutine objects and the calling thread\<close>

datatype co_state = kInit | kExec | kHold | kReady | kTerminal | kExcept

text \<open>
  The saved machine context: at the entry of \<^verbatim>\<open>CoroutineFunc\<close>, in the middle of a body,
  after the last \<^verbatim>\<open>SwapOut\<close> of \<^verbatim>\<open>CoroutineFunc\<close> (whose \<^verbatim>\<open>uc_link\<close> is null), or the flow of
  a thread or of the scheduling loop.
\<close>

datatype context_pc = Entry | Resume_at body | Finished | Thread_flow

record coroutine =
  co_func :: "body option"
  isDummyMainCoroutine :: bool
  stackFrame :: bool
  stackSize :: u32
  co_id :: u32
  co_ctx :: context_pc
  co_st :: co_state

record os_env =
  getcontext_rc :: int
  swapcontext_rc :: int
  malloc_ok :: bool

definition good_env :: "os_env \<Rightarrow> bool" where
  "good_env E \<longleftrightarrow> getcontext_rc E = 0 \<and> swapcontext_rc E = 0 \<and> malloc_ok E"

text \<open>
  The process-wide part (the objects, \<^verbatim>\<open>s_coroutine_next_id\<close>, \<^verbatim>\<open>s_coroutine_count\<close>) and the
  thread-local pointers of the calling thread (\<^verbatim>\<open>tl_p_cur_coroutine\<close>,
  \<^verbatim>\<open>tl_sp_main_coroutine\<close>, \<^verbatim>\<open>tl_scheduling_coroutine\<close>).
\<close>

record cworld =
  heap :: "co_addr \<Rightarrow> coroutine option"
  free_addr :: co_addr
  next_co_id :: u32
  co_count :: u64
  cur :: "co_addr option"
  main_co :: "co_addr option"
  sched_co :: "co_addr option"

definition obj :: "co_addr \<Rightarrow> cworld \<Rightarrow> coroutine res" where
  "obj a w = deref (heap w a)"

definition upd :: "co_addr \<Rightarrow> (coroutine \<Rightarrow> coroutine) \<Rightarrow> cworld \<Rightarrow> cworld" where
  "upd a g w = w\<lparr>heap := (heap w)(a := map_option g (heap w a))\<rparr>"

definition set_state :: "co_addr \<Rightarrow> co_state \<Rightarrow> cworld \<Rightarrow> cworld" where
  "set_state a s = upd a (\<lambda>c. c\<lparr>co_st := s\<rparr>)"

definition alloc :: "coroutine \<Rightarrow> cworld \<Rightarrow> co_addr \<times> cworld" where
  "alloc c w = (free_addr w,
     w\<lparr>heap := (heap w)(free_addr w \<mapsto> c), free_addr := Suc (free_addr w),
       next_co_id := next_co_id w + 1, co_count := co_count w + 1\<rparr>)"

section \<open>Creation and lookup\<close>

text \<open>\<^verbatim>\<open>this_thread::GetCurrentRunningCoroutine\<close>.\<close>

definition get_current :: "cworld \<Rightarrow> co_addr res" where
  "get_current w = res_bind (sylar_assert (cur w \<noteq> None)) (\<lambda>_. deref (cur w))"

text \<open>The private constructor: the main coroutine of a thread.\<close>

definition new_main_coroutine :: "os_env \<Rightarrow> cworld \<Rightarrow> (co_addr \<times> cworld) res" where
  "new_main_coroutine E w =
     res_bind (sylar_assert (main_co w = None)) (\<lambda>_.
     res_bind (sylar_assert (cur w = None)) (\<lambda>_.
     if getcontext_rc E \<noteq> 0 then Inl Aborted
     else Inr (alloc \<lparr>co_func = None, isDummyMainCoroutine = False, stackFrame = False,
                 stackSize = 0, co_id = next_co_id w, co_ctx = Thread_flow, co_st = kExec\<rparr> w)))"

text \<open>\<^verbatim>\<open>this_thread::GetMainCoroutine\<close>: created on the first call in the thread.\<close>

definition get_main :: "os_env \<Rightarrow> cworld \<Rightarrow> (co_addr option \<times> cworld) res" where
  "get_main E w =
     (if cur w = None then
        res_bind (new_main_coroutine E w) (\<lambda>(a, w').
        Inr (Some a, w'\<lparr>main_co := Some a, cur := Some a\<rparr>))
      else Inr (main_co w, w))"

text \<open>The public constructor.\<close>

definition new_coroutine ::
  "os_env \<Rightarrow> body option \<Rightarrow> u32 \<Rightarrow> bool \<Rightarrow> cworld \<Rightarrow> (co_addr \<times> cworld) res" where
  "new_coroutine E f stack_size is_dummy w =
     res_bind (sylar_assert (f \<noteq> None)) (\<lambda>_.
     res_bind (sylar_assert (malloc_ok E)) (\<lambda>_.
     if main_co w = None then Inl Aborted
     else if getcontext_rc E \<noteq> 0 then Inl Aborted
     else Inr (alloc \<lparr>co_func = f, isDummyMainCoroutine = is_dummy, stackFrame = True,
                 stackSize = stack_size, co_id = next_co_id w, co_ctx = Entry,
                 co_st = kInit\<rparr> w)))"

definition destroy :: "co_addr \<Rightarrow> cworld \<Rightarrow> cworld res" where
  "destroy a w =
     res_bind (obj a w) (\<lambda>c.
     res_bind
       (if stackFrame c then
          res_bind (sylar_assert (co_st c = kTerminal \<or> co_st c = kExec \<or> co_st c = kInit))
            (\<lambda>_. Inr w)
        else
          res_bind (sylar_assert (co_func c = None)) (\<lambda>_.
          res_bind (sylar_assert (co_st c = kExec)) (\<lambda>_.
          res_bind (sylar_assert (cur w = Some a)) (\<lambda>_.
          Inr (w\<lparr>cur := None\<rparr>)))))
       (\<lambda>w'. Inr (w'\<lparr>heap := (heap w')(a := None), co_count := co_count w' - 1\<rparr>)))"

definition is_runnable :: "coroutine \<Rightarrow> bool" where
  "is_runnable c \<longleftrightarrow> co_st c = kHold \<or> co_st c = kInit \<or> co_st c = kReady"

section \<open>Switching\<close>

text \<open>
  \<^verbatim>\<open>SwapIn\<close> up to the \<^verbatim>\<open>swapcontext\<close> that enters the coroutine. The operands of the first
  assertion are read from left to right.
\<close>

definition swap_in_enter :: "os_env \<Rightarrow> co_addr \<Rightarrow> cworld \<Rightarrow> cworld res" where
  "swap_in_enter E a w =
     res_bind (obj a w) (\<lambda>c.
     res_bind (get_current w) (\<lambda>cu.
     res_bind
       (if isDummyMainCoroutine c then
          res_bind (get_main E w) (\<lambda>(m, _). sylar_assert (Some cu = m))
        else sylar_assert (Some cu = sched_co w)) (\<lambda>_.
     res_bind (sylar_assert (co_st c \<noteq> kExec)) (\<lambda>_.
     let w1 = set_state a kExec (w\<lparr>cur := Some a\<rparr>) in
     res_bind (deref (if isDummyMainCoroutine c then main_co w1 else sched_co w1)) (\<lambda>from.
     res_bind (obj from w1) (\<lambda>_.
     if swapcontext_rc E \<noteq> 0 then Inl Aborted
     else Inr (upd from (\<lambda>d. d\<lparr>co_ctx := Thread_flow\<rparr>) w1)))))))"

text \<open>\<^verbatim>\<open>SwapOut\<close>; \<open>pc\<close> is where the coroutine will continue.\<close>

definition swap_out :: "os_env \<Rightarrow> co_addr \<Rightarrow> context_pc \<Rightarrow> cworld \<Rightarrow> cworld res" where
  "swap_out E a pc w =
     res_bind (get_current w) (\<lambda>cu.
     res_bind (sylar_assert (cu = a)) (\<lambda>_.
     res_bind (obj a w) (\<lambda>c.
     res_bind
       (if isDummyMainCoroutine c then get_main E w else Inr (sched_co w, w)) (\<lambda>(t, w0).
     let w1 = w0\<lparr>cur := t\<rparr> in
     res_bind (deref t) (\<lambda>to.
     res_bind (obj to w1) (\<lambda>_.
     if swapcontext_rc E \<noteq> 0 then Inl Aborted
     else Inr (upd a (\<lambda>d. d\<lparr>co_ctx := pc\<rparr>) w1)))))))"

text \<open>\<^verbatim>\<open>YieldCurCoroutineToHold\<close> (\<open>s = kHold\<close>) and \<^verbatim>\<open>YieldCurCoroutineToReady\<close> (\<open>s = kReady\<close>).\<close>

definition yield_cur :: "os_env \<Rightarrow> co_state \<Rightarrow> context_pc \<Rightarrow> cworld \<Rightarrow> cworld res" where
  "yield_cur E s pc w =
     res_bind (get_current w) (\<lambda>cu.
     res_bind (obj cu w) (\<lambda>c.
     res_bind (sylar_assert (co_st c = kExec)) (\<lambda>_.
     swap_out E cu pc (set_state cu s w))))"

text \<open>
  How the running coroutine \<open>a\<close> gives up control: the end of \<^verbatim>\<open>CoroutineFunc\<close> after a
  return or an exception, or a switch inside the body.
\<close>

fun leave :: "os_env \<Rightarrow> co_addr \<Rightarrow> stop \<Rightarrow> cworld \<Rightarrow> cworld res" where
  "leave E a Returned w =
     swap_out E a Finished (upd a (\<lambda>c. c\<lparr>co_func := None, co_st := kTerminal\<rparr>) w)"
| "leave E a Threw w = swap_out E a Finished (set_state a kExcept w)"
| "leave E a (Held k) w = yield_cur E kHold (Resume_at k) w"
| "leave E a (Readied k) w = yield_cur E kReady (Resume_at k) w"
| "leave E a (Swapped k) w =
     res_bind (get_current w) (\<lambda>cu. swap_out E cu (Resume_at k) w)"
| "leave E a (Stuck e) w = Inl e"

text \<open>
  \<^verbatim>\<open>CoroutineFunc\<close> on the first entry, the rest of the body afterwards. Calling an empty
  \<^verbatim>\<open>std::function\<close> throws \<^verbatim>\<open>std::bad_function_call\<close>, which \<^verbatim>\<open>CoroutineFunc\<close> catches; a coroutine
  entered again after its last \<^verbatim>\<open>SwapOut\<close> falls off the end of \<^verbatim>\<open>CoroutineFunc\<close>, and with a
  null \<^verbatim>\<open>uc_link\<close> the thread exits.
\<close>

definition coroutine_func ::
  "os_env \<Rightarrow> (nat \<Rightarrow> bool) \<Rightarrow> co_addr \<Rightarrow> cworld \<Rightarrow> (request list \<times> cworld) res" where
  "coroutine_func E alive a w =
     res_bind (obj a w) (\<lambda>c.
     case co_ctx c of
       Entry \<Rightarrow>
         res_bind (get_current w) (\<lambda>cu.
         res_bind (obj cu w) (\<lambda>d.
         res_bind (sylar_assert (co_st d = kExec)) (\<lambda>_.
         let (rs, s) = (case co_func d of None \<Rightarrow> ([], Threw) | Some b \<Rightarrow> run_body alive b)
         in res_bind (leave E cu s w) (\<lambda>w'. Inr (rs, w')))))
     | Resume_at b \<Rightarrow>
         let (rs, s) = run_body alive b
         in res_bind (leave E a s w) (\<lambda>w'. Inr (rs, w'))
     | Finished \<Rightarrow> Inl Thread_exit
     | Thread_flow \<Rightarrow> Inl Outside_model)"

text \<open>A whole \<^verbatim>\<open>SwapIn\<close> as its caller sees it: it returns when the coroutine switches back.\<close>

definition swap_in ::
  "os_env \<Rightarrow> (nat \<Rightarrow> bool) \<Rightarrow> co_addr \<Rightarrow> cworld \<Rightarrow> (request list \<times> cworld) res" where
  "swap_in E alive a w = res_bind (swap_in_enter E a w) (coroutine_func E alive a)"

definition reset_co :: "os_env \<Rightarrow> body option \<Rightarrow> co_addr \<Rightarrow> cworld \<Rightarrow> cworld res" where
  "reset_co E f a w =
     res_bind (obj a w) (\<lambda>c.
     res_bind (sylar_assert (stackFrame c \<and> stackSize c \<noteq> 0)) (\<lambda>_.
     res_bind (sylar_assert (co_st c = kTerminal \<or> co_st c = kExcept \<or> co_st c = kInit)) (\<lambda>_.
     if getcontext_rc E \<noteq> 0 then Inl Aborted
     else Inr (upd a (\<lambda>c. c\<lparr>co_func := f, co_ctx := Entry, co_st := kInit\<rparr>) w))))"

section \<open>The switch as one step\<close>

text \<open>
  What a \<^verbatim>\<open>SwapIn\<close> amounts to for its caller: the coroutine runs one stretch from its saved
  context and its object changes as \<open>after\<close> says.
\<close>

definition stretch :: "(nat \<Rightarrow> bool) \<Rightarrow> coroutine \<Rightarrow> (request list \<times> stop) res" where
  "stretch alive c =
     (case co_ctx c of
        Entry \<Rightarrow> Inr (case co_func c of None \<Rightarrow> ([], Threw) | Some b \<Rightarrow> run_body alive b)
      | Resume_at b \<Rightarrow> Inr (run_body alive b)
      | Finished \<Rightarrow> Inl Thread_exit
      | Thread_flow \<Rightarrow> Inl Outside_model)"

fun after :: "stop \<Rightarrow> coroutine \<Rightarrow> coroutine" where
  "after Returned c = c\<lparr>co_func := None, co_ctx := Finished, co_st := kTerminal\<rparr>"
| "after Threw c = c\<lparr>co_ctx := Finished, co_st := kExcept\<rparr>"
| "after (Held k) c = c\<lparr>co_ctx := Resume_at k, co_st := kHold\<rparr>"
| "after (Readied k) c = c\<lparr>co_ctx := Resume_at k, co_st := kReady\<rparr>"
| "after (Swapped k) c = c\<lparr>co_ctx := Resume_at k, co_st := kExec\<rparr>"
| "after (Stuck e) c = c"

text \<open>The coroutine a switch into or out of \<open>c\<close> is made from or to.\<close>

definition partner :: "coroutine \<Rightarrow> cworld \<Rightarrow> co_addr option" where
  "partner c w = (if isDummyMainCoroutine c then main_co w else sched_co w)"

definition switched :: "co_addr \<Rightarrow> co_addr \<Rightarrow> stop \<Rightarrow> cworld \<Rightarrow> cworld" where
  "switched s a st w = upd a (after st) (upd s (\<lambda>d. d\<lparr>co_ctx := Thread_flow\<rparr>) w)"

lemma upd_frame [simp, frame_simps]:
  "cur (upd a g w) = cur w" "main_co (upd a g w) = main_co w"
  "sched_co (upd a g w) = sched_co w" "free_addr (upd a g w) = free_addr w"
  "next_co_id (upd a g w) = next_co_id w" "co_count (upd a g w) = co_count w"
  by (simp_all add: upd_def)

lemma heap_upd [simp]:
  "heap (upd a g w) b = (if b = a then map_option g (heap w a) else heap w b)"
  by (simp add: upd_def)

lemma dom_heap_upd [simp]: "dom (heap (upd a g w)) = dom (heap w)"
  by (auto simp: upd_def split: if_splits)

lemma set_state_frame [simp, frame_simps]:
  "cur (set_state a s w) = cur w" "main_co (set_state a s w) = main_co w"
  "sched_co (set_state a s w) = sched_co w" "free_addr (set_state a s w) = free_addr w"
  "co_count (set_state a s w) = co_count w" "next_co_id (set_state a s w) = next_co_id w"
  by (simp_all add: set_state_def)

lemma heap_set_state [simp]:
  "heap (set_state a s w) b =
     (if b = a then map_option (\<lambda>c. c\<lparr>co_st := s\<rparr>) (heap w a) else heap w b)"
  by (simp add: set_state_def)

lemma switched_frame [simp, frame_simps]:
  "cur (switched s a st w) = cur w" "main_co (switched s a st w) = main_co w"
  "sched_co (switched s a st w) = sched_co w" "free_addr (switched s a st w) = free_addr w"
  "co_count (switched s a st w) = co_count w" "next_co_id (switched s a st w) = next_co_id w"
  "dom (heap (switched s a st w)) = dom (heap w)"
  by (simp_all add: switched_def)

lemma heap_switched [simp]:
  "s \<noteq> a \<Longrightarrow> heap (switched s a st w) b =
     (if b = a then map_option (after st) (heap w a)
      else if b = s then map_option (\<lambda>d. d\<lparr>co_ctx := Thread_flow\<rparr>) (heap w s)
      else heap w b)"
  by (simp add: switched_def)

lemma cworld_eqI:
  assumes "\<And>x. heap w x = heap w' x" "free_addr w = free_addr w'" "next_co_id w = next_co_id w'"
    and "co_count w = co_count w'" "cur w = cur w'" "main_co w = main_co w'"
    and "sched_co w = sched_co w'"
  shows "w = (w' :: cworld)"
  using assms by (auto intro!: cworld.equality)

lemma swap_in_enter_eq:
  assumes "swapcontext_rc E = 0" and "cur w = Some s" and "heap w a = Some c"
    and "partner c w = Some s" and "heap w s = Some d" and "a \<noteq> s" and "co_st c \<noteq> kExec"
  shows "swap_in_enter E a w =
    Inr (upd s (\<lambda>d. d\<lparr>co_ctx := Thread_flow\<rparr>) (set_state a kExec (w\<lparr>cur := Some a\<rparr>)))"
  using assms
  by (auto simp: swap_in_enter_def obj_def get_current_def get_main_def partner_def Let_def
      split: if_splits)

lemma swap_out_eq:
  assumes "swapcontext_rc E = 0" and "cur w = Some a" and "heap w a = Some c"
    and "partner c w = Some s" and "heap w s = Some d"
  shows "swap_out E a pc w = Inr (upd a (\<lambda>d. d\<lparr>co_ctx := pc\<rparr>) (w\<lparr>cur := Some s\<rparr>))"
  using assms
  by (auto simp: swap_out_def obj_def get_current_def get_main_def partner_def Let_def
      split: if_splits)

lemma partner_frame [simp]:
  "partner c (upd a g w) = partner c w" "partner c (set_state a k w) = partner c w"
  "partner c (w\<lparr>cur := x\<rparr>) = partner c w" "partner c (w\<lparr>heap := h\<rparr>) = partner c w"
  "partner (c\<lparr>co_st := k\<rparr>) w = partner c w" "partner (c\<lparr>co_ctx := pc\<rparr>) w = partner c w"
  "partner (c\<lparr>co_func := f\<rparr>) w = partner c w"
  by (simp_all add: partner_def)

lemma leave_stuck: "is_Stuck st \<Longrightarrow> leave E a st w = Inl (stuck_error st)"
  by (cases st) simp_all

lemma leave_eq:
  assumes E: "swapcontext_rc E = 0" and w: "cur w = Some a" "heap w a = Some c"
    "co_st c = kExec" "partner c w = Some s" "heap w s = Some d" "a \<noteq> s" and st: "\<not> is_Stuck st"
  shows "leave E a st w = Inr (upd a (after st) (w\<lparr>cur := Some s\<rparr>))"
proof -
  have out: "swap_out E a pc (upd a g w) =
      Inr (upd a (\<lambda>d. d\<lparr>co_ctx := pc\<rparr>) ((upd a g w)\<lparr>cur := Some s\<rparr>))"
    if "isDummyMainCoroutine (g c) = isDummyMainCoroutine c" for g pc
    using w that by (intro swap_out_eq[OF E, where c = "g c" and d = d]) (auto simp: partner_def)
  have st_eq: "set_state a k w = upd a (\<lambda>c. c\<lparr>co_st := k\<rparr>) w" for k
    by (simp add: set_state_def)
  have id_eq: "swap_out E a pc w = Inr (upd a (\<lambda>d. d\<lparr>co_ctx := pc\<rparr>) (w\<lparr>cur := Some s\<rparr>))" for pc
    by (rule swap_out_eq[OF E w(1,2,4,5)])
  show ?thesis
  proof (cases st)
    case (Held k)
    with w show ?thesis
      by (auto simp: yield_cur_def get_current_def obj_def st_eq out intro!: cworld_eqI)
  next
    case (Readied k)
    with w show ?thesis
      by (auto simp: yield_cur_def get_current_def obj_def st_eq out intro!: cworld_eqI)
  next
    case (Swapped k)
    with w show ?thesis
      by (auto simp: get_current_def id_eq intro!: cworld_eqI)
  next
    case Returned
    with w show ?thesis by (auto simp: out intro!: cworld_eqI)
  next
    case Threw
    with w show ?thesis by (auto simp: st_eq out intro!: cworld_eqI)
  next
    case (Stuck e)
    with st show ?thesis by simp
  qed
qed

lemma after_kExec [simp]: "\<not> is_Stuck st \<Longrightarrow> after st (c\<lparr>co_st := kExec\<rparr>) = after st c"
  by (cases st) auto

lemma after_frame [simp]:
  "isDummyMainCoroutine (after st c) = isDummyMainCoroutine c"
  "stackFrame (after st c) = stackFrame c" "stackSize (after st c) = stackSize c"
  "co_id (after st c) = co_id c"
  by (cases st; simp)+

text \<open>The guard of a successful \<^verbatim>\<open>SwapIn\<close>.\<close>

definition swap_ready :: "os_env \<Rightarrow> co_addr \<Rightarrow> coroutine \<Rightarrow> co_addr \<Rightarrow> cworld \<Rightarrow> bool" where
  "swap_ready E a c s w \<longleftrightarrow>
     swapcontext_rc E = 0 \<and> cur w = Some s \<and> heap w a = Some c \<and> partner c w = Some s \<and>
     heap w s \<noteq> None \<and> a \<noteq> s \<and> co_st c \<noteq> kExec"

lemma swap_in_spec:
  assumes r: "swap_ready E a c s w"
  shows "swap_in E alive a w =
    res_bind (stretch alive c)
      (\<lambda>(rs, st). if is_Stuck st then Inl (stuck_error st) else Inr (rs, switched s a st w))"
proof -
  from r obtain d where w: "swapcontext_rc E = 0" "cur w = Some s" "heap w a = Some c"
      "partner c w = Some s" "heap w s = Some d" "a \<noteq> s" "co_st c \<noteq> kExec"
    by (auto simp: swap_ready_def)
  define w2 where
    "w2 = upd s (\<lambda>d. d\<lparr>co_ctx := Thread_flow\<rparr>) (set_state a kExec (w\<lparr>cur := Some a\<rparr>))"
  have enter: "swap_in_enter E a w = Inr w2"
    unfolding w2_def using w by (intro swap_in_enter_eq) auto
  have w2: "heap w2 a = Some (c\<lparr>co_st := kExec\<rparr>)" "cur w2 = Some a"
      "partner (c\<lparr>co_st := kExec\<rparr>) w2 = Some s" "heap w2 s = Some (d\<lparr>co_ctx := Thread_flow\<rparr>)"
    using w by (auto simp: w2_def)
  have leave: "leave E a st w2 = Inr (switched s a st w)" if "\<not> is_Stuck st" for st
  proof -
    have "leave E a st w2 = Inr (upd a (after st) (w2\<lparr>cur := Some s\<rparr>))"
      using leave_eq[OF w(1) w2(2,1) _ w2(3,4) w(6) that] by simp
    also have "upd a (after st) (w2\<lparr>cur := Some s\<rparr>) = switched s a st w"
      using w that by (intro cworld_eqI) (auto simp: w2_def)
    finally show ?thesis .
  qed
  show ?thesis
    by (cases "co_ctx c")
       (auto simp: swap_in_def enter coroutine_func_def obj_def w2 get_current_def
         stretch_def leave leave_stuck Let_def split: prod.splits option.splits if_splits)
qed

lemma stretch_cases:
  assumes "stretch alive c = Inr (rs, st)"
  obtains b where "co_ctx c = Entry \<and> co_func c = Some b \<or> co_ctx c = Resume_at b"
      and "run_body alive b = (rs, st)"
    | "co_ctx c = Entry" "co_func c = None" "rs = []" "st = Threw"
  using assms that by (auto simp: stretch_def split: context_pc.splits option.splits)

lemma swap_in_enter_Inr:
  assumes "swap_in_enter E a w = Inr w'"
  shows "\<exists>c s. heap w a = Some c \<and> cur w = Some s \<and> partner c w = Some s \<and> co_st c \<noteq> kExec \<and>
    (s \<noteq> a \<longrightarrow> heap w s \<noteq> None) \<and> swapcontext_rc E = 0"
proof (cases "heap w a")
  case None
  with assms show ?thesis by (simp add: swap_in_enter_def obj_def)
next
  case a: (Some c)
  show ?thesis
  proof (cases "cur w")
    case None
    with a assms show ?thesis by (simp add: swap_in_enter_def obj_def get_current_def)
  next
    case (Some s)
    with a assms show ?thesis
      by (auto simp: swap_in_enter_def obj_def get_current_def get_main_def partner_def Let_def
          res_bind_eq_Inr split: if_splits)
  qed
qed

lemma swap_in_guard:
  assumes ret: "swap_in E alive a w = Inr r"
    and st: "\<And>s d. cur w = Some s \<Longrightarrow> heap w s = Some d \<Longrightarrow> co_st d = kExec"
  shows "\<exists>c s. swap_ready E a c s w"
proof -
  from ret obtain w' where "swap_in_enter E a w = Inr w'"
    by (auto simp: swap_in_def res_bind_eq_Inr)
  from swap_in_enter_Inr[OF this] st show ?thesis
    unfolding swap_ready_def by (metis option.sel)
qed

section \<open>Well-formed worlds\<close>

text \<open>
  An object with a stack is at the entry of its function while it is fresh, suspended in a
  body while it is held or ready, and past its last switch once it has ended. A main
  coroutine has neither stack nor callback and is always marked as executing.
\<close>

definition co_wf :: "coroutine \<Rightarrow> bool" where
  "co_wf c \<longleftrightarrow>
     (if stackFrame c then
        (co_st c = kInit \<longrightarrow> co_ctx c = Entry) \<and>
        (co_st c = kTerminal \<longrightarrow> co_ctx c = Finished \<and> co_func c = None) \<and>
        (co_st c = kExcept \<longrightarrow> co_ctx c = Finished) \<and>
        (co_st c = kHold \<or> co_st c = kReady \<longrightarrow> (\<exists>b. co_ctx c = Resume_at b))
      else co_func c = None \<and> co_ctx c = Thread_flow \<and> co_st c = kExec)"

definition executing :: "co_addr option \<Rightarrow> cworld \<Rightarrow> bool" where
  "executing p w \<longleftrightarrow> (\<forall>s. p = Some s \<longrightarrow> s < free_addr w \<and> (\<forall>d. heap w s = Some d \<longrightarrow> co_st d = kExec))"

definition world_wf :: "cworld \<Rightarrow> bool" where
  "world_wf w \<longleftrightarrow>
     (\<forall>a c. heap w a = Some c \<longrightarrow> co_wf c \<and> a < free_addr w) \<and>
     executing (cur w) w \<and> executing (main_co w) w \<and> executing (sched_co w) w \<and>
     co_count w = of_nat (card (dom (heap w)))"

lemma world_wfI:
  assumes "\<And>a c. heap w a = Some c \<Longrightarrow> co_wf c" "\<And>a c. heap w a = Some c \<Longrightarrow> a < free_addr w"
    and "executing (cur w) w" "executing (main_co w) w" "executing (sched_co w) w"
    and "co_count w = of_nat (card (dom (heap w)))"
  shows "world_wf w"
  using assms by (auto simp: world_wf_def)

lemma world_wf_finite: "world_wf w \<Longrightarrow> finite (dom (heap w))"
  by (rule finite_subset[of _ "{..<free_addr w}"]) (auto simp: world_wf_def)

lemma co_wf_after:
  assumes "co_wf c" "stackFrame c" "\<not> is_Stuck st"
  shows "co_wf (after st c)"
  using assms by (cases st) (auto simp: co_wf_def)

lemma co_wf_Thread_flow:
  "co_wf d \<Longrightarrow> co_st d = kExec \<Longrightarrow> co_wf (d\<lparr>co_ctx := Thread_flow\<rparr>)"
  by (auto simp: co_wf_def)

lemma executing_alloc:
  "executing p w \<Longrightarrow> executing p (snd (alloc c w))"
  by (auto simp: executing_def alloc_def)

lemma alloc_wf:
  assumes w: "world_wf w" and c: "co_wf c"
  shows "world_wf (snd (alloc c w))"
proof (rule world_wfI)
  have "free_addr w \<notin> dom (heap w)" using w by (auto simp: world_wf_def)
  then show "co_count (snd (alloc c w)) = of_nat (card (dom (heap (snd (alloc c w)))))"
    using w world_wf_finite[OF w] by (auto simp: alloc_def world_wf_def)
qed (use w c in \<open>auto simp: world_wf_def alloc_def executing_def less_Suc_eq split: if_splits\<close>)

lemma upd_wf:
  assumes w: "world_wf w" and a: "heap w a = Some c" "co_wf (g c)"
    and st: "co_st c \<noteq> kExec \<or> co_st (g c) = kExec"
  shows "world_wf (upd a g w)"
proof (rule world_wfI)
  show "co_count (upd a g w) = of_nat (card (dom (heap (upd a g w))))"
    using w by (simp add: world_wf_def)
qed (use w a st in \<open>auto simp: world_wf_def executing_def split: if_splits\<close>)

lemma switched_wf:
  assumes w: "world_wf w" and r: "swap_ready E a c s w" and st: "\<not> is_Stuck st"
  shows "world_wf (switched s a st w)"
proof -
  from r obtain d where g: "cur w = Some s" "heap w a = Some c" "heap w s = Some d" "a \<noteq> s"
      "co_st c \<noteq> kExec"
    by (auto simp: swap_ready_def)
  with w have d: "co_wf d" "co_st d = kExec" and c: "co_wf c"
    by (auto simp: world_wf_def executing_def)
  with g have "world_wf (upd s (\<lambda>d. d\<lparr>co_ctx := Thread_flow\<rparr>) w)"
    by (intro upd_wf[OF w]) (auto intro: co_wf_Thread_flow)
  then show ?thesis
    unfolding switched_def
  proof (rule upd_wf)
    show "heap (upd s (\<lambda>d. d\<lparr>co_ctx := Thread_flow\<rparr>) w) a = Some c" using g by simp
    have "stackFrame c" using c g(5) by (auto simp: co_wf_def split: if_splits)
    with c st show "co_wf (after st c)" by (intro co_wf_after)
    show "co_st c \<noteq> kExec \<or> co_st (after st c) = kExec" using g by simp
  qed
qed

section \<open>Runs of coroutine operations\<close>

text \<open>The process before its first coroutine: ids start at 1, 0 is the invalid id.\<close>

definition init_cworld :: cworld where
  "init_cworld = \<lparr>heap = Map.empty, free_addr = 0, next_co_id = 1, co_count = 0,
     cur = None, main_co = None, sched_co = None\<rparr>"

text \<open>\<^verbatim>\<open>this_thread::SetSchedulingCoroutine\<close> of \<^verbatim>\<open>scheduler.cpp\<close>.\<close>

definition set_scheduling_coroutine :: "co_addr option \<Rightarrow> cworld \<Rightarrow> cworld res" where
  "set_scheduling_coroutine p w =
     res_bind (if p \<noteq> None then sylar_assert (sched_co w = None) else Inr ())
       (\<lambda>_. Inr (w\<lparr>sched_co := p\<rparr>))"

text \<open>The calls a thread makes on coroutines; the scheduling coroutine is the running one.\<close>

datatype co_op =
    Op_get_main
  | Op_new "body option" u32 bool
  | Op_swap_in co_addr
  | Op_reset "body option" co_addr
  | Op_destroy co_addr
  | Op_sched_on
  | Op_sched_off

fun co_exec :: "os_env \<Rightarrow> (nat \<Rightarrow> bool) \<Rightarrow> co_op \<Rightarrow> cworld \<Rightarrow> cworld res" where
  "co_exec E alive Op_get_main w = res_bind (get_main E w) (\<lambda>(_, w'). Inr w')"
| "co_exec E alive (Op_new f n d) w = res_bind (new_coroutine E f n d w) (\<lambda>(_, w'). Inr w')"
| "co_exec E alive (Op_swap_in a) w = res_bind (swap_in E alive a w) (\<lambda>(_, w'). Inr w')"
| "co_exec E alive (Op_reset f a) w = reset_co E f a w"
| "co_exec E alive (Op_destroy a) w = destroy a w"
| "co_exec E alive Op_sched_on w = set_scheduling_coroutine (cur w) w"
| "co_exec E alive Op_sched_off w = set_scheduling_coroutine None w"

lemma get_main_wf:
  assumes w: "world_wf w" and r: "get_main E w = Inr (m, w')"
  shows "world_wf w'"
proof (cases "cur w")
  case None
  define c where "c = \<lparr>co_func = None, isDummyMainCoroutine = False, stackFrame = False,
    stackSize = 0, co_id = next_co_id w, co_ctx = Thread_flow, co_st = kExec\<rparr>"
  have w1: "world_wf (snd (alloc c w))"
    by (rule alloc_wf[OF w]) (simp add: c_def co_wf_def)
  have "w' = (snd (alloc c w))\<lparr>main_co := Some (free_addr w), cur := Some (free_addr w)\<rparr>"
    using r None by (auto simp: get_main_def new_main_coroutine_def bind_assert_eq_Inr
        res_bind_eq_Inr alloc_def c_def split: if_splits)
  then show ?thesis
    using w1 by (auto simp: world_wf_def executing_def alloc_def c_def)
next
  case (Some s)
  with r w show ?thesis by (simp add: get_main_def)
qed

lemma new_coroutine_wf:
  assumes w: "world_wf w" and r: "new_coroutine E f n d w = Inr (a, w')"
  shows "world_wf w'"
proof -
  define c where "c = \<lparr>co_func = f, isDummyMainCoroutine = d, stackFrame = True,
    stackSize = n, co_id = next_co_id w, co_ctx = Entry, co_st = kInit\<rparr>"
  have "w' = snd (alloc c w)"
    using r by (auto simp: new_coroutine_def bind_assert_eq_Inr c_def split: if_splits)
  with alloc_wf[OF w, of c] show ?thesis by (simp add: c_def co_wf_def)
qed

lemma swap_in_wf:
  assumes w: "world_wf w" and r: "swap_in E alive a w = Inr (rs, w')"
  shows "world_wf w'"
proof -
  obtain c s where g: "swap_ready E a c s w"
    using swap_in_guard[OF r] w by (auto simp: world_wf_def executing_def)
  with r obtain st where "\<not> is_Stuck st" "w' = switched s a st w"
    by (auto simp: swap_in_spec res_bind_eq_Inr split: if_splits)
  with switched_wf[OF w g] show ?thesis by simp
qed

lemma reset_co_wf:
  assumes w: "world_wf w" and r: "reset_co E f a w = Inr w'"
  shows "world_wf w'"
proof -
  from r obtain c where c: "heap w a = Some c" "stackFrame c"
      "co_st c = kTerminal \<or> co_st c = kExcept \<or> co_st c = kInit"
      "w' = upd a (\<lambda>c. c\<lparr>co_func := f, co_ctx := Entry, co_st := kInit\<rparr>) w"
    by (auto simp: reset_co_def obj_def res_bind_eq_Inr bind_assert_eq_Inr split: if_splits)
  then show ?thesis using upd_wf[OF w c(1)] by (auto simp: co_wf_def)
qed

lemma card_dom_del:
  assumes "m a \<noteq> None" "finite (dom m)"
  shows "of_nat (card (dom m)) - 1 = (of_nat (card (dom (m(a := None)))) :: u64)"
proof -
  have "a \<in> dom m" using assms(1) by (simp add: domIff)
  then have *: "card (dom m) = Suc (card (dom m - {a}))" using assms(2) by (rule card.remove[rotated])
  have "dom (m(a := None)) = dom m - {a}" by simp
  then show ?thesis by (simp only: * of_nat_Suc add_diff_cancel_left')
qed

lemma destroy_Inr:
  assumes "destroy a w = Inr w'"
  shows "heap w a \<noteq> None \<and> (\<exists>p. (p = cur w \<or> p = None) \<and>
    w' = w\<lparr>cur := p, heap := (heap w)(a := None), co_count := co_count w - 1\<rparr>)"
proof -
  from assms obtain c where c: "heap w a = Some c"
    by (auto simp: destroy_def obj_def res_bind_eq_Inr)
  show ?thesis
  proof (cases "stackFrame c")
    case True
    with assms c show ?thesis
      by (intro conjI exI[of _ "cur w"])
         (auto simp: destroy_def obj_def res_bind_eq_Inr bind_assert_eq_Inr intro!: cworld_eqI)
  next
    case False
    with assms c show ?thesis
      by (intro conjI exI[of _ None])
         (auto simp: destroy_def obj_def res_bind_eq_Inr bind_assert_eq_Inr intro!: cworld_eqI)
  qed
qed

lemma destroy_wf:
  assumes w: "world_wf w" and r: "destroy a w = Inr w'"
  shows "world_wf w'"
proof -
  from destroy_Inr[OF r] obtain p where a: "heap w a \<noteq> None" and p: "p = cur w \<or> p = None"
    and w': "w' = w\<lparr>cur := p, heap := (heap w)(a := None), co_count := co_count w - 1\<rparr>"
    by blast
  show ?thesis
  proof (rule world_wfI)
    show "co_count w' = of_nat (card (dom (heap w')))"
      using w w' card_dom_del[of "heap w" a, OF a world_wf_finite[OF w]]
      by (simp add: world_wf_def)
  qed (use w w' p in \<open>auto simp: world_wf_def executing_def split: if_splits\<close>)
qed

lemma set_scheduling_wf:
  assumes w: "world_wf w" and r: "set_scheduling_coroutine p w = Inr w'" and p: "p = None \<or> p = cur w"
  shows "world_wf w'"
  using assms
  by (auto simp: set_scheduling_coroutine_def res_bind_eq_Inr world_wf_def executing_def
      split: if_splits)

lemma co_exec_wf: "world_wf w \<Longrightarrow> co_exec E alive x w = Inr w' \<Longrightarrow> world_wf w'"
  by (cases x)
     (auto simp: res_bind_eq_Inr intro: get_main_wf new_coroutine_wf swap_in_wf reset_co_wf
       destroy_wf set_scheduling_wf)

interpretation coroutines: guarded_system "co_exec E alive" world_wf for E alive
  by unfold_locales (rule co_exec_wf)

lemma init_cworld_wf: "world_wf init_cworld"
  by (auto simp: world_wf_def init_cworld_def executing_def)

section \<open>Running a callback to its end\<close>

text \<open>
  \<open>plain_body\<close>: the callback ends by returning and gives up control only by the two yields.
  \<open>all_requests\<close> are the requests it makes from its start to its end.
\<close>

fun plain_body :: "(nat \<Rightarrow> bool) \<Rightarrow> body \<Rightarrow> bool" where
  "plain_body alive Return = True"
| "plain_body alive (Yield_to_hold k) = plain_body alive k"
| "plain_body alive (Yield_to_ready k) = plain_body alive k"
| "plain_body alive (Spawn f p k) = plain_body alive k"
| "plain_body alive (Spawn_co a p k) = plain_body alive k"
| "plain_body alive (If_alive c f) = (alive c \<longrightarrow> plain_body alive f)"
| "plain_body alive _ = False"

fun all_requests :: "(nat \<Rightarrow> bool) \<Rightarrow> body \<Rightarrow> request list" where
  "all_requests alive (Yield_to_hold k) = all_requests alive k"
| "all_requests alive (Yield_to_ready k) = all_requests alive k"
| "all_requests alive (Bare_swap_out k) = all_requests alive k"
| "all_requests alive (Spawn f p k) = Req_func f p # all_requests alive k"
| "all_requests alive (Spawn_co a p k) = Req_co a p # all_requests alive k"
| "all_requests alive (If_alive c f) = (if alive c then all_requests alive f else [])"
| "all_requests alive _ = []"

text \<open>Swapping the same coroutine in several times, collecting its requests.\<close>

fun swap_in_n ::
  "os_env \<Rightarrow> (nat \<Rightarrow> bool) \<Rightarrow> nat \<Rightarrow> co_addr \<Rightarrow> cworld \<Rightarrow> (request list \<times> cworld) res" where
  "swap_in_n E alive 0 a w = Inr ([], w)"
| "swap_in_n E alive (Suc n) a w =
     res_bind (swap_in E alive a w) (\<lambda>(rs, w').
     res_bind (swap_in_n E alive n a w') (\<lambda>(rs', w''). Inr (rs @ rs', w'')))"

lemma run_body_plain:
  "plain_body alive b \<Longrightarrow> \<exists>rs st. run_body alive b = (rs, st) \<and>
     (if yields alive b = 0 then st = Returned \<and> all_requests alive b = rs
      else \<exists>k. (st = Held k \<or> st = Readied k) \<and> plain_body alive k \<and>
             yields alive b = Suc (yields alive k) \<and>
             all_requests alive b = rs @ all_requests alive k)"
proof (induction alive b rule: run_body.induct)
  case (7 alive f p k)
  then show ?case by (fastforce split: if_splits)
next
  case (8 alive a p k)
  then show ?case by (fastforce split: if_splits)
next
  case (9 alive c f)
  show ?case
  proof (cases "alive c")
    case True
    then have eqs: "run_body alive (If_alive c f) = run_body alive f"
        "yields alive (If_alive c f) = yields alive f"
        "all_requests alive (If_alive c f) = all_requests alive f"
      by simp_all
    have "plain_body alive f" using True 9(2) by simp
    then show ?thesis unfolding eqs by (rule 9(1)[OF True])
  qed simp
qed auto

lemma swap_ready_after:
  "swap_ready E a c s w \<Longrightarrow> st = Held k \<or> st = Readied k \<Longrightarrow>
   swap_ready E a (after st c) s (switched s a st w)"
  by (auto simp: swap_ready_def partner_def)

lemma swap_in_n_plain:
  assumes "swap_ready E a c s w" "stretch alive c = Inr (run_body alive b)" "plain_body alive b"
    and "yields alive b = n"
  shows "(\<exists>w' c'. swap_in_n E alive (Suc n) a w = Inr (all_requests alive b, w') \<and>
            cur w' = Some s \<and> heap w' a = Some c' \<and> co_st c' = kTerminal \<and> co_ctx c' = Finished) \<and>
         (\<forall>m. 0 < m \<and> m \<le> n \<longrightarrow> (\<exists>rs w' c'. swap_in_n E alive m a w = Inr (rs, w') \<and>
            heap w' a = Some c' \<and> (co_st c' = kHold \<or> co_st c' = kReady)))"
  using assms
proof (induction n arbitrary: w c b)
  case 0
  obtain rs where b: "run_body alive b = (rs, Returned)" "all_requests alive b = rs"
    using run_body_plain[OF "0.prems"(3)] "0.prems"(4) by auto
  from "0.prems"(1) have g: "cur w = Some s" "heap w a = Some c" "s \<noteq> a"
    by (auto simp: swap_ready_def)
  have "swap_in E alive a w = Inr (rs, switched s a Returned w)"
    using "0.prems"(2) by (simp add: swap_in_spec[OF "0.prems"(1)] b(1))
  then show ?case using b(2) g by simp
next
  case (Suc n)
  obtain rs st k where b: "run_body alive b = (rs, st)" "st = Held k \<or> st = Readied k"
      "plain_body alive k" "yields alive k = n" "all_requests alive b = rs @ all_requests alive k"
    using run_body_plain[OF Suc.prems(3)] Suc.prems(4) by auto
  define w1 where "w1 = switched s a st w"
  have st: "\<not> is_Stuck st" using b(2) by auto
  have g: "heap w a = Some c" "s \<noteq> a" using Suc.prems(1) by (auto simp: swap_ready_def)
  have one: "swap_in E alive a w = Inr (rs, w1)"
    using Suc.prems(2) st by (simp add: swap_in_spec[OF Suc.prems(1)] b(1) w1_def)
  have r1: "swap_ready E a (after st c) s w1"
    unfolding w1_def by (rule swap_ready_after[OF Suc.prems(1) b(2)])
  have s1: "stretch alive (after st c) = Inr (run_body alive k)"
    using b(2) by (auto simp: stretch_def)
  note IH = Suc.IH[OF r1 s1 b(3,4)]
  have here: "heap w1 a = Some (after st c)" "co_st (after st c) = kHold \<or> co_st (after st c) = kReady"
    using b(2) g by (auto simp: w1_def)
  have rest: "\<exists>rs w' c'. swap_in_n E alive m a w = Inr (rs, w') \<and> heap w' a = Some c' \<and>
      (co_st c' = kHold \<or> co_st c' = kReady)" if "0 < m" "m \<le> Suc n" for m
  proof (cases "m = 1")
    case True
    with one here show ?thesis by auto
  next
    case False
    with that obtain m' where m': "m = Suc m'" "0 < m'" "m' \<le> n" by (cases m) auto
    with IH obtain rs' w' c' where "swap_in_n E alive m' a w1 = Inr (rs', w')" "heap w' a = Some c'"
        "co_st c' = kHold \<or> co_st c' = kReady" by blast
    with one m' show ?thesis by auto
  qed
  from IH one b(5) rest show ?case by auto
qed

section \<open>Properties\<close>

definition sunny_env :: os_env where
  "sunny_env = \<lparr>getcontext_rc = 0, swapcontext_rc = 0, malloc_ok = True\<rparr>"

text \<open>A thread whose main coroutine 0 schedules, with one fresh coroutine 1.\<close>

definition demo_main :: coroutine where
  "demo_main = \<lparr>co_func = None, isDummyMainCoroutine = False, stackFrame = False,
     stackSize = 0, co_id = 1, co_ctx = Thread_flow, co_st = kExec\<rparr>"

definition demo_task :: "body \<Rightarrow> coroutine" where
  "demo_task b = \<lparr>co_func = Some b, isDummyMainCoroutine = False, stackFrame = True,
     stackSize = 1048576, co_id = 2, co_ctx = Entry, co_st = kInit\<rparr>"

definition demo_world :: "body \<Rightarrow> cworld" where
  "demo_world b = \<lparr>heap = [0 \<mapsto> demo_main, 1 \<mapsto> demo_task b], free_addr = 2, next_co_id = 3,
     co_count = 2, cur = Some 0, main_co = Some 0, sched_co = Some 0\<rparr>"

lemma demo_ready: "swap_ready sunny_env 1 (demo_task b) 0 (demo_world b)"
  by (simp add: swap_ready_def sunny_env_def demo_world_def demo_task_def demo_main_def partner_def)

lemma demo_stretch: "stretch alive (demo_task b) = Inr (run_body alive b)"
  by (simp add: stretch_def demo_task_def)

text \<open>
  C13: A \<^verbatim>\<open>SwapIn\<close> that passes its guard runs exactly one stretch of the coroutine and comes
  back to the caller: the pointer to the running coroutine is the caller's again, the
  coroutine's object is the one the stretch leaves (terminated, excepted, held, ready, or
  still executing after a bare \<^verbatim>\<open>SwapOut\<close>), and nothing else of the process changes but the
  caller's saved context.
\<close>

theorem swap_in_returns_to_caller:
  assumes "swap_ready E a c s w" "stretch alive c = Inr (rs, st)" "\<not> is_Stuck st"
  shows "\<exists>w'. swap_in E alive a w = Inr (rs, w') \<and> cur w' = Some s \<and>
    heap w' a = Some (after st c) \<and>
    heap w' s = map_option (\<lambda>d. d\<lparr>co_ctx := Thread_flow\<rparr>) (heap w s) \<and>
    (\<forall>x. x \<noteq> a \<and> x \<noteq> s \<longrightarrow> heap w' x = heap w x) \<and>
    main_co w' = main_co w \<and> sched_co w' = sched_co w \<and> co_count w' = co_count w"
proof -
  have "swap_in E alive a w = Inr (rs, switched s a st w)"
    using assms by (simp add: swap_in_spec[OF assms(1)])
  with assms(1) show ?thesis by (intro exI[of _ "switched s a st w"]) (auto simp: swap_ready_def)
qed

theorem swap_in_returns_to_caller_witness:
  "\<exists>w'. swap_in sunny_env (\<lambda>_. True) 1 (demo_world (Spawn Return 7 (Yield_to_hold Return))) =
     Inr ([Req_func Return 7], w') \<and> cur w' = Some 0 \<and>
     heap w' 1 = Some (after (Held Return) (demo_task (Spawn Return 7 (Yield_to_hold Return))))"
  using swap_in_returns_to_caller[OF demo_ready[of "Spawn Return 7 (Yield_to_hold Return)"],
      of "\<lambda>_. True" "[Req_func Return 7]" "Held Return"]
  by (auto simp: demo_stretch)

text \<open>
  C16: A callback that returns, after giving up control \<open>n\<close> times by
  \<^verbatim>\<open>YieldCurCoroutineToHold\<close> or \<^verbatim>\<open>YieldCurCoroutineToReady\<close>, is finished by exactly
  \<open>n + 1\<close> calls of \<^verbatim>\<open>SwapIn\<close>: after these it is \<^verbatim>\<open>kTerminal\<close> and every request it makes has
  been made once, in order; after fewer it is \<^verbatim>\<open>kHold\<close> or \<^verbatim>\<open>kReady\<close>.
\<close>

theorem callback_runs_to_completion:
  assumes "swap_ready E a c s w" "co_ctx c = Entry" "co_func c = Some b" "plain_body alive b"
  shows "(\<exists>w' c'. swap_in_n E alive (Suc (yields alive b)) a w = Inr (all_requests alive b, w') \<and>
            cur w' = Some s \<and> heap w' a = Some c' \<and> co_st c' = kTerminal \<and> co_ctx c' = Finished) \<and>
         (\<forall>m. 0 < m \<and> m \<le> yields alive b \<longrightarrow>
            (\<exists>rs w' c'. swap_in_n E alive m a w = Inr (rs, w') \<and>
               heap w' a = Some c' \<and> (co_st c' = kHold \<or> co_st c' = kReady)))"
  using assms by (intro swap_in_n_plain) (auto simp: stretch_def)

theorem callback_runs_to_completion_witness:
  "\<exists>w' c'. swap_in_n sunny_env (\<lambda>_. True) 3 1
      (demo_world (Yield_to_ready (Spawn Return 0 (Yield_to_hold Return)))) =
      Inr ([Req_func Return 0], w') \<and> heap w' 1 = Some c' \<and> co_st c' = kTerminal"
  using callback_runs_to_completion[OF
      demo_ready[of "Yield_to_ready (Spawn Return 0 (Yield_to_hold Return))"],
      of "Yield_to_ready (Spawn Return 0 (Yield_to_hold Return))" "\<lambda>_. True"]
  by (auto simp: demo_task_def numeral_3_eq_3)

text \<open>
  C14: Whatever a thread calls on coroutines (creation, \<^verbatim>\<open>SwapIn\<close>, \<^verbatim>\<open>Reset\<close>, destruction,
  entering and leaving the scheduling role), in any order, as long as every call returns:
  each object's state agrees with its saved context (fresh at the entry, held and ready in
  the middle of a body, terminated and excepted past the last switch, terminated without a
  callback), the running, main and scheduling coroutines are in state \<^verbatim>\<open>kExec\<close>, and the
  global counter is the number of objects alive.
\<close>

theorem coroutine_calls_keep_world:
  assumes "run_ops (co_exec E alive) ops init_cworld = Inr w"
  shows "world_wf w"
  by (rule coroutines.run_ops_inv[OF init_cworld_wf assms])

theorem coroutine_calls_keep_world_witness:
  "\<exists>w. run_ops (co_exec sunny_env (\<lambda>_. True))
      [Op_get_main, Op_sched_on, Op_new (Some (Yield_to_hold Return)) 1024 False, Op_swap_in 1,
       Op_swap_in 1, Op_destroy 1] init_cworld = Inr w \<and> world_wf w \<and> co_count w = 1"
proof -
  have "\<exists>w. run_ops (co_exec sunny_env (\<lambda>_. True))
      [Op_get_main, Op_sched_on, Op_new (Some (Yield_to_hold Return)) 1024 False, Op_swap_in 1,
       Op_swap_in 1, Op_destroy 1] init_cworld = Inr w \<and> co_count w = 1"
    by (simp add: init_cworld_def sunny_env_def get_main_def new_main_coroutine_def alloc_def
        set_scheduling_coroutine_def new_coroutine_def swap_in_def swap_in_enter_def obj_def
        get_current_def coroutine_func_def yield_cur_def swap_out_def destroy_def upd_def
        set_state_def)
  with coroutine_calls_keep_world[of sunny_env "\<lambda>_. True"] show ?thesis by blast
qed

definition ended_world :: cworld where
  "ended_world = \<lparr>heap = [0 \<mapsto> demo_main, 1 \<mapsto> after Threw (demo_task Return)], free_addr = 2,
     next_co_id = 3, co_count = 2, cur = Some 0, main_co = Some 0, sched_co = Some 0\<rparr>"

lemma ended_world_wf: "world_wf ended_world"
  by (auto simp: ended_world_def world_wf_def executing_def co_wf_def demo_main_def demo_task_def
      split: if_splits)

text \<open>
  The destructor of a coroutine with a stack returns exactly for the states
  \<^verbatim>\<open>kTerminal\<close>, \<^verbatim>\<open>kExec\<close> and \<^verbatim>\<open>kInit\<close>, and then the object is gone and counted off. In
  particular the last owner of a coroutine whose callback ended with an exception
  (\<^verbatim>\<open>kExcept\<close>) aborts the process.
\<close>

theorem destroy_guard:
  assumes "heap w a = Some c" "stackFrame c"
  shows "destroy a w =
    (if co_st c = kExcept \<or> co_st c = kHold \<or> co_st c = kReady then Inl Assert_failed
     else Inr (w\<lparr>heap := (heap w)(a := None), co_count := co_count w - 1\<rparr>))"
  using assms by (cases "co_st c") (simp_all add: destroy_def obj_def)

theorem destroy_guard_witness: "destroy 1 ended_world = Inl Assert_failed"
  using destroy_guard[of ended_world 1 "after Threw (demo_task Return)"]
  by (simp add: ended_world_def demo_task_def)

text \<open>
  The first \<^verbatim>\<open>SwapIn\<close> of \<^verbatim>\<open>test/coroutine_test.cpp\<close> (a main coroutine, one coroutine, no
  scheduler) aborts whatever the callback does: no scheduling coroutine has been set in the
  thread, so the running coroutine is not the scheduling one.
\<close>

lemma coroutine_test_aborts:
  "run_ops (co_exec sunny_env alive) [Op_get_main, Op_new (Some b) 1048576 False, Op_swap_in 1]
     init_cworld = Inl Assert_failed"
  by (simp add: init_cworld_def sunny_env_def get_main_def new_main_coroutine_def alloc_def
      new_coroutine_def swap_in_def swap_in_enter_def obj_def get_current_def)

end
