(* ===== verification/Task_Queue.thy ===== *)
theory Task_Queue
  imports Coroutine
begin

text \<open>
  The task list of the scheduler (\<^verbatim>\<open>concurrency/scheduler.h\<close> and the locked part of the loop
  in \<^verbatim>\<open>concurrency/scheduler.cpp\<close>): the wrapped work items, \<^verbatim>\<open>Co\<close>, \<^verbatim>\<open>AddTaskNoLock\<close>, and the
  scan by which a scheduling thread takes its next task. \<^verbatim>\<open>Notifier::Notify\<close>
  (\<^verbatim>\<open>concurrency/notifier.cpp\<close>) writes a number to the eventfd; the numbers written are
  recorded in order.
\<close>

section \<open>Work items and the scheduler's state\<close>

record invocable =
  target_thread :: pthread_t
  callback :: "body option"
  coroutine_ptr :: "co_addr option"

definition empty_invocable :: invocable where
  "empty_invocable = \<lparr>target_thread = 0, callback = None, coroutine_ptr = None\<rparr>"

definition wrap_coroutine :: "co_addr \<Rightarrow> pthread_t \<Rightarrow> invocable" where
  "wrap_coroutine a p = \<lparr>target_thread = p, callback = None, coroutine_ptr = Some a\<rparr>"

definition wrap_callback :: "body option \<Rightarrow> pthread_t \<Rightarrow> invocable" where
  "wrap_callback f p = \<lparr>target_thread = p, callback = f, coroutine_ptr = None\<rparr>"

record sched =
  sc_name :: string
  dummyMainCoroutine :: "co_addr option"
  dummyMainTrdPthreadId :: pthread_t
  threadPool :: "string option list"
  stopped :: bool
  activeThreadNum :: u64
  idleThreadNum :: u64
  taskList :: "invocable list"
  notified :: "u64 list"

text \<open>\<^verbatim>\<open>Scheduler::Notify\<close>, \<^verbatim>\<open>Notifier::Notify\<close>: a failed write is only logged.\<close>

definition notify :: "u64 \<Rightarrow> sched \<Rightarrow> sched" where
  "notify num s = s\<lparr>notified := notified s @ [num]\<rparr>"

definition is_stopped :: "sched \<Rightarrow> bool" where
  "is_stopped s \<longleftrightarrow> stopped s \<and> taskList s = []"

section \<open>Adding tasks\<close>

definition add_task_no_lock :: "invocable \<Rightarrow> sched \<Rightarrow> sched \<times> bool" where
  "add_task_no_lock t s = (s\<lparr>taskList := taskList s @ [t]\<rparr>, taskList s = [])"

definition co :: "invocable \<Rightarrow> sched \<Rightarrow> sched" where
  "co t s = (let (s', need_notify) = add_task_no_lock t s
             in if need_notify then notify 1 s' else s')"

interpretation tasks: task_sink co taskList "\<lambda>s. length (notified s)"
  by unfold_locales (auto simp: co_def add_task_no_lock_def notify_def)

lemma co_frame [simp, frame_simps]:
  "stopped (co t s) = stopped s" "activeThreadNum (co t s) = activeThreadNum s"
  "idleThreadNum (co t s) = idleThreadNum s" "threadPool (co t s) = threadPool s"
  "dummyMainCoroutine (co t s) = dummyMainCoroutine s"
  "dummyMainTrdPthreadId (co t s) = dummyMainTrdPthreadId s" "sc_name (co t s) = sc_name s"
  by (simp_all add: co_def add_task_no_lock_def notify_def)

lemma notify_frame [simp, frame_simps]:
  "stopped (notify n s) = stopped s" "activeThreadNum (notify n s) = activeThreadNum s"
  "idleThreadNum (notify n s) = idleThreadNum s" "threadPool (notify n s) = threadPool s"
  "dummyMainCoroutine (notify n s) = dummyMainCoroutine s"
  "dummyMainTrdPthreadId (notify n s) = dummyMainTrdPthreadId s"
  "taskList (notify n s) = taskList s" "sc_name (notify n s) = sc_name s"
  "notified (notify n s) = notified s @ [n]"
  by (simp_all add: notify_def)

text \<open>The requests a coroutine made while it ran, as \<^verbatim>\<open>Co\<close> calls in order.\<close>

fun item_of :: "request \<Rightarrow> invocable" where
  "item_of (Req_func f p) = wrap_callback (Some f) p"
| "item_of (Req_co a p) = wrap_coroutine a p"

definition post_requests :: "request list \<Rightarrow> sched \<Rightarrow> sched" where
  "post_requests rs s = fold co (map item_of rs) s"

lemma taskList_post_requests [simp]:
  "taskList (post_requests rs s) = taskList s @ map item_of rs"
  by (simp add: post_requests_def tasks.pending_fold)

lemma post_requests_frame [simp, frame_simps]:
  "stopped (post_requests rs s) = stopped s"
  "dummyMainCoroutine (post_requests rs s) = dummyMainCoroutine s"
  "dummyMainTrdPthreadId (post_requests rs s) = dummyMainTrdPthreadId s"
  "threadPool (post_requests rs s) = threadPool s"
  "activeThreadNum (post_requests rs s) = activeThreadNum s"
  "idleThreadNum (post_requests rs s) = idleThreadNum s"
  unfolding post_requests_def
  by (induction rs arbitrary: s) (auto simp del: item_of.simps)

section \<open>Taking a task\<close>

text \<open>
  The \<^verbatim>\<open>for\<close> loop over the task list, under the lock. \<open>skipped\<close> holds the items passed over
  so far (last first); the result is \<^verbatim>\<open>need_notify\<close> as the loop leaves it, the task taken
  and the list after \<^verbatim>\<open>erase\<close>.
\<close>

fun scan ::
  "pthread_t \<Rightarrow> (co_addr \<Rightarrow> coroutine option) \<Rightarrow> bool \<Rightarrow> invocable list \<Rightarrow> invocable list
   \<Rightarrow> (bool \<times> invocable option \<times> invocable list) res" where
  "scan self h need skipped [] = Inr (need, None, rev skipped)"
| "scan self h need skipped (t # ts) =
     (if target_thread t \<noteq> 0 \<and> target_thread t \<noteq> self
      then scan self h True (t # skipped) ts
      else res_bind (sylar_assert (coroutine_ptr t \<noteq> None \<or> callback t \<noteq> None)) (\<lambda>_.
           res_bind
             (case coroutine_ptr t of
                None \<Rightarrow> Inr ()
              | Some a \<Rightarrow> res_bind (deref (h a)) (\<lambda>c. sylar_assert (co_st c \<noteq> kExec))) (\<lambda>_.
           Inr (need, Some t, rev skipped @ ts))))"

text \<open>The locked section and the \<^verbatim>\<open>Notify\<close> after it.\<close>

definition take_task ::
  "pthread_t \<Rightarrow> (co_addr \<Rightarrow> coroutine option) \<Rightarrow> sched \<Rightarrow> (invocable option \<times> sched) res" where
  "take_task self h s =
     res_bind (scan self h False [] (taskList s)) (\<lambda>(need, t, rest).
     let s' = s\<lparr>taskList := rest\<rparr>; need_notify = need \<or> rest \<noteq> []
     in Inr (t, if need_notify then notify 1 s' else s'))"

text \<open>
  The specification: the first task that may run on this thread is removed, and a wake-up
  is requested exactly when tasks are left.
\<close>

definition eligible :: "pthread_t \<Rightarrow> invocable \<Rightarrow> bool" where
  "eligible self t \<longleftrightarrow> target_thread t = 0 \<or> target_thread t = self"

definition takeable :: "(co_addr \<Rightarrow> coroutine option) \<Rightarrow> invocable \<Rightarrow> bool" where
  "takeable h t \<longleftrightarrow>
     (case coroutine_ptr t of None \<Rightarrow> callback t \<noteq> None
      | Some a \<Rightarrow> (\<exists>c. h a = Some c \<and> co_st c \<noteq> kExec))"

definition left_with :: "invocable list \<Rightarrow> sched \<Rightarrow> sched" where
  "left_with rest s =
     (if rest = [] then s\<lparr>taskList := []\<rparr> else notify 1 (s\<lparr>taskList := rest\<rparr>))"

lemma scan_split:
  "scan self h need skipped ts =
     (case find (eligible self) ts of
        None \<Rightarrow> Inr (need \<or> ts \<noteq> [], None, rev skipped @ ts)
      | Some t \<Rightarrow>
          if takeable h t
          then Inr (need \<or> hd ts \<noteq> t, Some t, rev skipped @ remove1 t ts)
          else scan self h need skipped ts)"
proof (induction self h need skipped ts rule: scan.induct)
  case (1 self h need skipped)
  then show ?case by simp
next
  case (2 self h need skipped t ts)
  show ?case
  proof (cases "eligible self t")
    case True
    then show ?thesis
      by (auto simp: eligible_def takeable_def split: option.splits)
  next
    case False
    then have skip: "target_thread t \<noteq> 0 \<and> target_thread t \<noteq> self"
      by (simp add: eligible_def)
    have ne: "t' \<noteq> t" if "find (eligible self) ts = Some t'" for t'
      using that False by (auto simp: find_Some_iff)
    show ?thesis
      using 2[OF skip] skip False ne by (auto split: option.splits if_splits)
  qed
qed

lemma find_remove1_ne:
  "find P ts = Some t \<Longrightarrow> hd ts \<noteq> t \<Longrightarrow> remove1 t ts \<noteq> []"
  by (cases ts) (auto split: if_splits)

lemma take_task_None:
  assumes "find (eligible self) (taskList s) = None"
  shows "take_task self h s = Inr (None, left_with (taskList s) s)"
  using assms scan_split[of self h False "[]" "taskList s"]
  by (auto simp: take_task_def left_with_def Let_def)

lemma take_task_Some:
  assumes "find (eligible self) (taskList s) = Some t" "takeable h t"
  shows "take_task self h s = Inr (Some t, left_with (remove1 t (taskList s)) s)"
  using assms scan_split[of self h False "[]" "taskList s"]
  by (auto simp: take_task_def left_with_def Let_def dest: find_remove1_ne)

lemma left_with_frame [simp, frame_simps]:
  "taskList (left_with ts s) = ts" "stopped (left_with ts s) = stopped s"
  "activeThreadNum (left_with ts s) = activeThreadNum s"
  "idleThreadNum (left_with ts s) = idleThreadNum s"
  "dummyMainCoroutine (left_with ts s) = dummyMainCoroutine s"
  by (simp_all add: left_with_def)

text \<open>How taking a task that may run here but is not fit to run fails.\<close>

definition unfit :: "(co_addr \<Rightarrow> coroutine option) \<Rightarrow> invocable \<Rightarrow> cpp_error" where
  "unfit h t = (case coroutine_ptr t of
     Some a \<Rightarrow> if h a = None then Undefined_behaviour else Assert_failed
   | None \<Rightarrow> Assert_failed)"

lemma scan_unfit:
  assumes "find (eligible self) ts = Some t" "\<not> takeable h t"
  shows "scan self h need skipped ts = Inl (unfit h t)"
  using assms
proof (induction self h need skipped ts rule: scan.induct)
  case (1 self h need skipped)
  then show ?case by simp
next
  case (2 self h need skipped u ts)
  show ?case
  proof (cases "eligible self u")
    case True
    with 2(2,3) show ?thesis
      by (auto simp: eligible_def takeable_def unfit_def deref_def split: option.splits)
  next
    case False
    then have skip: "target_thread u \<noteq> 0 \<and> target_thread u \<noteq> self" by (simp add: eligible_def)
    with 2(1)[OF skip] 2(2,3) False show ?thesis by simp
  qed
qed

lemma take_task_unfit:
  assumes "find (eligible self) (taskList s) = Some t" "\<not> takeable h t"
  shows "take_task self h s = Inl (unfit h t)"
  using scan_unfit[OF assms] by (simp add: take_task_def)

text \<open>Taking tasks until none is left for this thread, at most \<open>n\<close>.\<close>

fun take_n ::
  "nat \<Rightarrow> pthread_t \<Rightarrow> (co_addr \<Rightarrow> coroutine option) \<Rightarrow> sched \<Rightarrow> (invocable list \<times> sched) res" where
  "take_n 0 self h s = Inr ([], s)"
| "take_n (Suc n) self h s =
     res_bind (take_task self h s) (\<lambda>(t, s').
     case t of None \<Rightarrow> Inr ([], s')
     | Some t \<Rightarrow> res_bind (take_n n self h s') (\<lambda>(ts, s''). Inr (t # ts, s'')))"

lemma find_Some_P: "find P ts = Some t \<Longrightarrow> P t"
  by (auto simp: find_Some_iff)

lemma find_filter:
  "find P ts = Some t \<Longrightarrow>
   filter P ts = t # filter P (remove1 t ts) \<and>
   filter (\<lambda>x. \<not> P x) (remove1 t ts) = filter (\<lambda>x. \<not> P x) ts"
  by (induction ts) (auto split: if_splits dest: find_Some_P)

lemma take_n_filter:
  assumes "\<forall>t\<in>set (taskList s). eligible self t \<longrightarrow> takeable h t"
    and "length (filter (eligible self) (taskList s)) \<le> n"
  shows "\<exists>s'. take_n n self h s = Inr (filter (eligible self) (taskList s), s') \<and>
    taskList s' = filter (\<lambda>t. \<not> eligible self t) (taskList s)"
  using assms
proof (induction n arbitrary: s)
  case 0
  then have none: "filter (eligible self) (taskList s) = []" by simp
  then have "filter (\<lambda>t. \<not> eligible self t) (taskList s) = taskList s"
    by (simp add: filter_empty_conv)
  with none show ?case by simp
next
  case (Suc n)
  show ?case
  proof (cases "find (eligible self) (taskList s)")
    case None
    then have "filter (eligible self) (taskList s) = []"
        "filter (\<lambda>t. \<not> eligible self t) (taskList s) = taskList s"
      by (simp_all add: find_None_iff filter_empty_conv)
    then show ?thesis by (simp add: take_task_None[OF None])
  next
    case (Some t)
    then have t: "t \<in> set (taskList s)" "eligible self t" by (auto simp: find_Some_iff)
    note split = find_filter[OF Some]
    define s1 where "s1 = left_with (remove1 t (taskList s)) s"
    have "take_task self h s = Inr (Some t, s1)"
      using take_task_Some[OF Some] Suc.prems(1) t by (simp add: s1_def)
    moreover have "\<exists>s'. take_n n self h s1 = Inr (filter (eligible self) (taskList s1), s') \<and>
        taskList s' = filter (\<lambda>t. \<not> eligible self t) (taskList s1)"
    proof (rule Suc.IH)
      show "\<forall>t\<in>set (taskList s1). eligible self t \<longrightarrow> takeable h t"
        using Suc.prems(1) by (auto simp: s1_def dest: set_remove1_subset[THEN subsetD])
      show "length (filter (eligible self) (taskList s1)) \<le> n"
        using Suc.prems(2) split by (simp add: s1_def)
    qed
    ultimately show ?thesis using split by (auto simp: s1_def)
  qed
qed

section \<open>Properties\<close>

definition empty_sched :: "string \<Rightarrow> sched" where
  "empty_sched n = \<lparr>sc_name = n, dummyMainCoroutine = None, dummyMainTrdPthreadId = 0,
     threadPool = [], stopped = True, activeThreadNum = 0, idleThreadNum = 0,
     taskList = [], notified = []\<rparr>"

text \<open>
  Handing over any number of tasks through \<^verbatim>\<open>Scheduler::Co\<close> appends them to the task list
  in order, and requests exactly one wake-up if the list was empty before and none otherwise.
\<close>

theorem co_appends_and_wakes_once:
  "taskList (fold co ts s) = taskList s @ ts \<and>
   length (notified (fold co ts s)) =
     (if taskList s = [] \<and> ts \<noteq> [] then Suc (length (notified s)) else length (notified s))"
  by (simp add: tasks.pending_fold tasks.wakes_fold)

text \<open>
  C19: The scan of the scheduling loop implements its specification on every branch: it takes
  the first task whose target thread is this one or none, leaves the others in order,
  requests a wake-up exactly when tasks are left, and fails exactly when the first eligible
  task holds neither a coroutine nor a callback, or a coroutine that is executing.
\<close>

theorem take_task_spec:
  "take_task self h s =
     (case find (eligible self) (taskList s) of
        None \<Rightarrow> Inr (None, left_with (taskList s) s)
      | Some t \<Rightarrow> if takeable h t then Inr (Some t, left_with (remove1 t (taskList s)) s)
                 else Inl (unfit h t))"
  by (simp add: take_task_None take_task_Some take_task_unfit split: option.split)

text \<open>
  A thread that keeps taking tasks gets every task it may run, each once and in the order
  they were added, and the tasks bound to other threads stay in the list in their order.
\<close>

theorem tasks_taken_in_order:
  assumes "\<forall>t\<in>set (taskList s). eligible self t \<longrightarrow> takeable h t"
    and "length (filter (eligible self) (taskList s)) \<le> n"
  shows "\<exists>s'. take_n n self h s = Inr (filter (eligible self) (taskList s), s') \<and>
    taskList s' = filter (\<lambda>t. \<not> eligible self t) (taskList s)"
  using assms by (rule take_n_filter)

theorem tasks_taken_in_order_witness:
  "\<exists>s'. take_n 5 7 Map.empty ((empty_sched ''s'')\<lparr>taskList := [wrap_callback (Some Return) 9,
       wrap_callback (Some Throw_std) 7, wrap_callback (Some Return) 0]\<rparr>) =
     Inr ([wrap_callback (Some Throw_std) 7, wrap_callback (Some Return) 0], s') \<and>
     taskList s' = [wrap_callback (Some Return) 9]"
  using tasks_taken_in_order[of "(empty_sched ''s'')\<lparr>taskList := [wrap_callback (Some Return) 9,
       wrap_callback (Some Throw_std) 7, wrap_callback (Some Return) 0]\<rparr>" 7 Map.empty 5]
  by (simp add: eligible_def wrap_callback_def takeable_def)

end
