(* ===== verification/Timer_Manager.thy ===== *)
theory Timer_Manager
  imports Task_Queue
begin

text \<open>
  The timers of \<^verbatim>\<open>concurrency/timer_manager.h\<close> and \<^verbatim>\<open>concurrency/timer_manager.cpp\<close>, and
  the scheduler calls that create them (\<^verbatim>\<open>RunAt\<close>, \<^verbatim>\<open>RunAfter\<close> and their conditional forms).

  Times are \<^verbatim>\<open>steady_clock\<close> ticks, signed 64-bit nanoseconds: an addition that leaves the
  range is undefined behaviour. The \<open>k\<close>-th reading of the clock is \<open>clk k\<close>, a parameter;
  operations that read it pass the number of readings along. \<^verbatim>\<open>std::set<Timer>\<close> is a list in
  iteration order; its order compares the expiration times only, so two timers with the
  same expiration time are equivalent for it and the second is not inserted.
\<close>

section \<open>Times\<close>

definition tp_max :: int where "tp_max = 2 ^ 63 - 1"
definition tp_min :: int where "tp_min = - (2 ^ 63)"

definition tp_add :: "int \<Rightarrow> int \<Rightarrow> int res" where
  "tp_add a b =
     (if tp_min \<le> a + b \<and> a + b \<le> tp_max then Inr (a + b) else Inl Undefined_behaviour)"

section \<open>Timers and the manager's state\<close>

record timer =
  timer_id :: u32
  timeout_tp :: int
  interval :: int
  timer_cb :: "body option"

definition is_repeated :: "timer \<Rightarrow> bool" where
  "is_repeated t \<longleftrightarrow> interval t \<noteq> 0"

definition timer_less :: "timer \<Rightarrow> timer \<Rightarrow> bool" where
  "timer_less t u \<longleftrightarrow> timeout_tp t < timeout_tp u"

definition set_expiration :: "int \<Rightarrow> timer \<Rightarrow> timer" where
  "set_expiration tp t = t\<lparr>timeout_tp := tp\<rparr>"

text \<open>
  \<open>armed\<close> is the \<^verbatim>\<open>it_value\<close> (seconds, nanoseconds) of the last \<^verbatim>\<open>timerfd_settime\<close>;
  \<open>gs_next_timer_id\<close> is the process-wide counter.
\<close>

record timers =
  timerList :: "timer list"
  latestTime :: int
  armed :: "int \<times> int"
  gs_next_timer_id :: u32

definition init_timers :: timers where
  "init_timers = \<lparr>timerList = [], latestTime = tp_max, armed = (0, 0), gs_next_timer_id = 1\<rparr>"

text \<open>\<^verbatim>\<open>std::set::insert\<close>, \<^verbatim>\<open>std::find_if\<close> and \<^verbatim>\<open>std::set::erase\<close>.\<close>

fun set_insert :: "timer \<Rightarrow> timer list \<Rightarrow> timer list" where
  "set_insert t [] = [t]"
| "set_insert t (u # us) =
     (if timer_less t u then t # u # us
      else if timer_less u t then u # set_insert t us
      else u # us)"

fun find_pos :: "('a \<Rightarrow> bool) \<Rightarrow> 'a list \<Rightarrow> nat option" where
  "find_pos P [] = None"
| "find_pos P (x # xs) = (if P x then Some 0 else map_option Suc (find_pos P xs))"

definition erase_at :: "nat \<Rightarrow> 'a list \<Rightarrow> 'a list" where
  "erase_at i xs = take i xs @ drop (Suc i) xs"

section \<open>Operations\<close>

text \<open>\<^verbatim>\<open>duration_cast\<close> to seconds, and the rest in nanoseconds.\<close>

definition refresh_timer_fd :: "timers \<Rightarrow> timers" where
  "refresh_timer_fd m =
     m\<lparr>armed :=
        (if latestTime m \<noteq> tp_max then
           (let sec = cxx_div (latestTime m) 1000000000
            in (sec, latestTime m - sec * 1000000000))
         else (0, 0))\<rparr>"

definition add_to_heap :: "timer \<Rightarrow> timers \<Rightarrow> bool \<times> timers" where
  "add_to_heap t m =
     (timerList m = [] \<or> timeout_tp (hd (timerList m)) > timeout_tp t,
      m\<lparr>timerList := set_insert t (timerList m)\<rparr>)"

definition add_timer :: "timer \<Rightarrow> timers \<Rightarrow> timers res" where
  "add_timer t m =
     res_bind (sylar_assert (timeout_tp t \<noteq> tp_max)) (\<lambda>_.
     let (latest_need_update, m1) = add_to_heap t m
     in Inr (if latest_need_update
             then refresh_timer_fd (m1\<lparr>latestTime := timeout_tp t\<rparr>) else m1))"

text \<open>The callback is wrapped so that it runs only while the condition is alive.\<close>

definition add_condition_timer :: "timer \<Rightarrow> nat \<Rightarrow> timers \<Rightarrow> timers res" where
  "add_condition_timer t cond m =
     add_timer (t\<lparr>timer_cb := Some (If_alive cond
       (case timer_cb t of Some f \<Rightarrow> f | None \<Rightarrow> Failing_assert))\<rparr>) m"

text \<open>\<^verbatim>\<open>None\<close> is \<^verbatim>\<open>timerList_.end()\<close>, which \<^verbatim>\<open>erase\<close> must not be given.\<close>

definition remove_from_heap :: "nat option \<Rightarrow> timers \<Rightarrow> timers res" where
  "remove_from_heap it m =
     (let latest_need_update = (length (timerList m) = 1 \<or> it = Some 0 \<or>
            (it = None \<and> timerList m = []))
      in case it of
           None \<Rightarrow> Inl Undefined_behaviour
         | Some i \<Rightarrow>
             let m1 = m\<lparr>timerList := erase_at i (timerList m)\<rparr>
             in Inr (if latest_need_update then
                       refresh_timer_fd (m1\<lparr>latestTime :=
                         (if timerList m1 = [] then tp_max
                          else timeout_tp (hd (timerList m1)))\<rparr>)
                     else m1))"

definition cancel_timer :: "u32 \<Rightarrow> timers \<Rightarrow> timers res" where
  "cancel_timer target m =
     remove_from_heap (find_pos (\<lambda>t. timer_id t = target) (timerList m)) m"

definition has_timer :: "u32 \<Rightarrow> timers \<Rightarrow> bool" where
  "has_timer i m \<longleftrightarrow> find_pos (\<lambda>t. timer_id t = i) (timerList m) \<noteq> None"

text \<open>
  The \<^verbatim>\<open>while\<close> loop of \<^verbatim>\<open>GetAllExpiredTimers\<close>: the timers taken (last first), the list and
  the number of clock readings so far. \<open>None\<close> is "the loop does not end".
\<close>

partial_function (option) expire_loop ::
  "(nat \<Rightarrow> int) \<Rightarrow> nat \<Rightarrow> timer list \<Rightarrow> timer list \<Rightarrow> (timer list \<times> timer list \<times> nat) res option"
where
  "expire_loop clk k xs acc =
     (case xs of
        [] \<Rightarrow> Some (Inr (rev acc, [], k))
      | t # ts \<Rightarrow>
          if timeout_tp t \<le> clk k then
            (if is_repeated t then
               (case tp_add (interval t) (clk (Suc k)) of
                  Inl e \<Rightarrow> Some (Inl e)
                | Inr next_expiration \<Rightarrow>
                    expire_loop clk (Suc (Suc k))
                      (set_insert (set_expiration next_expiration t) ts) (t # acc))
             else expire_loop clk (Suc k) ts (t # acc))
          else Some (Inr (rev acc, xs, Suc k)))"

definition get_all_expired_timers ::
  "(nat \<Rightarrow> int) \<Rightarrow> nat \<Rightarrow> timers \<Rightarrow> (timer list \<times> timers \<times> nat) res" where
  "get_all_expired_timers clk k m =
     res_bind (returns (expire_loop clk k (timerList m) [])) (\<lambda>(expired, xs, k').
     res_bind
       (if xs = [] then Inr tp_max
        else res_bind (sylar_assert (timeout_tp (hd xs) > latestTime m))
               (\<lambda>_. Inr (timeout_tp (hd xs)))) (\<lambda>latest.
     Inr (expired, refresh_timer_fd (m\<lparr>timerList := xs, latestTime := latest\<rparr>), k')))"

text \<open>\<^verbatim>\<open>HandleExpiredTimers\<close>: what \<^verbatim>\<open>read\<close> returns on the timerfd is only logged.\<close>

definition handle_expired_timers ::
  "(nat \<Rightarrow> int) \<Rightarrow> nat \<Rightarrow> timers \<Rightarrow> sched \<Rightarrow> (timers \<times> sched \<times> nat) res" where
  "handle_expired_timers clk k m s =
     res_bind (get_all_expired_timers clk k m) (\<lambda>(expired, m', k').
     Inr (m', fold co (map (\<lambda>t. wrap_callback (timer_cb t) 0) expired) s, k'))"

section \<open>Timers of the scheduler\<close>

text \<open>\<^verbatim>\<open>TimerManager::GetNextTimerId\<close>: the id before the atomic increment.\<close>

definition get_next_timer_id :: "timers \<Rightarrow> u32 \<times> timers" where
  "get_next_timer_id m = (gs_next_timer_id m, m\<lparr>gs_next_timer_id := gs_next_timer_id m + 1\<rparr>)"

definition run_at :: "int \<Rightarrow> body option \<Rightarrow> timers \<Rightarrow> (u32 \<times> timers) res" where
  "run_at tp cb m =
     (let (i, m1) = get_next_timer_id m
      in res_bind (add_timer \<lparr>timer_id = i, timeout_tp = tp, interval = 0, timer_cb = cb\<rparr> m1)
           (\<lambda>m2. Inr (i, m2)))"

definition run_at_if :: "int \<Rightarrow> nat \<Rightarrow> body option \<Rightarrow> timers \<Rightarrow> (u32 \<times> timers) res" where
  "run_at_if tp cond cb m =
     (let (i, m1) = get_next_timer_id m
      in res_bind
           (add_condition_timer \<lparr>timer_id = i, timeout_tp = tp, interval = 0, timer_cb = cb\<rparr> cond m1)
           (\<lambda>m2. Inr (i, m2)))"

definition run_after ::
  "int \<Rightarrow> int \<Rightarrow> body option \<Rightarrow> bool \<Rightarrow> timers \<Rightarrow> (u32 \<times> timers) res" where
  "run_after now dur cb repeated m =
     res_bind (tp_add now dur) (\<lambda>tp.
     if repeated then
       (let (i, m1) = get_next_timer_id m
        in res_bind (add_timer \<lparr>timer_id = i, timeout_tp = tp, interval = dur, timer_cb = cb\<rparr> m1)
             (\<lambda>m2. Inr (i, m2)))
     else run_at tp cb m)"

definition run_after_if ::
  "int \<Rightarrow> int \<Rightarrow> nat \<Rightarrow> body option \<Rightarrow> bool \<Rightarrow> timers \<Rightarrow> (u32 \<times> timers) res" where
  "run_after_if now dur cond cb repeated m =
     res_bind (tp_add now dur) (\<lambda>tp.
     if repeated then
       (let (i, m1) = get_next_timer_id m
        in res_bind
             (add_condition_timer
               \<lparr>timer_id = i, timeout_tp = tp, interval = dur, timer_cb = cb\<rparr> cond m1)
             (\<lambda>m2. Inr (i, m2)))
     else run_at_if tp cond cb m)"

section \<open>The ordered set\<close>

abbreviation ordered :: "timer list \<Rightarrow> bool" where
  "ordered \<equiv> sorted_wrt timer_less"

lemma set_set_insert:
  "ordered xs \<Longrightarrow> set (set_insert t xs) =
     (if \<exists>u\<in>set xs. timeout_tp u = timeout_tp t then set xs else insert t (set xs))"
  by (induction xs) (auto simp: timer_less_def)

lemma set_insert_subset: "set xs \<subseteq> set (set_insert t xs)"
  by (induction xs) auto

lemma set_set_insert_subset: "set (set_insert t xs) \<subseteq> insert t (set xs)"
  by (induction xs) auto

lemma set_insert_timeout: "\<exists>u\<in>set (set_insert t xs). timeout_tp u = timeout_tp t"
  by (induction xs) (auto simp: timer_less_def)

lemma ordered_set_insert: "ordered xs \<Longrightarrow> ordered (set_insert t xs)"
proof (induction xs)
  case Nil
  then show ?case by simp
next
  case (Cons u us)
  have "timer_less u v" if "v \<in> set (set_insert t us)" "timer_less u t" for v
    using that Cons.prems set_set_insert_subset[of t us] by auto
  moreover have "timer_less t v" if "timer_less t u" "v \<in> set us" for v
    using that Cons.prems by (auto simp: timer_less_def)
  ultimately show ?case using Cons by auto
qed

lemma filter_set_insert:
  "\<not> P t \<Longrightarrow> filter P (set_insert t xs) = filter P xs"
  by (induction xs) auto

lemma hd_set_insert:
  "hd (set_insert t xs) =
     (if xs = [] \<or> timeout_tp t < timeout_tp (hd xs) then t else hd xs)"
  by (cases xs) (auto simp: timer_less_def)

lemma set_insert_not_Nil [simp]: "set_insert t xs \<noteq> []"
  by (cases xs) auto

lemma find_pos_None: "find_pos P xs = None \<longleftrightarrow> (\<forall>x\<in>set xs. \<not> P x)"
  by (induction xs) auto

lemma find_pos_Some: "find_pos P xs = Some i \<Longrightarrow> i < length xs \<and> P (xs ! i)"
  by (induction xs arbitrary: i) (auto split: if_splits)

lemma erase_at_Cons: "erase_at (Suc j) (x # xs) = x # erase_at j xs"
  by (simp add: erase_at_def)

lemma set_erase_at_subset: "set (erase_at i xs) \<subseteq> set xs"
  by (auto simp: erase_at_def dest: in_set_takeD in_set_dropD)

lemma ordered_erase_at: "ordered xs \<Longrightarrow> ordered (erase_at i xs)"
proof (induction xs arbitrary: i)
  case Nil
  then show ?case by (simp add: erase_at_def)
next
  case (Cons x xs)
  show ?case
  proof (cases i)
    case 0
    with Cons.prems show ?thesis by (simp add: erase_at_def)
  next
    case (Suc j)
    with Cons show ?thesis using set_erase_at_subset[of j xs] by (auto simp: erase_at_Cons)
  qed
qed

lemma erase_at_0: "erase_at 0 xs = tl xs"
  by (cases xs) (auto simp: erase_at_def)

lemma erase_at_hd: "0 < i \<Longrightarrow> i < length xs \<Longrightarrow> erase_at i xs \<noteq> [] \<and> hd (erase_at i xs) = hd xs"
  by (cases xs; cases i) (auto simp: erase_at_def)

lemma find_pos_find: "find_pos P xs = Some i \<Longrightarrow> find P xs = Some (xs ! i)"
  by (induction xs arbitrary: i) (auto split: if_splits)

lemma ordered_distinct: "ordered xs \<Longrightarrow> distinct xs"
  by (induction xs) (auto simp: timer_less_def)

lemma set_erase_at:
  "distinct xs \<Longrightarrow> i < length xs \<Longrightarrow> set (erase_at i xs) = set xs - {xs ! i}"
proof (induction xs arbitrary: i)
  case Nil
  then show ?case by simp
next
  case (Cons x xs)
  show ?case
  proof (cases i)
    case 0
    with Cons.prems show ?thesis by (auto simp: erase_at_def)
  next
    case (Suc j)
    then have "erase_at i (x # xs) = x # erase_at j xs" by (simp add: erase_at_def)
    with Suc Cons show ?thesis by (auto simp: nth_mem)
  qed
qed

section \<open>The manager's invariant\<close>

definition timers_wf :: "timers \<Rightarrow> bool" where
  "timers_wf m \<longleftrightarrow> ordered (timerList m) \<and>
     latestTime m = (if timerList m = [] then tp_max else timeout_tp (hd (timerList m))) \<and>
     armed m = armed (refresh_timer_fd m)"

lemma refresh_frame [simp, frame_simps]:
  "timerList (refresh_timer_fd m) = timerList m"
  "latestTime (refresh_timer_fd m) = latestTime m"
  "gs_next_timer_id (refresh_timer_fd m) = gs_next_timer_id m"
  by (simp_all add: refresh_timer_fd_def)

lemma armed_refresh: "latestTime m = latestTime m' \<Longrightarrow> armed (refresh_timer_fd m) = armed (refresh_timer_fd m')"
  by (simp add: refresh_timer_fd_def)

lemma refreshed_wf:
  "ordered xs \<Longrightarrow> timers_wf (refresh_timer_fd (m\<lparr>timerList := xs,
     latestTime := (if xs = [] then tp_max else timeout_tp (hd xs))\<rparr>))"
  by (simp add: timers_wf_def refresh_timer_fd_def)

lemma add_timer_wf:
  assumes w: "timers_wf m" and r: "add_timer t m = Inr m'"
  shows "timers_wf m'"
proof -
  from r have m': "m' = (if timerList m = [] \<or> timeout_tp (hd (timerList m)) > timeout_tp t
      then refresh_timer_fd (m\<lparr>timerList := set_insert t (timerList m), latestTime := timeout_tp t\<rparr>)
      else m\<lparr>timerList := set_insert t (timerList m)\<rparr>)"
    by (auto simp: add_timer_def bind_assert_eq_Inr add_to_heap_def)
  have "ordered (set_insert t (timerList m))"
    using w by (simp add: timers_wf_def ordered_set_insert)
  with w m' show ?thesis
    by (auto simp: timers_wf_def hd_set_insert refresh_timer_fd_def)
qed

lemma cancel_timer_Inr:
  assumes "cancel_timer i m = Inr m'"
  obtains j where "find_pos (\<lambda>t. timer_id t = i) (timerList m) = Some j"
    and "timerList m' = erase_at j (timerList m)"
  using assms that
  by (auto simp: cancel_timer_def remove_from_heap_def Let_def split: option.splits if_splits)

lemma cancel_timer_wf:
  assumes w: "timers_wf m" and r: "cancel_timer i m = Inr m'"
  shows "timers_wf m'"
proof -
  obtain j where j: "find_pos (\<lambda>t. timer_id t = i) (timerList m) = Some j"
    using r by (rule cancel_timer_Inr)
  then have lt: "j < length (timerList m)" by (auto dest: find_pos_Some)
  have ord: "ordered (erase_at j (timerList m))" using w by (simp add: timers_wf_def ordered_erase_at)
  show ?thesis
  proof (cases "length (timerList m) = 1 \<or> j = 0")
    case True
    with r j show ?thesis
      using refreshed_wf[OF ord, of m]
      by (auto simp: cancel_timer_def remove_from_heap_def Let_def split: if_splits)
  next
    case False
    with lt have "erase_at j (timerList m) \<noteq> []" "hd (erase_at j (timerList m)) = hd (timerList m)"
      using erase_at_hd[of j "timerList m"] by auto
    with False r j w ord lt show ?thesis
      by (auto simp: cancel_timer_def remove_from_heap_def Let_def timers_wf_def
          refresh_timer_fd_def split: if_splits)
  qed
qed

section \<open>The expiry loop\<close>

text \<open>
  The loop keeps the list ordered, whatever the clock does: every fact about a loop that
  returns is by induction on the computation.
\<close>

lemma expire_loop_ordered:
  assumes r: "expire_loop clk k xs acc = Some (Inr (e, ys, k'))" and o: "ordered xs"
  shows "ordered ys"
proof -
  have "ordered xs \<longrightarrow> (\<forall>e ys k'. q = Inr (e, ys, k') \<longrightarrow> ordered ys)"
    if "expire_loop clk k xs acc = Some q" for q
  proof (rule expire_loop.raw_induct[where P =
        "\<lambda>clk k xs acc q. ordered xs \<longrightarrow> (\<forall>e ys k'. q = Inr (e, ys, k') \<longrightarrow> ordered ys)", OF _ that])
    fix f clk k xs acc q
    assume IH: "\<And>clk k xs acc q. f clk k xs acc = Some q \<Longrightarrow>
        ordered xs \<longrightarrow> (\<forall>e ys k'. q = Inr (e, ys, k') \<longrightarrow> ordered ys)"
      and eq: "(case xs of [] \<Rightarrow> Some (Inr (rev acc, [], k))
        | t # ts \<Rightarrow> if timeout_tp t \<le> clk k then
            if is_repeated t then
              case tp_add (interval t) (clk (Suc k)) of Inl e \<Rightarrow> Some (Inl e)
              | Inr next_expiration \<Rightarrow> f clk (Suc (Suc k))
                  (set_insert (set_expiration next_expiration t) ts) (t # acc)
            else f clk (Suc k) ts (t # acc)
          else Some (Inr (rev acc, xs, Suc k))) = Some q"
    show "ordered xs \<longrightarrow> (\<forall>e ys k'. q = Inr (e, ys, k') \<longrightarrow> ordered ys)"
    proof (cases xs)
      case Nil
      with eq show ?thesis by auto
    next
      case (Cons t ts)
      with eq show ?thesis
        by (auto split: if_splits sum.splits dest!: IH simp: ordered_set_insert)
    qed
  qed
  with r o show ?thesis by blast
qed

text \<open>
  When the loop ends: no reading of the clock reaches the time at which a timer that fired
  in this call would fire again. \<open>B\<close> bounds the readings; every repeated timer is set to
  \<open>B\<close> or later when it is inserted again.
\<close>

definition fires_again_after :: "int \<Rightarrow> (nat \<Rightarrow> int) \<Rightarrow> nat \<Rightarrow> timer \<Rightarrow> bool" where
  "fires_again_after B clk k t \<longleftrightarrow>
     (is_repeated t \<longrightarrow> (\<forall>j\<ge>k. B \<le> interval t + clk j \<and>
        tp_min \<le> interval t + clk j \<and> interval t + clk j \<le> tp_max))"

lemma fires_again_after_mono:
  "fires_again_after B clk k t \<Longrightarrow> k \<le> k' \<Longrightarrow> fires_again_after B clk k' t"
  by (auto simp: fires_again_after_def)

lemma fires_again_set_expiration:
  "fires_again_after B clk k (set_expiration x t) = fires_again_after B clk k t"
  by (simp add: fires_again_after_def is_repeated_def set_expiration_def)

lemma timeout_set_expiration [simp]: "timeout_tp (set_expiration x t) = x"
  by (simp add: set_expiration_def)

lemma expire_loop_returns:
  assumes "mono clk" "\<forall>j\<ge>k. clk j < B" "ordered xs"
    and "\<forall>t\<in>set xs. timeout_tp t < B \<longrightarrow> fires_again_after B clk k t"
    and "length (filter (\<lambda>t. timeout_tp t < B) xs) = n"
  shows "\<exists>ys k' j. j \<ge> k \<and>
    expire_loop clk k xs acc =
      Some (Inr (rev acc @ filter (\<lambda>t. timeout_tp t \<le> clk j) xs, ys, k')) \<and>
    (\<forall>t\<in>set ys. clk j < timeout_tp t) \<and>
    (\<forall>t\<in>set xs. clk j < timeout_tp t \<longrightarrow> t \<in> set ys) \<and>
    (\<forall>t\<in>set xs. timeout_tp t \<le> clk j \<and> is_repeated t \<longrightarrow>
       (\<exists>i\<ge>k. \<exists>u\<in>set ys. timeout_tp u = interval t + clk i))"
  using assms
proof (induction n arbitrary: k xs acc)
  case 0
  then have late: "\<forall>t\<in>set xs. B \<le> timeout_tp t" by (auto simp: filter_empty_conv not_less)
  with "0.prems"(2) have later: "\<forall>t\<in>set xs. clk k < timeout_tp t" by force
  then have none: "filter (\<lambda>t. timeout_tp t \<le> clk k) xs = []" by (auto simp: filter_empty_conv)
  have "expire_loop clk k xs acc =
      Some (Inr (rev acc, xs, case xs of [] \<Rightarrow> k | _ \<Rightarrow> Suc k))"
    using later by (subst expire_loop.simps) (auto split: list.split)
  with later none show ?case
    by (intro exI[of _ xs] exI[of _ "case xs of [] \<Rightarrow> k | _ \<Rightarrow> Suc k"] exI[of _ k]) auto
next
  case (Suc n)
  then obtain t ts where xs: "xs = t # ts" by (cases xs) auto
  show ?case
  proof (cases "timeout_tp t \<le> clk k")
    case False
    with xs Suc.prems(3) have later: "\<forall>t\<in>set xs. clk k < timeout_tp t"
      by (auto simp: timer_less_def)
    then have none: "filter (\<lambda>t. timeout_tp t \<le> clk k) xs = []" by (auto simp: filter_empty_conv)
    have "expire_loop clk k xs acc = Some (Inr (rev acc, xs, Suc k))"
      using False xs by (subst expire_loop.simps) simp
    with later none show ?thesis
      by (intro exI[of _ xs] exI[of _ "Suc k"] exI[of _ k]) auto
  next
    case True
    with Suc.prems(2) xs have tB: "timeout_tp t < B" by force
    with xs Suc.prems(4) have again: "fires_again_after B clk k t" by auto
    obtain xs' k1 where step: "expire_loop clk k xs acc = expire_loop clk k1 xs' (t # acc)"
        and k1: "k < k1" and sub: "set ts \<subseteq> set xs'" and ord: "ordered xs'"
        and new: "\<And>P. (\<And>u. B \<le> timeout_tp u \<Longrightarrow> \<not> P u) \<Longrightarrow> filter P xs' = filter P ts"
        and re: "is_repeated t \<Longrightarrow> \<exists>i\<ge>k. \<exists>u\<in>set xs'. timeout_tp u = interval t + clk i"
        and old: "\<forall>u\<in>set xs'. timeout_tp u < B \<longrightarrow> u \<in> set ts"
    proof (cases "is_repeated t")
      case False
      show ?thesis
      proof (rule that[of "Suc k" ts])
        show "expire_loop clk k xs acc = expire_loop clk (Suc k) ts (t # acc)"
          using True False xs by (subst expire_loop.simps) simp
      qed (use False Suc.prems(3) xs in auto)
    next
      case rep: True
      define u where "u = set_expiration (interval t + clk (Suc k)) t"
      have add: "tp_add (interval t) (clk (Suc k)) = Inr (interval t + clk (Suc k))"
          and uB: "B \<le> timeout_tp u"
        using again rep by (auto simp: fires_again_after_def tp_add_def u_def)
      show ?thesis
      proof (rule that[of "Suc (Suc k)" "set_insert u ts"])
        show "expire_loop clk k xs acc = expire_loop clk (Suc (Suc k)) (set_insert u ts) (t # acc)"
          using True rep xs add by (subst expire_loop.simps) (simp add: u_def)
        show "\<exists>i\<ge>k. \<exists>v\<in>set (set_insert u ts). timeout_tp v = interval t + clk i"
          using set_insert_timeout[of u ts] by (auto simp: u_def intro!: exI[of _ "Suc k"])
        show "\<forall>v\<in>set (set_insert u ts). timeout_tp v < B \<longrightarrow> v \<in> set ts"
          using set_set_insert_subset[of u ts] uB by auto
      qed (use Suc.prems(3) xs uB set_insert_subset in \<open>auto simp: ordered_set_insert filter_set_insert\<close>)
    qed
    have n: "length (filter (\<lambda>t. timeout_tp t < B) xs') = n"
      using Suc.prems(5) xs tB by (subst new) auto
    have "\<forall>u\<in>set xs'. timeout_tp u < B \<longrightarrow> fires_again_after B clk k1 u"
      using Suc.prems(4) xs old by (auto intro!: fires_again_after_mono[OF _ less_imp_le[OF k1]])
    from Suc.IH[OF Suc.prems(1) _ ord this n, of "t # acc"] Suc.prems(2) k1
    obtain ys k' j where IH: "j \<ge> k1"
        "expire_loop clk k1 xs' (t # acc) =
           Some (Inr (rev (t # acc) @ filter (\<lambda>t. timeout_tp t \<le> clk j) xs', ys, k'))"
        "\<forall>t\<in>set ys. clk j < timeout_tp t" "\<forall>t\<in>set xs'. clk j < timeout_tp t \<longrightarrow> t \<in> set ys"
        "\<forall>t\<in>set xs'. timeout_tp t \<le> clk j \<and> is_repeated t \<longrightarrow>
           (\<exists>i\<ge>k1. \<exists>u\<in>set ys. timeout_tp u = interval t + clk i)"
      by auto
    have jB: "clk j < B" using Suc.prems(2) IH(1) k1 by auto
    have tj: "timeout_tp t \<le> clk j"
      using True monoD[OF Suc.prems(1), of k j] IH(1) k1 by simp
    have fired: "filter (\<lambda>t. timeout_tp t \<le> clk j) xs = t # filter (\<lambda>t. timeout_tp t \<le> clk j) xs'"
      using tj jB xs by (subst new) auto
    have rearmed: "\<exists>i\<ge>k. \<exists>u\<in>set ys. timeout_tp u = interval t + clk i" if rep: "is_repeated t"
    proof -
      from re[OF rep] obtain i u where i: "i \<ge> k" "u \<in> set xs'" "timeout_tp u = interval t + clk i"
        by blast
      moreover have "clk j < timeout_tp u"
        using again rep i jB by (fastforce simp: fires_again_after_def)
      ultimately show ?thesis using IH(4) by blast
    qed
    have "\<exists>i\<ge>k. \<exists>u\<in>set ys. timeout_tp u = interval v + clk i"
      if "v \<in> set ts" "timeout_tp v \<le> clk j" "is_repeated v" for v
      using IH(5) sub that k1 by (meson less_imp_le_nat order_trans subsetD)
    with rearmed IH(1-4) step fired sub xs k1 tj show ?thesis
      by (intro exI[of _ ys] exI[of _ k'] exI[of _ j]) auto
  qed
qed

lemma get_all_expired_Inr:
  assumes "get_all_expired_timers clk k m = Inr (e, m', k')"
  obtains xs where "expire_loop clk k (timerList m) [] = Some (Inr (e, xs, k'))"
    and "m' = refresh_timer_fd (m\<lparr>timerList := xs,
      latestTime := (if xs = [] then tp_max else timeout_tp (hd xs))\<rparr>)"
  using assms that
  by (auto simp: get_all_expired_timers_def res_bind_eq_Inr bind_assert_eq_Inr split: if_splits)

lemma get_all_expired_wf:
  assumes w: "timers_wf m" and r: "get_all_expired_timers clk k m = Inr (e, m', k')"
  shows "timers_wf m'"
proof -
  from r obtain xs where xs: "expire_loop clk k (timerList m) [] = Some (Inr (e, xs, k'))"
      "m' = refresh_timer_fd (m\<lparr>timerList := xs,
        latestTime := (if xs = [] then tp_max else timeout_tp (hd xs))\<rparr>)"
    by (rule get_all_expired_Inr)
  have "ordered xs" using expire_loop_ordered[OF xs(1)] w by (simp add: timers_wf_def)
  then show ?thesis unfolding xs(2) by (rule refreshed_wf)
qed

section \<open>Runs of timer operations\<close>

text \<open>The calls on a timer manager; \<open>T_expire\<close> carries the clock readings of its run.\<close>

datatype timer_op =
    T_add timer
  | T_add_condition timer nat
  | T_cancel u32
  | T_next_id
  | T_expire "nat \<Rightarrow> int"

fun timer_exec :: "timer_op \<Rightarrow> timers \<Rightarrow> timers res" where
  "timer_exec (T_add t) m = add_timer t m"
| "timer_exec (T_add_condition t c) m = add_condition_timer t c m"
| "timer_exec (T_cancel i) m = cancel_timer i m"
| "timer_exec T_next_id m = Inr (snd (get_next_timer_id m))"
| "timer_exec (T_expire clk) m =
     res_bind (get_all_expired_timers clk 0 m) (\<lambda>(_, m', _). Inr m')"

lemma timer_exec_wf: "timers_wf m \<Longrightarrow> timer_exec x m = Inr m' \<Longrightarrow> timers_wf m'"
proof (cases x)
  case T_next_id
  then show "timers_wf m \<Longrightarrow> timer_exec x m = Inr m' \<Longrightarrow> timers_wf m'"
    by (auto simp: get_next_timer_id_def timers_wf_def refresh_timer_fd_def)
qed (auto simp: add_condition_timer_def res_bind_eq_Inr
      intro: add_timer_wf cancel_timer_wf get_all_expired_wf)

interpretation timer_calls: guarded_system timer_exec timers_wf
  by unfold_locales (rule timer_exec_wf)

lemma init_timers_wf: "timers_wf init_timers"
  by (simp add: timers_wf_def init_timers_def refresh_timer_fd_def)

lemma refresh_split:
  assumes "latestTime m \<noteq> tp_max" "0 \<le> latestTime m"
  shows "fst (armed (refresh_timer_fd m)) * 1000000000 + snd (armed (refresh_timer_fd m)) = latestTime m
    \<and> 0 \<le> snd (armed (refresh_timer_fd m)) \<and> snd (armed (refresh_timer_fd m)) < 1000000000"
  using assms by (auto simp: refresh_timer_fd_def cxx_div_def minus_div_mult_eq_mod)

section \<open>Properties\<close>


definition one_shot :: "u32 \<Rightarrow> int \<Rightarrow> timer" where
  "one_shot i tp = \<lparr>timer_id = i, timeout_tp = tp, interval = 0, timer_cb = Some Return\<rparr>"

definition every :: "u32 \<Rightarrow> int \<Rightarrow> int \<Rightarrow> timer" where
  "every i tp d = \<lparr>timer_id = i, timeout_tp = tp, interval = d, timer_cb = Some Return\<rparr>"

lemmas timer_demo_defs = one_shot_def every_def timer_less_def add_timer_def add_to_heap_def
  refresh_timer_fd_def cancel_timer_def remove_from_heap_def erase_at_def is_repeated_def
  set_expiration_def tp_add_def tp_max_def tp_min_def cxx_div_def init_timers_def


text \<open>
  Adding a timer stores it next to the others, unless a timer with the same expiration
  time is already stored: then the new timer is dropped without notice, and if its id is new
  \<^verbatim>\<open>HasTimer\<close> denies it afterwards.
\<close>

theorem add_timer_stores_or_drops:
  assumes "timers_wf m" "add_timer t m = Inr m'"
  shows "(if \<exists>u\<in>set (timerList m). timeout_tp u = timeout_tp t
          then set (timerList m') = set (timerList m) \<and>
               (has_timer (timer_id t) m' \<longrightarrow> has_timer (timer_id t) m)
          else set (timerList m') = insert t (set (timerList m)) \<and> has_timer (timer_id t) m')"
proof -
  from assms(2) have "timerList m' = set_insert t (timerList m)"
    by (auto simp: add_timer_def bind_assert_eq_Inr add_to_heap_def)
  with assms(1) show ?thesis
    by (auto simp: set_set_insert timers_wf_def has_timer_def find_pos_None)
qed

theorem add_timer_stores_or_drops_witness:
  "\<exists>m m'. add_timer (one_shot 1 50) init_timers = Inr m \<and> add_timer (one_shot 2 50) m = Inr m' \<and>
     set (timerList m') = set (timerList m) \<and> \<not> has_timer 2 m'"
proof -
  obtain m where m: "add_timer (one_shot 1 50) init_timers = Inr m"
      "timerList m = [one_shot 1 50]"
    by (simp add: timer_demo_defs)
  obtain m' where m': "add_timer (one_shot 2 50) m = Inr m'"
    by (cases "add_to_heap (one_shot 2 50) m") (simp add: add_timer_def one_shot_def tp_max_def)
  have "timers_wf m" by (rule add_timer_wf[OF init_timers_wf m(1)])
  from add_timer_stores_or_drops[OF this m'] m m' show ?thesis
    by (auto simp: one_shot_def has_timer_def)
qed

text \<open>
  \<^verbatim>\<open>CancelTimer\<close> removes the first timer with the id and no other timer. For an id that
  is not stored it is undefined behaviour (\<^verbatim>\<open>erase(end())\<close>), where the comment in the code
  promises that nothing happens.
\<close>

theorem cancel_timer_spec:
  assumes "timers_wf m"
  shows "cancel_timer i m = Inl Undefined_behaviour \<and> \<not> has_timer i m \<or>
    (\<exists>m' t. cancel_timer i m = Inr m' \<and> find (\<lambda>t. timer_id t = i) (timerList m) = Some t \<and>
       set (timerList m') = set (timerList m) - {t})"
proof (cases "find_pos (\<lambda>t. timer_id t = i) (timerList m)")
  case None
  then show ?thesis by (simp add: has_timer_def cancel_timer_def remove_from_heap_def)
next
  case (Some j)
  note t = find_pos_find[OF Some]
  have "cancel_timer i m \<noteq> Inl e" for e
    by (simp add: cancel_timer_def remove_from_heap_def Some Let_def)
  then obtain m' where m': "cancel_timer i m = Inr m'" by (cases "cancel_timer i m") auto
  with Some have "timerList m' = erase_at j (timerList m)" by (auto elim: cancel_timer_Inr)
  moreover have "distinct (timerList m)" using assms by (simp add: timers_wf_def ordered_distinct)
  ultimately have "set (timerList m') = set (timerList m) - {timerList m ! j}"
    using set_erase_at[of "timerList m" j] find_pos_Some[OF Some] by simp
  with m' t show ?thesis by blast
qed

theorem cancel_timer_spec_witness:
  "cancel_timer 1 init_timers = Inl Undefined_behaviour"
  using cancel_timer_spec[OF init_timers_wf, of 1] by (simp add: init_timers_def)

text \<open>
  C17: Collecting expired timers returns, and takes exactly the timers that are due at one of
  the clock readings of the call, in order of expiration; the timers that are not due stay,
  every repeated timer taken leaves a timer pending at its interval after a reading, and the
  manager's invariant holds again. It needs a monotone clock, a timer that is due at the
  first reading, and that no timer comes due twice within the call (\<open>B\<close> bounds the readings).
\<close>

theorem expired_timers_collected:
  assumes "timers_wf m" "mono clk" "\<forall>j\<ge>k. clk j < B"
    and "\<forall>t\<in>set (timerList m). timeout_tp t < B \<longrightarrow> fires_again_after B clk k t"
    and "timerList m \<noteq> []" "latestTime m \<le> clk k"
  shows "\<exists>m' k' now. get_all_expired_timers clk k m =
      Inr (filter (\<lambda>t. timeout_tp t \<le> now) (timerList m), m', k') \<and>
    now \<in> clk ` {k..} \<and> timers_wf m' \<and>
    (\<forall>t\<in>set (timerList m). now < timeout_tp t \<longrightarrow> t \<in> set (timerList m')) \<and>
    (\<forall>t\<in>set (timerList m'). now < timeout_tp t) \<and>
    (\<forall>t\<in>set (timerList m). timeout_tp t \<le> now \<and> is_repeated t \<longrightarrow>
       (\<exists>i\<ge>k. \<exists>u\<in>set (timerList m'). timeout_tp u = interval t + clk i))"
proof -
  have ord: "ordered (timerList m)" using assms(1) by (simp add: timers_wf_def)
  from expire_loop_returns[OF assms(2,3) ord assms(4) refl, of "[]"]
  obtain ys k' j where j: "j \<ge> k"
    and loop: "expire_loop clk k (timerList m) [] =
      Some (Inr (filter (\<lambda>t. timeout_tp t \<le> clk j) (timerList m), ys, k'))"
    and ys: "\<forall>t\<in>set ys. clk j < timeout_tp t"
      "\<forall>t\<in>set (timerList m). clk j < timeout_tp t \<longrightarrow> t \<in> set ys"
      "\<forall>t\<in>set (timerList m). timeout_tp t \<le> clk j \<and> is_repeated t \<longrightarrow>
         (\<exists>i\<ge>k. \<exists>u\<in>set ys. timeout_tp u = interval t + clk i)"
    by auto
  have "latestTime m \<le> clk j" using assms(6) monoD[OF assms(2) j] by simp
  with ys(1) have later: "ys \<noteq> [] \<Longrightarrow> latestTime m < timeout_tp (hd ys)"
    by (meson hd_in_set le_less_trans)
  define m' where "m' = refresh_timer_fd (m\<lparr>timerList := ys,
      latestTime := (if ys = [] then tp_max else timeout_tp (hd ys))\<rparr>)"
  have ret: "get_all_expired_timers clk k m =
      Inr (filter (\<lambda>t. timeout_tp t \<le> clk j) (timerList m), m', k')"
    using later by (simp add: get_all_expired_timers_def loop m'_def)
  have "timers_wf m'" by (rule get_all_expired_wf[OF assms(1) ret])
  with ret ys j show ?thesis
    by (intro exI[of _ m'] exI[of _ k'] exI[of _ "clk j"]) (auto simp: m'_def)
qed

definition two_timers :: timers where
  "two_timers = refresh_timer_fd \<lparr>timerList = [every 1 10 100, one_shot 2 20, one_shot 3 90],
     latestTime = 10, armed = (0, 0), gs_next_timer_id = 4\<rparr>"

lemma two_timers_wf: "timers_wf two_timers"
  by (simp add: two_timers_def timers_wf_def timer_demo_defs)

theorem expired_timers_collected_witness:
  "\<exists>m' k'. get_all_expired_timers (\<lambda>_. 30) 0 two_timers =
      Inr ([every 1 10 100, one_shot 2 20], m', k') \<and> one_shot 3 90 \<in> set (timerList m') \<and>
      (\<exists>u\<in>set (timerList m'). timeout_tp u = 130)"
proof -
  have h: "\<forall>t\<in>set (timerList two_timers). timeout_tp t < 31 \<longrightarrow>
      fires_again_after 31 (\<lambda>_. 30) 0 t"
    by (simp add: two_timers_def fires_again_after_def timer_demo_defs)
  have ts: "timerList two_timers = [every 1 10 100, one_shot 2 20, one_shot 3 90]"
    by (simp add: two_timers_def)
  from expired_timers_collected[OF two_timers_wf _ _ h]
  obtain m' k' where
    "get_all_expired_timers (\<lambda>_. 30) 0 two_timers =
       Inr (filter (\<lambda>t. timeout_tp t \<le> 30) (timerList two_timers), m', k')"
    "\<forall>t\<in>set (timerList two_timers). 30 < timeout_tp t \<longrightarrow> t \<in> set (timerList m')"
    "\<forall>t\<in>set (timerList two_timers). timeout_tp t \<le> 30 \<and> is_repeated t \<longrightarrow>
       (\<exists>u\<in>set (timerList m'). timeout_tp u = interval t + 30)"
    by (auto simp: mono_def ts two_timers_def)
  then show ?thesis
    by (intro exI[of _ m'] exI[of _ k']) (simp add: ts, simp add: timer_demo_defs)
qed

text \<open>
  If the kernel timer fires but no timer is due any more (another thread has cancelled
  the earliest one since, which also moves \<^verbatim>\<open>latestTime_\<close>), collecting the expired timers
  fails its assertion and aborts the process.
\<close>

theorem spurious_expiry_aborts:
  assumes "timers_wf m" "timerList m \<noteq> []" "clk k < latestTime m"
  shows "get_all_expired_timers clk k m = Inl Assert_failed"
proof -
  obtain t ts where xs: "timerList m = t # ts" using assms(2) by (cases "timerList m") auto
  with assms(1,3) have late: "clk k < timeout_tp t" by (simp add: timers_wf_def)
  then have "expire_loop clk k (timerList m) [] = Some (Inr ([], timerList m, Suc k))"
    by (subst expire_loop.simps) (simp add: xs)
  with xs assms(1) show ?thesis by (simp add: get_all_expired_timers_def timers_wf_def)
qed

theorem spurious_expiry_aborts_witness:
  "\<exists>m. run_ops timer_exec [T_add (one_shot 1 20), T_add (one_shot 2 50), T_cancel 1] init_timers
      = Inr m \<and> get_all_expired_timers (\<lambda>_. 30) 0 m = Inl Assert_failed"
proof -
  obtain m where m: "run_ops timer_exec [T_add (one_shot 1 20), T_add (one_shot 2 50), T_cancel 1]
      init_timers = Inr m" "latestTime m = 50" "timerList m = [one_shot 2 50]"
    by (simp add: timer_demo_defs)
  have "timers_wf m" by (rule timer_calls.run_ops_inv[OF init_timers_wf m(1)])
  from spurious_expiry_aborts[OF this, of "\<lambda>_. 30" 0] m show ?thesis by auto
qed

text \<open>
  The kernel timer is armed with the earliest expiration time, split into seconds and
  nanoseconds below one second without loss, whenever a timer is pending.
\<close>

theorem armed_with_earliest:
  assumes "timers_wf m" "timerList m = t # ts" "timeout_tp t \<noteq> tp_max" "0 \<le> timeout_tp t"
  shows "fst (armed m) * 1000000000 + snd (armed m) = timeout_tp t \<and>
    0 \<le> snd (armed m) \<and> snd (armed m) < 1000000000"
  using assms refresh_split[of m] by (simp add: timers_wf_def)

theorem armed_with_earliest_witness: "armed two_timers = (0, 10)"
  using armed_with_earliest[OF two_timers_wf, of "every 1 10 100" "[one_shot 2 20, one_shot 3 90]"]
  by (simp add: two_timers_def timer_demo_defs)

fun take_ids :: "nat \<Rightarrow> timers \<Rightarrow> u32 list \<times> timers" where
  "take_ids 0 m = ([], m)"
| "take_ids (Suc n) m =
     (let (i, m1) = get_next_timer_id m; (is, m2) = take_ids n m1 in (i # is, m2))"

lemma take_ids_eq:
  "fst (take_ids n m) = map (\<lambda>j. gs_next_timer_id m + of_nat j) [0..<n] \<and>
   gs_next_timer_id (snd (take_ids n m)) = gs_next_timer_id m + of_nat n"
proof (induction n arbitrary: m)
  case 0
  then show ?case by simp
next
  case (Suc n)
  have "[0..<Suc n] = 0 # map Suc [0..<n]" by (simp add: map_Suc_upt upt_conv_Cons del: upt_Suc)
  with Suc[of "snd (get_next_timer_id m)"] show ?case
    by (simp add: get_next_timer_id_def case_prod_beta Let_def add.assoc comp_def del: upt_Suc)
qed

lemma of_nat_u32_inj:
  "a < 2 ^ 32 \<Longrightarrow> b < 2 ^ 32 \<Longrightarrow> (of_nat a :: u32) = of_nat b \<longleftrightarrow> a = b"
  by (rule of_nat_word_inj) simp_all

text \<open>
  The first \<open>2 ^ 32 - 1\<close> timer ids a process hands out are pairwise different and none
  is \<^verbatim>\<open>kInvalidTimerId\<close>; the next one is \<^verbatim>\<open>kInvalidTimerId\<close>.
\<close>

theorem timer_ids_fresh:
  assumes "n < 2 ^ 32"
  shows "distinct (fst (take_ids n init_timers)) \<and> 0 \<notin> set (fst (take_ids n init_timers)) \<and>
    fst (take_ids (2 ^ 32) init_timers) ! (2 ^ 32 - 1) = 0"
proof -
  have eq: "fst (take_ids n init_timers) = map (\<lambda>j. of_nat (Suc j)) [0..<n]" for n
    using take_ids_eq[of n init_timers] by (simp add: init_timers_def)
  have "distinct (fst (take_ids n init_timers))"
    unfolding eq distinct_map using assms of_nat_u32_inj
    by (auto intro!: inj_onI simp del: of_nat_Suc)
  moreover have "(of_nat (Suc j) :: u32) \<noteq> of_nat 0" if "j < n" for j
    using that assms of_nat_u32_inj[of "Suc j" 0] by (simp del: of_nat_Suc)
  then have "0 \<notin> set (fst (take_ids n init_timers))"
    unfolding eq by (auto simp del: of_nat_Suc)
  moreover have "fst (take_ids (2 ^ 32) init_timers) ! (2 ^ 32 - 1) = of_nat (2 ^ 32)"
  proof -
    have "(2 ^ 32 - 1 :: nat) < 2 ^ 32" by simp
    then show ?thesis unfolding eq by (simp only: nth_map_upt add_0 diff_zero) simp
  qed
  ultimately show ?thesis by simp
qed

theorem timer_ids_fresh_witness: "distinct (fst (take_ids 4294967295 init_timers))"
  using timer_ids_fresh[of 4294967295] by simp

end
