(* ===== verification/Epoll_Poller.thy ===== *)
theory Epoll_Poller
  imports Timer_Manager
begin

unbundle bit_operations_syntax

text \<open>
  The poller of \<^verbatim>\<open>concurrency/epoll_poller.h\<close> and \<^verbatim>\<open>concurrency/epoll_poller.cpp\<close>: the events
  registered per file descriptor, their registration with the kernel, and the handling of
  ready events. What \<^verbatim>\<open>epoll_ctl\<close> returns is only logged, so the calls are recorded in order;
  what \<^verbatim>\<open>epoll_wait\<close> returns is a parameter. A moved-from \<^verbatim>\<open>std::function\<close> is empty, as it is
  in libstdc++. The \<^verbatim>\<open>data\<close> union of a ready event is taken to be read back as it was stored:
  the low half of an \<^verbatim>\<open>Event\<close> pointer is not the number of the eventfd or the timerfd.
\<close>

section \<open>Constants of epoll\<close>

definition EPOLLIN :: u32 where "EPOLLIN = 0x001"
definition EPOLLPRI :: u32 where "EPOLLPRI = 0x002"
definition EPOLLOUT :: u32 where "EPOLLOUT = 0x004"
definition EPOLLERR :: u32 where "EPOLLERR = 0x008"
definition EPOLLHUP :: u32 where "EPOLLHUP = 0x010"
definition EPOLLRDHUP :: u32 where "EPOLLRDHUP = 0x2000"
definition EPOLLET :: u32 where "EPOLLET = 0x80000000"

lemmas epoll_bits = EPOLLIN_def EPOLLPRI_def EPOLLOUT_def EPOLLERR_def EPOLLHUP_def
  EPOLLRDHUP_def EPOLLET_def

datatype ctl_op = EPOLL_CTL_ADD | EPOLL_CTL_MOD | EPOLL_CTL_DEL

section \<open>Events and the poller's state\<close>

datatype state_index = kNew | kDeleted | kAdded

record event =
  ev_fd :: int
  interest_event :: u32
  ev_state :: state_index
  read_func :: "body option"
  read_co :: "co_addr option"
  write_func :: "body option"
  write_co :: "co_addr option"

definition new_event :: "int \<Rightarrow> event" where
  "new_event fd = \<lparr>ev_fd = fd, interest_event = 0, ev_state = kNew, read_func = None,
     read_co = None, write_func = None, write_co = None\<rparr>"

record poller =
  eventSet :: "int \<Rightarrow> event option"
  ctl_calls :: "(ctl_op \<times> int \<times> u32) list"

definition put_event :: "int \<Rightarrow> event \<Rightarrow> poller \<Rightarrow> poller" where
  "put_event fd e p = p\<lparr>eventSet := (eventSet p)(fd \<mapsto> e)\<rparr>"

interpretation events: store eventSet put_event
  by unfold_locales (simp add: put_event_def)

text \<open>\<^verbatim>\<open>GetOrCreateEventObj\<close>.\<close>

definition get_or_create_event :: "int \<Rightarrow> poller \<Rightarrow> event \<times> poller" where
  "get_or_create_event fd p =
     (case eventSet p fd of
        Some e \<Rightarrow> (e, p)
      | None \<Rightarrow> (new_event fd, put_event fd (new_event fd) p))"

text \<open>\<^verbatim>\<open>Update\<close>: one \<^verbatim>\<open>epoll_ctl\<close>.\<close>

definition ctl_update :: "ctl_op \<Rightarrow> event \<Rightarrow> poller \<Rightarrow> poller" where
  "ctl_update op e p = p\<lparr>ctl_calls := ctl_calls p @ [(op, ev_fd e, interest_event e)]\<rparr>"

section \<open>Registering and cancelling\<close>

text \<open>A null \<open>func\<close> registers the running coroutine instead.\<close>

definition update_event ::
  "cworld \<Rightarrow> int \<Rightarrow> u32 \<Rightarrow> body option \<Rightarrow> poller \<Rightarrow> poller res" where
  "update_event w fd interest_events func p =
     res_bind (sylar_assert (interest_events \<noteq> 0)) (\<lambda>_.
     let (e, p1) = get_or_create_event fd p;
         e1 = e\<lparr>interest_event := EPOLLET OR interest_events\<rparr>;
         op = (if ev_state e1 = kAdded then EPOLL_CTL_MOD else EPOLL_CTL_ADD);
         p2 = ctl_update op e1 p1;
         e2 = e1\<lparr>ev_state := kAdded\<rparr>
     in res_bind
          (if interest_events AND EPOLLIN \<noteq> 0 then
             (case func of
                Some f \<Rightarrow> Inr (e2\<lparr>read_func := Some f\<rparr>)
              | None \<Rightarrow> res_bind (get_current w) (\<lambda>c. Inr (e2\<lparr>read_co := Some c\<rparr>)))
           else Inr e2) (\<lambda>e3.
        res_bind
          (if interest_events AND EPOLLOUT \<noteq> 0 then
             (case func of
                Some f \<Rightarrow> Inr (e3\<lparr>write_func := Some f\<rparr>)
              | None \<Rightarrow> res_bind (get_current w) (\<lambda>c. Inr (e3\<lparr>write_co := Some c\<rparr>)))
           else Inr e3) (\<lambda>e4.
        Inr (put_event fd e4 p2))))"

text \<open>
  The private \<^verbatim>\<open>CancelEvent(Event*, unsigned)\<close>. Cancelling \<^verbatim>\<open>EPOLLOUT\<close> clears the read
  context a second time and leaves the write context, as the code does.
\<close>

definition cancel_event_obj :: "event \<Rightarrow> u32 \<Rightarrow> poller \<Rightarrow> poller res" where
  "cancel_event_obj e target_events p =
     res_bind (sylar_assert (ev_state e = kAdded)) (\<lambda>_.
     let e1 = e\<lparr>interest_event := interest_event e AND NOT target_events\<rparr>;
         op = (if interest_event e1 AND NOT EPOLLET \<noteq> 0 then EPOLL_CTL_MOD else EPOLL_CTL_DEL);
         p1 = ctl_update op e1 p;
         e2 = (if op = EPOLL_CTL_DEL then e1\<lparr>ev_state := kDeleted\<rparr> else e1);
         e3 = (if target_events AND EPOLLIN \<noteq> 0 then e2\<lparr>read_func := None, read_co := None\<rparr>
               else e2);
         e4 = (if target_events AND EPOLLOUT \<noteq> 0 then e3\<lparr>read_func := None, read_co := None\<rparr>
               else e3)
     in Inr (put_event (ev_fd e) e4 p1))"

definition cancel_event :: "int \<Rightarrow> u32 \<Rightarrow> poller \<Rightarrow> poller res" where
  "cancel_event fd target_events p =
     (let (e, p1) = get_or_create_event fd p
      in if interest_event e AND target_events = 0 then Inr p1
         else cancel_event_obj e target_events p1)"

text \<open>
  \<^verbatim>\<open>AppendEvent\<close>. It does not set the event's state, and for \<^verbatim>\<open>EPOLLOUT\<close> without a callback it
  stores the running coroutine in the read context, as the code does.
\<close>

definition append_event ::
  "cworld \<Rightarrow> int \<Rightarrow> u32 \<Rightarrow> body option \<Rightarrow> poller \<Rightarrow> poller res" where
  "append_event w fd interest_events func p =
     (let (e, p1) = get_or_create_event fd p;
          e1 = e\<lparr>interest_event := interest_event e OR (EPOLLET OR interest_events)\<rparr>;
          op = (if ev_state e1 = kAdded then EPOLL_CTL_MOD else EPOLL_CTL_ADD);
          p2 = ctl_update op e1 p1
      in res_bind
           (if interest_events AND EPOLLIN \<noteq> 0 then
              (case func of
                 Some f \<Rightarrow> Inr (e1\<lparr>read_func := Some f\<rparr>)
               | None \<Rightarrow> res_bind (get_current w) (\<lambda>c. Inr (e1\<lparr>read_co := Some c\<rparr>)))
            else Inr e1) (\<lambda>e2.
         res_bind
           (if interest_events AND EPOLLOUT \<noteq> 0 then
              (case func of
                 Some f \<Rightarrow> Inr (e2\<lparr>write_func := Some f\<rparr>)
               | None \<Rightarrow> res_bind (get_current w) (\<lambda>c. Inr (e2\<lparr>read_co := Some c\<rparr>)))
            else Inr e2) (\<lambda>e3.
         Inr (put_event fd e3 p2))))"

section \<open>Ready events\<close>

datatype event_enum = kRead | kWrite

text \<open>\<^verbatim>\<open>EnqueueAndRemove\<close>: the coroutine or callback moves from the event to the task list.\<close>

fun enqueue_and_remove :: "event_enum \<Rightarrow> event \<Rightarrow> sched \<Rightarrow> (event \<times> sched) res" where
  "enqueue_and_remove kRead e s =
     res_bind (sylar_assert (read_func e \<noteq> None \<or> read_co e \<noteq> None)) (\<lambda>_.
     Inr (case read_co e of
            Some a \<Rightarrow> (e\<lparr>read_co := None\<rparr>, co (wrap_coroutine a 0) s)
          | None \<Rightarrow> (e\<lparr>read_func := None\<rparr>, co (wrap_callback (read_func e) 0) s)))"
| "enqueue_and_remove kWrite e s =
     res_bind (sylar_assert (write_func e \<noteq> None \<or> write_co e \<noteq> None)) (\<lambda>_.
     Inr (case write_co e of
            Some a \<Rightarrow> (e\<lparr>write_co := None\<rparr>, co (wrap_coroutine a 0) s)
          | None \<Rightarrow> (e\<lparr>write_func := None\<rparr>, co (wrap_callback (write_func e) 0) s)))"

definition handle_epoll_events :: "event \<Rightarrow> u32 \<Rightarrow> sched \<Rightarrow> (event \<times> sched) res" where
  "handle_epoll_events e ready_event s =
     (let r = (if ready_event AND EPOLLERR \<noteq> 0 then ready_event OR (EPOLLIN OR EPOLLOUT)
               else ready_event)
      in res_bind
           (if r AND (EPOLLIN OR EPOLLRDHUP OR EPOLLPRI) \<noteq> 0
            then enqueue_and_remove kRead e s else Inr (e, s)) (\<lambda>(e1, s1).
         if r AND EPOLLOUT \<noteq> 0 then enqueue_and_remove kWrite e1 s1 else Inr (e1, s1)))"

datatype ready_data = From_notifier | From_timerfd | From_event int

record poll_state =
  poll :: poller
  tmr :: timers
  sch :: sched
  readings :: nat

text \<open>
  One element of the array in \<^verbatim>\<open>HandleReadyEvents\<close>. \<^verbatim>\<open>Notifier::HandleEventFd\<close> reads the
  eventfd, which changes only kernel state. The debug check that the event is registered is
  the lookup.
\<close>

definition handle_ready_event ::
  "(nat \<Rightarrow> int) \<Rightarrow> ready_data \<times> u32 \<Rightarrow> poll_state \<Rightarrow> poll_state res" where
  "handle_ready_event clk r st =
     (case fst r of
        From_notifier \<Rightarrow> Inr st
      | From_timerfd \<Rightarrow>
          res_bind (handle_expired_timers clk (readings st) (tmr st) (sch st)) (\<lambda>(m, s, k).
          Inr (st\<lparr>tmr := m, sch := s, readings := k\<rparr>))
      | From_event fd \<Rightarrow>
          (case eventSet (poll st) fd of
             None \<Rightarrow> Inl Assert_failed
           | Some e \<Rightarrow>
               if interest_event e AND snd r = 0 then Inr st
               else res_bind (handle_epoll_events e (snd r) (sch st)) (\<lambda>(e1, s1).
                    res_bind (cancel_event_obj e1 (snd r) (poll st)) (\<lambda>p1.
                    Inr (st\<lparr>poll := p1, sch := s1\<rparr>)))))"

definition handle_ready_events ::
  "(nat \<Rightarrow> int) \<Rightarrow> (ready_data \<times> u32) list \<Rightarrow> poll_state \<Rightarrow> poll_state res" where
  "handle_ready_events clk rs st = run_ops (handle_ready_event clk) rs st"

text \<open>
  \<^verbatim>\<open>PollAndHandle\<close>: \<open>waits\<close> are the results of the successive \<^verbatim>\<open>epoll_wait\<close> calls. An error
  (\<^verbatim>\<open>EINTR\<close> or any other) and a timeout only lead to the next call.
\<close>

datatype wait_result = Wait_error | Wait_timeout | Wait_ready "(ready_data \<times> u32) list"

fun poll_and_handle ::
  "bool \<Rightarrow> (nat \<Rightarrow> int) \<Rightarrow> wait_result list \<Rightarrow> poll_state \<Rightarrow> (wait_result list \<times> poll_state) res"
where
  "poll_and_handle in_scope clk waits st =
     res_bind (sylar_assert in_scope) (\<lambda>_.
     case waits of
       [] \<Rightarrow> Inl Diverges
     | Wait_error # ws \<Rightarrow> poll_and_handle in_scope clk ws st
     | Wait_timeout # ws \<Rightarrow> poll_and_handle in_scope clk ws st
     | Wait_ready rs # ws \<Rightarrow>
         res_bind (handle_ready_events clk rs st) (\<lambda>st'. Inr (ws, st')))"

declare poll_and_handle.simps [simp del]

section \<open>Events and timers of the scheduler\<close>

text \<open>The calls of \<^verbatim>\<open>Scheduler\<close> that go to its poller or to the poller's timers.\<close>

definition scheduler_append_event :: "cworld \<Rightarrow> int \<Rightarrow> u32 \<Rightarrow> body option \<Rightarrow> poll_state \<Rightarrow> poll_state res" where
  "scheduler_append_event w fd interest_events func st =
     res_bind (append_event w fd interest_events func (poll st)) (\<lambda>p. Inr (st\<lparr>poll := p\<rparr>))"

definition scheduler_update_event :: "cworld \<Rightarrow> int \<Rightarrow> u32 \<Rightarrow> body option \<Rightarrow> poll_state \<Rightarrow> poll_state res" where
  "scheduler_update_event w fd interest_events func st =
     res_bind (update_event w fd interest_events func (poll st)) (\<lambda>p. Inr (st\<lparr>poll := p\<rparr>))"

definition scheduler_cancel_event :: "int \<Rightarrow> u32 \<Rightarrow> poll_state \<Rightarrow> poll_state res" where
  "scheduler_cancel_event fd target_events st =
     res_bind (cancel_event fd target_events (poll st)) (\<lambda>p. Inr (st\<lparr>poll := p\<rparr>))"

definition scheduler_has_timer :: "u32 \<Rightarrow> poll_state \<Rightarrow> bool" where
  "scheduler_has_timer i st = has_timer i (tmr st)"

definition scheduler_cancel_timer :: "u32 \<Rightarrow> poll_state \<Rightarrow> poll_state res" where
  "scheduler_cancel_timer i st = res_bind (cancel_timer i (tmr st)) (\<lambda>m. Inr (st\<lparr>tmr := m\<rparr>))"

section \<open>Delivery of a ready event\<close>

definition read_item :: "event \<Rightarrow> invocable" where
  "read_item e = (case read_co e of Some a \<Rightarrow> wrap_coroutine a 0
     | None \<Rightarrow> wrap_callback (read_func e) 0)"

definition write_item :: "event \<Rightarrow> invocable" where
  "write_item e = (case write_co e of Some a \<Rightarrow> wrap_coroutine a 0
     | None \<Rightarrow> wrap_callback (write_func e) 0)"

definition readable :: "u32 \<Rightarrow> bool" where
  "readable r \<longleftrightarrow> r AND (EPOLLIN OR EPOLLRDHUP OR EPOLLPRI) \<noteq> 0"

definition writable :: "u32 \<Rightarrow> bool" where
  "writable r \<longleftrightarrow> r AND EPOLLOUT \<noteq> 0"

definition items_for :: "event \<Rightarrow> u32 \<Rightarrow> invocable list" where
  "items_for e r = (if readable r then [read_item e] else []) @
     (if writable r then [write_item e] else [])"

definition has_contexts :: "event \<Rightarrow> u32 \<Rightarrow> bool" where
  "has_contexts e r \<longleftrightarrow>
     (readable r \<longrightarrow> read_func e \<noteq> None \<or> read_co e \<noteq> None) \<and>
     (writable r \<longrightarrow> write_func e \<noteq> None \<or> write_co e \<noteq> None)"

lemma word_clear_again: "(x AND NOT r) AND r = (0 :: u32)"
  by (simp add: and.assoc)

lemma word_interest_left:
  assumes "x AND t \<noteq> (0 :: u32)" "t AND m = 0"
  shows "x AND NOT m \<noteq> 0"
proof
  assume none: "x AND NOT m = 0"
  have "x AND t = 0"
  proof (rule bit_word_eqI)
    fix n assume "n < LENGTH(32)"
    moreover have "\<not> bit (x AND NOT m) n" "\<not> bit (t AND m) n"
      by (simp_all only: none assms(2) bit_0_eq bot_apply) simp_all
    ultimately show "bit (x AND t) n = bit (0 :: u32) n"
      by (auto simp: bit_and_iff bit_not_iff)
  qed
  with assms(1) show False by simp
qed

lemma enqueue_read:
  "read_func e \<noteq> None \<or> read_co e \<noteq> None \<Longrightarrow>
   \<exists>e'. enqueue_and_remove kRead e s = Inr (e', co (read_item e) s) \<and>
     ev_fd e' = ev_fd e \<and> interest_event e' = interest_event e \<and> ev_state e' = ev_state e \<and>
     write_func e' = write_func e \<and> write_co e' = write_co e"
  by (cases "read_co e") (auto simp: read_item_def)

lemma enqueue_write:
  "write_func e \<noteq> None \<or> write_co e \<noteq> None \<Longrightarrow>
   \<exists>e'. enqueue_and_remove kWrite e s = Inr (e', co (write_item e) s) \<and>
     ev_fd e' = ev_fd e \<and> interest_event e' = interest_event e \<and> ev_state e' = ev_state e"
  by (cases "write_co e") (auto simp: write_item_def)

lemma write_item_cong:
  "write_func e = write_func e' \<Longrightarrow> write_co e = write_co e' \<Longrightarrow> write_item e = write_item e'"
  by (simp add: write_item_def split: option.split)

lemma handle_epoll_events_spec:
  assumes "r AND EPOLLERR = 0" "has_contexts e r"
  shows "\<exists>e'. handle_epoll_events e r s = Inr (e', fold co (items_for e r) s) \<and>
    ev_fd e' = ev_fd e \<and> interest_event e' = interest_event e \<and> ev_state e' = ev_state e"
proof -
  obtain e1 where e1: "(if readable r then enqueue_and_remove kRead e s else Inr (e, s)) =
      Inr (e1, fold co (if readable r then [read_item e] else []) s)"
      "ev_fd e1 = ev_fd e" "interest_event e1 = interest_event e" "ev_state e1 = ev_state e"
      "write_func e1 = write_func e" "write_co e1 = write_co e"
    using enqueue_read[of e s] assms(2) by (cases "readable r") (auto simp: has_contexts_def)
  define s1 where "s1 = fold co (if readable r then [read_item e] else []) s"
  obtain e2 where e2: "(if writable r then enqueue_and_remove kWrite e1 s1 else Inr (e1, s1)) =
      Inr (e2, fold co (if writable r then [write_item e] else []) s1)"
      "ev_fd e2 = ev_fd e" "interest_event e2 = interest_event e" "ev_state e2 = ev_state e"
    using enqueue_write[of e1 s1] assms(2) e1 write_item_cong[of e1 e]
    by (cases "writable r") (auto simp: has_contexts_def)
  have "handle_epoll_events e r s = res_bind (Inr (e1, s1)) (\<lambda>(e1, s1).
      if writable r then enqueue_and_remove kWrite e1 s1 else Inr (e1, s1))"
    using assms(1) e1(1) unfolding handle_epoll_events_def readable_def writable_def s1_def
    by simp
  also have "\<dots> = Inr (e2, fold co (items_for e r) s)"
    using e2(1) unfolding s1_def items_for_def
    by (simp del: enqueue_and_remove.simps split del: if_split)
  finally show ?thesis using e2 by blast
qed

text \<open>An event after \<open>t\<close> has been cancelled on it.\<close>

definition cancelled :: "event \<Rightarrow> u32 \<Rightarrow> event" where
  "cancelled e t = e\<lparr>interest_event := interest_event e AND NOT t,
     ev_state := (if (interest_event e AND NOT t) AND NOT EPOLLET = 0 then kDeleted else ev_state e),
     read_func := (if t AND EPOLLIN \<noteq> 0 \<or> t AND EPOLLOUT \<noteq> 0 then None else read_func e),
     read_co := (if t AND EPOLLIN \<noteq> 0 \<or> t AND EPOLLOUT \<noteq> 0 then None else read_co e)\<rparr>"

lemma cancelled_sel [simp]:
  "ev_fd (cancelled e t) = ev_fd e"
  "interest_event (cancelled e t) = interest_event e AND NOT t"
  "write_func (cancelled e t) = write_func e" "write_co (cancelled e t) = write_co e"
  by (simp_all add: cancelled_def)

definition cancel_ctl :: "event \<Rightarrow> u32 \<Rightarrow> ctl_op \<times> int \<times> u32" where
  "cancel_ctl e t =
     (if (interest_event e AND NOT t) AND NOT EPOLLET = 0 then EPOLL_CTL_DEL else EPOLL_CTL_MOD,
      ev_fd e, interest_event e AND NOT t)"

lemma cancel_event_obj_spec:
  "cancel_event_obj e t p =
     (if ev_state e = kAdded
      then Inr (put_event (ev_fd e) (cancelled e t) (p\<lparr>ctl_calls := ctl_calls p @ [cancel_ctl e t]\<rparr>))
      else Inl Assert_failed)"
  by (auto simp: cancel_event_obj_def Let_def ctl_update_def cancelled_def cancel_ctl_def
      intro!: arg_cong[where f = "\<lambda>x. put_event _ x _"] event.equality)

section \<open>The poller's invariant\<close>

text \<open>
  Every event is stored under its descriptor, and an event the kernel does not know has no
  interest left but the edge-trigger flag.
\<close>

definition event_wf :: "int \<Rightarrow> event \<Rightarrow> bool" where
  "event_wf fd e \<longleftrightarrow> ev_fd e = fd \<and> (ev_state e \<noteq> kAdded \<longrightarrow> interest_event e AND NOT EPOLLET = 0)"

definition poller_wf :: "poller \<Rightarrow> bool" where
  "poller_wf p \<longleftrightarrow> (\<forall>fd e. eventSet p fd = Some e \<longrightarrow> event_wf fd e)"

definition init_poller :: poller where
  "init_poller = \<lparr>eventSet = Map.empty, ctl_calls = []\<rparr>"

lemma put_event_wf: "poller_wf p \<Longrightarrow> event_wf fd e \<Longrightarrow> poller_wf (put_event fd e p)"
  by (auto simp: poller_wf_def put_event_def)

lemma new_event_wf: "event_wf fd (new_event fd)"
  by (simp add: event_wf_def new_event_def)

lemma get_or_create_wf:
  assumes "poller_wf p" "get_or_create_event fd p = (e, p')"
  shows "poller_wf p'" "event_wf fd e" "eventSet p' fd = Some e"
  using assms new_event_wf[of fd] put_event_wf[OF assms(1) new_event_wf, of fd]
  by (auto simp: get_or_create_event_def events.look_put_same poller_wf_def split: option.splits)

lemma ctl_update_frame [simp]: "eventSet (ctl_update op e p) = eventSet p"
  by (simp add: ctl_update_def)

lemma ctl_update_wf [simp]: "poller_wf (ctl_update op e p) = poller_wf p"
  by (simp add: poller_wf_def)

lemma update_event_Inr:
  assumes "update_event w fd evs func p = Inr p'"
  obtains e p1 e4 where "get_or_create_event fd p = (e, p1)"
    and "p' = put_event fd e4 (ctl_update
          (if ev_state e = kAdded then EPOLL_CTL_MOD else EPOLL_CTL_ADD)
          (e\<lparr>interest_event := EPOLLET OR evs\<rparr>) p1)"
    and "ev_fd e4 = ev_fd e" "ev_state e4 = kAdded" "interest_event e4 = EPOLLET OR evs"
proof -
  obtain e p1 where g: "get_or_create_event fd p = (e, p1)" by fastforce
  from assms g that[OF g] show thesis
    by (auto simp: update_event_def bind_assert_eq_Inr res_bind_eq_Inr Let_def
        split: if_splits option.splits)
qed

lemma update_event_wf:
  assumes "poller_wf p" "update_event w fd evs func p = Inr p'"
  shows "poller_wf p'"
  using assms(2)
proof (rule update_event_Inr)
  fix e p1 e4
  assume g: "get_or_create_event fd p = (e, p1)"
    and p': "p' = put_event fd e4 (ctl_update
          (if ev_state e = kAdded then EPOLL_CTL_MOD else EPOLL_CTL_ADD)
          (e\<lparr>interest_event := EPOLLET OR evs\<rparr>) p1)"
    and e4: "ev_fd e4 = ev_fd e" "ev_state e4 = kAdded"
  from get_or_create_wf[OF assms(1) g] e4 show ?thesis
    unfolding p' by (intro put_event_wf) (simp_all add: event_wf_def)
qed

lemma cancel_event_obj_wf:
  assumes "poller_wf p" "cancel_event_obj e t p = Inr p'"
  shows "poller_wf p'"
proof -
  have "event_wf (ev_fd e) (cancelled e t)" if "ev_state e = kAdded"
    using that by (simp add: event_wf_def cancelled_def)
  with assms show ?thesis
    by (auto simp: cancel_event_obj_spec poller_wf_def put_event_def split: if_splits)
qed

lemma cancel_event_wf:
  "poller_wf p \<Longrightarrow> cancel_event fd t p = Inr p' \<Longrightarrow> poller_wf p'"
  using get_or_create_wf(1)[of p fd]
  by (cases "get_or_create_event fd p")
     (auto simp: cancel_event_def split: if_splits intro: cancel_event_obj_wf)

datatype poll_op = P_update int u32 "body option" | P_cancel int u32

fun poll_exec :: "cworld \<Rightarrow> poll_op \<Rightarrow> poller \<Rightarrow> poller res" where
  "poll_exec w (P_update fd evs f) p = update_event w fd evs f p"
| "poll_exec w (P_cancel fd evs) p = cancel_event fd evs p"

lemma poll_exec_wf: "poller_wf p \<Longrightarrow> poll_exec w x p = Inr p' \<Longrightarrow> poller_wf p'"
  by (cases x) (auto intro: update_event_wf cancel_event_wf)

interpretation poll_calls: guarded_system "poll_exec w" poller_wf for w
  by unfold_locales (rule poll_exec_wf)

lemma init_poller_wf: "poller_wf init_poller"
  by (simp add: poller_wf_def init_poller_def)

text \<open>
  Construction and destruction, on the descriptors that \<^verbatim>\<open>eventfd\<close>, \<^verbatim>\<open>timerfd_create\<close> and
  \<^verbatim>\<open>epoll_create1\<close> return. The notifier and the timers are constructed before the result of
  \<^verbatim>\<open>epoll_create1\<close> is looked at. The eventfd is registered level-triggered, the timerfd
  edge-triggered.
\<close>

definition new_notifier :: "int \<Rightarrow> int res" where
  "new_notifier event_fd = (if event_fd < 0 then Inl Aborted else Inr event_fd)"

definition create_timer_fd :: "int \<Rightarrow> int res" where
  "create_timer_fd timer_fd = (if timer_fd = - 1 then Inl Aborted else Inr timer_fd)"

definition new_poller :: "int \<Rightarrow> int \<Rightarrow> int \<Rightarrow> (timers \<times> poller) res" where
  "new_poller epoll_fd event_fd timer_fd =
     res_bind (new_notifier event_fd) (\<lambda>n.
     res_bind (create_timer_fd timer_fd) (\<lambda>t.
     if epoll_fd = - 1 then Inl Aborted
     else Inr (init_timers, \<lparr>eventSet = Map.empty,
       ctl_calls = [(EPOLL_CTL_ADD, n, EPOLLIN), (EPOLL_CTL_ADD, t, EPOLLIN OR EPOLLET)]\<rparr>)))"

definition delete_poller :: "int \<Rightarrow> int \<Rightarrow> poller \<Rightarrow> poller" where
  "delete_poller event_fd timer_fd p =
     p\<lparr>eventSet := Map.empty,
       ctl_calls := ctl_calls p @ [(EPOLL_CTL_DEL, event_fd, 0), (EPOLL_CTL_DEL, timer_fd, 0)]\<rparr>"

lemma new_poller_wf:
  "new_poller epoll_fd event_fd timer_fd = Inr (m, p) \<Longrightarrow> timers_wf m \<and> poller_wf p"
  by (auto simp: new_poller_def res_bind_eq_Inr init_timers_wf poller_wf_def split: if_splits)

lemma handle_ready_event_wf:
  assumes "poller_wf (poll st)" "handle_ready_event clk r st = Inr st'"
  shows "poller_wf (poll st')"
  using assms
  by (auto simp: handle_ready_event_def res_bind_eq_Inr split: ready_data.splits option.splits
      if_splits intro: cancel_event_obj_wf)

interpretation ready_events: guarded_system "handle_ready_event clk" "\<lambda>st. poller_wf (poll st)"
  for clk
  by unfold_locales (rule handle_ready_event_wf)

section \<open>Properties\<close>


definition demo_poll :: "event \<Rightarrow> poll_state" where
  "demo_poll e = \<lparr>poll = \<lparr>eventSet = [5 \<mapsto> e], ctl_calls = []\<rparr>, tmr = init_timers,
     sch = empty_sched ''s'', readings = 0\<rparr>"

definition demo_event :: event where
  "demo_event = (new_event 5)\<lparr>interest_event := EPOLLET OR (EPOLLIN OR EPOLLOUT), ev_state := kAdded,
     read_func := Some Return, write_co := Some 3\<rparr>"

lemma demo_poll_wf: "poller_wf (poll (demo_poll demo_event))"
  by (simp add: poller_wf_def demo_poll_def event_wf_def demo_event_def new_event_def)


text \<open>
  As long as events are registered with \<^verbatim>\<open>UpdateEvent\<close> and cancelled with
  \<^verbatim>\<open>CancelEvent\<close>, cancelling any events of any descriptor (but the edge-trigger flag itself)
  returns: its assertion that the event is known to the kernel never fails.
\<close>

theorem cancel_after_update_returns:
  assumes "run_ops (poll_exec w) ops init_poller = Inr p" "t AND EPOLLET = 0"
  shows "\<exists>p'. cancel_event fd t p = Inr p' \<and> poller_wf p'"
proof -
  have wf: "poller_wf p" by (rule poll_calls.run_ops_inv[OF init_poller_wf assms(1)])
  obtain e p1 where g: "get_or_create_event fd p = (e, p1)" by fastforce
  note g_wf = get_or_create_wf[OF wf g]
  show ?thesis
  proof (cases "interest_event e AND t = 0")
    case True
    with g g_wf show ?thesis by (simp add: cancel_event_def)
  next
    case False
    then have "interest_event e AND NOT EPOLLET \<noteq> 0" by (rule word_interest_left[OF _ assms(2)])
    with g_wf(2) have "ev_state e = kAdded" by (auto simp: event_wf_def)
    then have "\<exists>p'. cancel_event fd t p = Inr p'"
      using False g by (simp add: cancel_event_def cancel_event_obj_spec)
    with cancel_event_wf[OF wf] show ?thesis by blast
  qed
qed

theorem cancel_after_update_returns_witness:
  "\<exists>p p'. run_ops (poll_exec init_cworld) [P_update 5 EPOLLIN (Some Return)] init_poller = Inr p \<and>
     cancel_event 5 EPOLLIN p = Inr p'"
proof -
  obtain p where p: "run_ops (poll_exec init_cworld) [P_update 5 EPOLLIN (Some Return)] init_poller = Inr p"
    by (simp add: update_event_def Let_def get_or_create_event_def init_poller_def epoll_bits)
  have "EPOLLIN AND EPOLLET = 0" by (simp add: epoll_bits)
  from cancel_after_update_returns[OF p this] p show ?thesis by blast
qed

lemma append_event_ready:
  assumes "eventSet (poll st) fd = None" "append_event w fd EPOLLIN func (poll st) = Inr p'"
  shows "handle_ready_event clk (From_event fd, EPOLLIN) (st\<lparr>poll := p'\<rparr>) = Inl Assert_failed"
proof -
  have "EPOLLIN AND EPOLLIN \<noteq> 0" "EPOLLIN AND EPOLLOUT = 0" by (simp_all add: epoll_bits)
  with assms obtain e where e: "eventSet p' fd = Some e" "ev_state e = kNew"
      "interest_event e = EPOLLET OR EPOLLIN" "read_func e \<noteq> None \<or> read_co e \<noteq> None"
    by (auto simp: append_event_def get_or_create_event_def Let_def new_event_def res_bind_eq_Inr
        events.look_put_same split: option.splits)
  have bits: "(EPOLLET OR EPOLLIN) AND EPOLLIN \<noteq> 0" "EPOLLIN AND EPOLLERR = 0"
      "has_contexts e EPOLLIN"
    using e(4) by (simp_all add: epoll_bits has_contexts_def readable_def writable_def)
  obtain e1 s1 where "handle_epoll_events e EPOLLIN (sch st) = Inr (e1, s1)" "ev_state e1 = kNew"
    using handle_epoll_events_spec[OF bits(2,3)] e(2) by metis
  with e bits(1) show ?thesis by (simp add: handle_ready_event_def cancel_event_obj_spec)
qed

text \<open>
  \<^verbatim>\<open>AppendEvent\<close> on a descriptor that is not registered leaves the event marked as
  unknown to the kernel, although it has just been added there: when the event becomes
  readable, the work is taken and then the assertion of \<^verbatim>\<open>CancelEvent\<close> aborts the process.
\<close>

theorem append_event_then_ready_aborts:
  assumes "eventSet (poll st) fd = None" "append_event w fd EPOLLIN func (poll st) = Inr p'"
  shows "handle_ready_event clk (From_event fd, EPOLLIN) (st\<lparr>poll := p'\<rparr>) = Inl Assert_failed"
  by (rule append_event_ready[OF assms])

theorem append_event_then_ready_aborts_witness:
  "\<exists>p'. append_event init_cworld 7 EPOLLIN (Some Return) init_poller = Inr p' \<and>
     handle_ready_event (\<lambda>_. 0) (From_event 7, EPOLLIN)
       (\<lparr>poll = init_poller, tmr = init_timers, sch = empty_sched ''s'', readings = 0\<rparr>\<lparr>poll := p'\<rparr>)
     = Inl Assert_failed"
proof -
  define st where
    "st = \<lparr>poll = init_poller, tmr = init_timers, sch = empty_sched ''s'', readings = 0\<rparr>"
  obtain p' where "append_event init_cworld 7 EPOLLIN (Some Return) (poll st) = Inr p'"
    by (simp add: st_def append_event_def get_or_create_event_def init_poller_def Let_def epoll_bits)
  with append_event_then_ready_aborts[of st 7 init_cworld "Some Return" p' "\<lambda>_. 0"] show ?thesis
    by (auto simp: st_def init_poller_def)
qed

text \<open>
  Cancelling \<^verbatim>\<open>EPOLLOUT\<close> on a descriptor registered for reading and writing drops the
  read context and keeps the write context, while the kernel keeps reporting readability: the
  next readable event finds nothing to run and aborts the process.
\<close>

theorem cancel_write_loses_read:
  assumes "poller_wf p" "eventSet p fd = Some e" "ev_state e = kAdded"
    and "interest_event e = EPOLLET OR (EPOLLIN OR EPOLLOUT)"
  shows "\<exists>p' e'. cancel_event fd EPOLLOUT p = Inr p' \<and> eventSet p' fd = Some e' \<and>
    interest_event e' = EPOLLET OR EPOLLIN \<and> read_func e' = None \<and> read_co e' = None \<and>
    write_func e' = write_func e \<and> write_co e' = write_co e \<and>
    (\<forall>st. poll st = p' \<longrightarrow>
       handle_ready_event clk (From_event fd, EPOLLIN) st = Inl Assert_failed)"
proof -
  define p' where "p' = put_event fd (cancelled e EPOLLOUT)
    (p\<lparr>ctl_calls := ctl_calls p @ [cancel_ctl e EPOLLOUT]\<rparr>)"
  have fd: "ev_fd e = fd" using assms(1,2) by (auto simp: poller_wf_def event_wf_def)
  have bits: "interest_event e AND EPOLLOUT \<noteq> 0" "interest_event e AND NOT EPOLLOUT = EPOLLET OR EPOLLIN"
      "(EPOLLET OR EPOLLIN) AND EPOLLIN \<noteq> 0" "EPOLLOUT AND EPOLLOUT \<noteq> 0"
      "EPOLLIN AND EPOLLERR = 0" "EPOLLIN AND (EPOLLIN OR EPOLLRDHUP OR EPOLLPRI) \<noteq> 0"
    unfolding assms(4) by (simp_all add: epoll_bits)
  have none: "read_func (cancelled e EPOLLOUT) = None" "read_co (cancelled e EPOLLOUT) = None"
    using bits(4) by (simp_all add: cancelled_def)
  have c: "cancel_event fd EPOLLOUT p = Inr p'"
    using assms(2,3) fd bits(1)
    by (simp add: cancel_event_def get_or_create_event_def cancel_event_obj_spec p'_def)
  have look: "eventSet p' fd = Some (cancelled e EPOLLOUT)"
    by (simp add: p'_def events.look_put_same)
  have "handle_ready_event clk (From_event fd, EPOLLIN) st = Inl Assert_failed" if "poll st = p'" for st
    using that look none bits by (simp add: handle_ready_event_def handle_epoll_events_def)
  with c look none bits(2) show ?thesis by auto
qed

theorem cancel_write_loses_read_witness:
  "\<exists>p' e'. cancel_event 5 EPOLLOUT (poll (demo_poll demo_event)) = Inr p' \<and>
     eventSet p' 5 = Some e' \<and> read_func e' = None \<and> write_co e' = Some 3"
  using cancel_write_loses_read[OF demo_poll_wf, of 5 demo_event "\<lambda>_. 0"]
  by (force simp: demo_poll_def demo_event_def)

text \<open>
  \<^verbatim>\<open>AppendEvent\<close> for \<^verbatim>\<open>EPOLLOUT\<close> without a callback (what the hooked \<^verbatim>\<open>write\<close> does) parks
  the running coroutine in the read context; the writable event it waits for finds no write
  context and aborts the process.
\<close>

theorem append_write_coroutine_misplaced:
  assumes "eventSet (poll st) fd = None" "cur w = Some a"
  shows "\<exists>p' e'. append_event w fd EPOLLOUT None (poll st) = Inr p' \<and>
    eventSet p' fd = Some e' \<and> read_co e' = Some a \<and> write_co e' = None \<and> write_func e' = None \<and>
    handle_ready_event clk (From_event fd, EPOLLOUT) (st\<lparr>poll := p'\<rparr>) = Inl Assert_failed"
proof -
  have bits: "EPOLLOUT AND EPOLLIN = 0" "EPOLLOUT AND EPOLLOUT \<noteq> 0"
      "(0 OR (EPOLLET OR EPOLLOUT)) AND EPOLLOUT \<noteq> 0" "EPOLLOUT AND EPOLLERR = 0"
      "EPOLLOUT AND (EPOLLIN OR EPOLLRDHUP OR EPOLLPRI) = 0"
    by (simp_all add: epoll_bits)
  with assms show ?thesis
    by (simp add: append_event_def get_or_create_event_def Let_def new_event_def get_current_def
        events.look_put_same handle_ready_event_def handle_epoll_events_def)
qed

theorem append_write_coroutine_misplaced_witness:
  "\<exists>p'. append_event (demo_world Return) 7 EPOLLOUT None (poll (demo_poll demo_event)) = Inr p' \<and>
     handle_ready_event (\<lambda>_. 0) (From_event 7, EPOLLOUT) ((demo_poll demo_event)\<lparr>poll := p'\<rparr>)
     = Inl Assert_failed"
  using append_write_coroutine_misplaced[of "demo_poll demo_event" 7 "demo_world Return" 0]
  by (auto simp: demo_poll_def demo_world_def)

fun quiet :: "wait_result \<Rightarrow> bool" where
  "quiet (Wait_ready _) = False"
| "quiet _ = True"

text \<open>
  \<^verbatim>\<open>PollAndHandle\<close> returns after the first batch of ready events it receives, whatever
  errors and timeouts come before, having handled exactly that batch; it does not return if
  no batch ever comes.
\<close>

theorem poll_handles_first_batch:
  assumes "\<forall>q\<in>set qs. quiet q"
  shows "poll_and_handle True clk (qs @ Wait_ready rs # ws) st =
      res_bind (handle_ready_events clk rs st) (\<lambda>st'. Inr (ws, st')) \<and>
    poll_and_handle True clk qs st = Inl Diverges"
  using assms
proof (induction qs)
  case Nil
  then show ?case by (simp add: poll_and_handle.simps)
next
  case (Cons q qs)
  then show ?case
    by (cases q) (auto simp: poll_and_handle.simps[where waits = "_ # _"])
qed

theorem poll_handles_first_batch_witness:
  "poll_and_handle True (\<lambda>_. 0) [Wait_error, Wait_timeout, Wait_ready [(From_notifier, EPOLLIN)]]
     (demo_poll demo_event) = Inr ([], demo_poll demo_event)"
  using poll_handles_first_batch[of "[Wait_error, Wait_timeout]" "\<lambda>_. 0" "[(From_notifier, EPOLLIN)]" "[]"]
  by (simp add: handle_ready_events_def handle_ready_event_def)

end
