(* ===== verification/Scheduler.thy ===== *)
theory Scheduler
  imports Epoll_Poller
begin

text \<open>
  The scheduler of \<^verbatim>\<open>concurrency/scheduler.h\<close> and \<^verbatim>\<open>concurrency/scheduler.cpp\<close> as one
  scheduling thread sees it: construction, \<^verbatim>\<open>Start\<close>, \<^verbatim>\<open>Stop\<close>, and \<^verbatim>\<open>SchedulingFunc\<close> with the
  idle coroutine. One turn of the \<^verbatim>\<open>while\<close> loop is \<open>sched_iter\<close>; the lemmas on it hold for
  every state, so for whatever other threads did to the task list since the last turn.

  A \<^verbatim>\<open>shared_ptr\<close> to a coroutine held by the task list is seen in the model; one held
  elsewhere (an event's context, a callback's capture, the user) is told by \<open>held\<close>, a
  parameter. The coroutine is destroyed when the scheduling function drops the last one.
\<close>

section \<open>The scheduling thread\<close>

record senv =
  os :: os_env
  alive :: "nat \<Rightarrow> bool"
  held :: "poll_state \<Rightarrow> co_addr \<Rightarrow> bool"
  clock :: "nat \<Rightarrow> int"
  this :: nat

text \<open>
  \<open>tl_scheduler\<close> and \<open>tl_enable_hook\<close> are thread-local; \<open>idle_coroutine\<close>, \<open>temp_coroutine\<close> and
  \<open>current_task\<close> (its coroutine) are the local variables of \<^verbatim>\<open>SchedulingFunc\<close>; \<open>waits\<close> are
  the results of the thread's next \<^verbatim>\<open>epoll_wait\<close> calls.
\<close>

record sthread =
  self :: pthread_t
  world :: cworld
  ps :: poll_state
  waits :: "wait_result list"
  tl_scheduler :: "nat option"
  tl_enable_hook :: bool
  idle_coroutine :: co_addr
  temp_coroutine :: "co_addr option"
  current_task :: "co_addr option"

definition tasks_of :: "sthread \<Rightarrow> invocable list" where
  "tasks_of st = taskList (sch (ps st))"

definition on_sch :: "(sched \<Rightarrow> sched) \<Rightarrow> sthread \<Rightarrow> sthread" where
  "on_sch g st = st\<lparr>ps := (ps st)\<lparr>sch := g (sch (ps st))\<rparr>\<rparr>"

definition set_scheduler :: "nat option \<Rightarrow> sthread \<Rightarrow> sthread res" where
  "set_scheduler p st =
     res_bind (if p \<noteq> None then sylar_assert (tl_scheduler st = None) else Inr ())
       (\<lambda>_. Inr (st\<lparr>tl_scheduler := p\<rparr>))"

definition enable_hook :: "bool \<Rightarrow> sthread \<Rightarrow> sthread" where
  "enable_hook on st = st\<lparr>tl_enable_hook := on\<rparr>"

definition assert_in_scheduling_scope :: "senv \<Rightarrow> sthread \<Rightarrow> unit res" where
  "assert_in_scheduling_scope V st = sylar_assert (tl_scheduler st = Some (this V))"

text \<open>Dropping a \<^verbatim>\<open>shared_ptr\<close> to a coroutine.\<close>

definition release :: "senv \<Rightarrow> co_addr option \<Rightarrow> sthread \<Rightarrow> sthread res" where
  "release V p st =
     (case p of
        None \<Rightarrow> Inr st
      | Some a \<Rightarrow>
          if (\<exists>t\<in>set (tasks_of st). coroutine_ptr t = Some a) \<or> held V (ps st) a then Inr st
          else res_bind (destroy a (world st)) (\<lambda>w. Inr (st\<lparr>world := w\<rparr>)))"

section \<open>Construction, start and stop\<close>

text \<open>A \<^verbatim>\<open>std::vector\<close> of more than \<open>2 ^ 60 - 1\<close> pointers throws \<^verbatim>\<open>std::length_error\<close>.\<close>

definition default_stack_size :: u32 where "default_stack_size = 1048576"

definition new_scheduler ::
  "os_env \<Rightarrow> pthread_t \<Rightarrow> u64 \<Rightarrow> bool \<Rightarrow> string \<Rightarrow> cworld \<Rightarrow> (sched \<times> cworld) res" where
  "new_scheduler E me thread_num include_cur_thread name w =
     (let pool = (if include_cur_thread then thread_num - 1 else thread_num);
          s = \<lparr>sc_name = name, dummyMainCoroutine = None,
               dummyMainTrdPthreadId = (if include_cur_thread then me else 0),
               threadPool = replicate (unat pool) None, stopped = True, activeThreadNum = 0,
               idleThreadNum = 0, taskList = [], notified = []\<rparr>
      in if unat pool > 2 ^ 60 - 1 then Inl (Thrown Length_error)
         else if include_cur_thread then
           res_bind (get_main E w) (\<lambda>(_, w1).
           res_bind (set_scheduling_coroutine (dummyMainCoroutine s) w1) (\<lambda>w2.
           res_bind (new_coroutine E (Some Scheduling_func) (1024 * 10) True w2) (\<lambda>(d, w3).
           Inr (s\<lparr>dummyMainCoroutine := Some d\<rparr>, w3))))
         else Inr (s, w))"

definition delete_scheduler :: "sched \<Rightarrow> unit res" where
  "delete_scheduler s = sylar_assert (is_stopped s)"

text \<open>
  The threads are named after the scheduler and their index; \<open>show_nat\<close> is
  \<^verbatim>\<open>std::to_string\<close>. A \<^verbatim>\<open>compare_exchange\<close> that fails changes nothing.
\<close>

definition start :: "(nat \<Rightarrow> string) \<Rightarrow> sched \<Rightarrow> sched" where
  "start show_nat s =
     (if stopped s then
        s\<lparr>stopped := False,
          threadPool := map (\<lambda>i. Some (sc_name s @ ''_'' @ show_nat i)) [0..<length (threadPool s)]\<rparr>
      else s)"

text \<open>
  \<^verbatim>\<open>Stop\<close> up to the switch into the dummy main coroutine; the result says whether the
  call goes on (the flag was clear).
\<close>

definition stop_request :: "pthread_t \<Rightarrow> sched \<Rightarrow> (bool \<times> sched) res" where
  "stop_request me s =
     res_bind (if dummyMainCoroutine s \<noteq> None then sylar_assert (me = dummyMainTrdPthreadId s)
               else Inr ()) (\<lambda>_.
     if stopped s then Inr (False, s)
     else let s1 = notify (of_nat (length (threadPool s))) (s\<lparr>stopped := True\<rparr>)
          in Inr (True, if dummyMainCoroutine s1 \<noteq> None then notify 1 s1 else s1))"

section \<open>The idle coroutine\<close>

text \<open>
  One stretch of \<^verbatim>\<open>HandleIdle\<close>: it returns when the scheduler is stopped and has no task,
  else it polls once and yields; when it is swapped in again it evaluates the loop's
  condition again.
\<close>

definition handle_idle :: "senv \<Rightarrow> sthread \<Rightarrow> (stop \<times> sthread) res" where
  "handle_idle V st =
     (if is_stopped (sch (ps st)) then Inr (Returned, st)
      else
        res_bind (poll_and_handle (tl_scheduler st = Some (this V)) (clock V) (waits st) (ps st))
          (\<lambda>(ws, p). Inr (Held Handle_idle, st\<lparr>waits := ws, ps := p\<rparr>)))"

definition idle_swap_in :: "senv \<Rightarrow> sthread \<Rightarrow> sthread res" where
  "idle_swap_in V st =
     (let a = idle_coroutine st in
      res_bind (swap_in_enter (os V) a (world st)) (\<lambda>w1.
      res_bind (obj a w1) (\<lambda>c.
      if co_ctx c = Entry \<and> co_func c = Some Handle_idle \<or> co_ctx c = Resume_at Handle_idle then
        res_bind (handle_idle V (st\<lparr>world := w1\<rparr>)) (\<lambda>(how, st1).
        res_bind (leave (os V) a how (world st1)) (\<lambda>w2.
        Inr (st1\<lparr>world := w2\<rparr>)))
      else if co_ctx c = Finished then Inl Thread_exit else Inl Outside_model)))"

section \<open>One turn of the scheduling loop\<close>

text \<open>\<^verbatim>\<open>++activeThreadNum_; coroutine->SwapIn(); --activeThreadNum_\<close>.\<close>

definition run_active :: "senv \<Rightarrow> co_addr \<Rightarrow> sthread \<Rightarrow> sthread res" where
  "run_active V a st =
     (let st1 = on_sch (\<lambda>s. s\<lparr>activeThreadNum := activeThreadNum s + 1\<rparr>) st in
      res_bind (swap_in (os V) (alive V) a (world st1)) (\<lambda>(rs, w).
      let st2 = on_sch (post_requests rs) (st1\<lparr>world := w\<rparr>)
      in Inr (on_sch (\<lambda>s. s\<lparr>activeThreadNum := activeThreadNum s - 1\<rparr>) st2)))"

definition coroutine_turn :: "senv \<Rightarrow> co_addr \<Rightarrow> sthread \<Rightarrow> sthread res" where
  "coroutine_turn V a st =
     res_bind (run_active V a st) (\<lambda>st1.
     res_bind (obj a (world st1)) (\<lambda>c.
     if co_st c = kReady then
       Inr ((on_sch (co (wrap_coroutine a 0)) st1)\<lparr>current_task := None\<rparr>)
     else if co_st c \<noteq> kTerminal \<and> co_st c \<noteq> kExcept then
       Inr (st1\<lparr>world := set_state a kHold (world st1)\<rparr>)
     else Inr st1))"

text \<open>The temporary coroutine a callback runs in is kept for the next callback.\<close>

definition wrap_in_temp :: "senv \<Rightarrow> body \<Rightarrow> sthread \<Rightarrow> (co_addr \<times> sthread) res" where
  "wrap_in_temp V f st =
     (case temp_coroutine st of
        Some a \<Rightarrow> res_bind (reset_co (os V) (Some f) a (world st)) (\<lambda>w. Inr (a, st\<lparr>world := w\<rparr>))
      | None \<Rightarrow>
          res_bind (new_coroutine (os V) (Some f) default_stack_size False (world st)) (\<lambda>(a, w).
          Inr (a, st\<lparr>world := w, temp_coroutine := Some a\<rparr>)))"

definition callback_turn :: "senv \<Rightarrow> body \<Rightarrow> sthread \<Rightarrow> sthread res" where
  "callback_turn V f st =
     res_bind (wrap_in_temp V f st) (\<lambda>(a, st1).
     res_bind (run_active V a st1) (\<lambda>st2.
     res_bind (obj a (world st2)) (\<lambda>c.
     if co_st c = kReady then
       Inr ((on_sch (co (wrap_coroutine a 0)) st2)\<lparr>temp_coroutine := None\<rparr>)
     else if co_st c = kTerminal \<or> co_st c = kExcept then
       res_bind (reset_co (os V) None a (world st2)) (\<lambda>w. Inr (st2\<lparr>world := w\<rparr>))
     else
       release V (Some a)
         (st2\<lparr>world := set_state a kHold (world st2), temp_coroutine := None\<rparr>))))"

text \<open>The result tells whether the loop goes on.\<close>

definition idle_turn :: "senv \<Rightarrow> sthread \<Rightarrow> (bool \<times> sthread) res" where
  "idle_turn V st =
     (let a = idle_coroutine st in
      res_bind (obj a (world st)) (\<lambda>c.
      if co_st c = kTerminal then Inr (False, st)
      else
        res_bind (idle_swap_in V (on_sch (\<lambda>s. s\<lparr>idleThreadNum := idleThreadNum s + 1\<rparr>) st)) (\<lambda>st1.
        let st2 = on_sch (\<lambda>s. s\<lparr>idleThreadNum := idleThreadNum s - 1\<rparr>) st1 in
        res_bind (obj a (world st2)) (\<lambda>d.
        Inr (True,
          if co_st d \<noteq> kTerminal \<and> co_st d \<noteq> kExcept
          then st2\<lparr>world := set_state a kHold (world st2)\<rparr> else st2)))))"

text \<open>The guard is a disjunction in the code, so it holds in every state.\<close>

definition runnable_task :: "invocable \<Rightarrow> cworld \<Rightarrow> bool" where
  "runnable_task t w \<longleftrightarrow>
     (case coroutine_ptr t of
        None \<Rightarrow> False
      | Some a \<Rightarrow>
          (case heap w a of
             None \<Rightarrow> False
           | Some c \<Rightarrow> co_st c \<noteq> kTerminal \<or> co_st c \<noteq> kExcept))"

definition sched_iter :: "senv \<Rightarrow> sthread \<Rightarrow> (bool \<times> sthread) res" where
  "sched_iter V st =
     res_bind (release V (current_task st) (st\<lparr>current_task := None\<rparr>)) (\<lambda>st0.
     res_bind (take_task (self st0) (heap (world st0)) (sch (ps st0))) (\<lambda>(task, s).
     let st1 = on_sch (\<lambda>_. s) st0 in
     case task of
       None \<Rightarrow> idle_turn V st1
     | Some t \<Rightarrow>
         let st2 = st1\<lparr>current_task := coroutine_ptr t\<rparr> in
         if runnable_task t (world st2) then
           res_bind (deref (coroutine_ptr t)) (\<lambda>a.
           res_bind (coroutine_turn V a st2) (\<lambda>st3. Inr (True, st3)))
         else
           (case callback t of
              Some f \<Rightarrow> res_bind (callback_turn V f st2) (\<lambda>st3. Inr (True, st3))
            | None \<Rightarrow> Inr (True, st2))))"

section \<open>The scheduling function\<close>

text \<open>The \<^verbatim>\<open>while (true)\<close> loop; \<open>None\<close> is "the loop does not end".\<close>

partial_function (option) sched_loop :: "senv \<Rightarrow> sthread \<Rightarrow> sthread res option" where
  "sched_loop V st =
     (case sched_iter V st of
        Inl e \<Rightarrow> Some (Inl e)
      | Inr (go, st') \<Rightarrow> if go then sched_loop V st' else Some (Inr st'))"

definition scheduling_prologue :: "senv \<Rightarrow> sthread \<Rightarrow> sthread res" where
  "scheduling_prologue V st =
     res_bind (set_scheduler (Some (this V)) st) (\<lambda>st0.
     let st1 = enable_hook True st0 in
     res_bind (get_main (os V) (world st1)) (\<lambda>(m, w1).
     let s = sch (ps st1) in
     res_bind
       (if dummyMainCoroutine s \<noteq> None \<and> self st1 = dummyMainTrdPthreadId s then
          res_bind (set_scheduling_coroutine (dummyMainCoroutine s) w1) (\<lambda>w2.
          res_bind (get_current w2) (\<lambda>cu.
          res_bind (sylar_assert (dummyMainCoroutine s = Some cu)) (\<lambda>_.
          res_bind (get_main (os V) w2) (\<lambda>(m', w3).
          res_bind (sylar_assert (dummyMainCoroutine s \<noteq> m')) (\<lambda>_. Inr w3)))))
        else
          res_bind (set_scheduling_coroutine m w1) (\<lambda>w2.
          res_bind (get_main (os V) w2) (\<lambda>(m', w3).
          res_bind (sylar_assert (sched_co w2 = m')) (\<lambda>_. Inr w3)))) (\<lambda>w4.
     res_bind (new_coroutine (os V) (Some Handle_idle) default_stack_size False w4) (\<lambda>(i, w5).
     Inr (st1\<lparr>world := w5, idle_coroutine := i, temp_coroutine := None, current_task := None\<rparr>)))))"

text \<open>The thread-local pointers are cleared, then the local variables are destroyed.\<close>

definition scheduling_epilogue :: "senv \<Rightarrow> sthread \<Rightarrow> sthread res" where
  "scheduling_epilogue V st =
     res_bind (set_scheduling_coroutine None (world st)) (\<lambda>w.
     res_bind (set_scheduler None (st\<lparr>world := w\<rparr>)) (\<lambda>st1.
     res_bind (release V (current_task st1) (st1\<lparr>current_task := None\<rparr>)) (\<lambda>st2.
     res_bind (release V (temp_coroutine st2) (st2\<lparr>temp_coroutine := None\<rparr>)) (\<lambda>st3.
     release V (Some (idle_coroutine st3)) st3))))"

definition scheduling_func :: "senv \<Rightarrow> sthread \<Rightarrow> sthread res" where
  "scheduling_func V st =
     res_bind (scheduling_prologue V st) (\<lambda>st1.
     res_bind (returns (sched_loop V st1)) (scheduling_epilogue V))"

text \<open>
  \<^verbatim>\<open>Stop\<close>: with a dummy main coroutine the calling thread runs the scheduling function in
  it. Joining the pool's threads waits for them and changes nothing of this thread.
\<close>

definition stop_scheduler :: "senv \<Rightarrow> sthread \<Rightarrow> sthread res" where
  "stop_scheduler V st =
     res_bind (stop_request (self st) (sch (ps st))) (\<lambda>(goes_on, s).
     let st1 = on_sch (\<lambda>_. s) st in
     if \<not> goes_on then Inr st1
     else
       res_bind
         (case dummyMainCoroutine s of
            None \<Rightarrow> Inr st1
          | Some d \<Rightarrow>
              res_bind (swap_in_enter (os V) d (world st1)) (\<lambda>w1.
              res_bind (obj d w1) (\<lambda>c.
              if co_ctx c = Entry \<and> co_func c = Some Scheduling_func then
                res_bind (scheduling_func V (st1\<lparr>world := w1\<rparr>)) (\<lambda>st2.
                res_bind (leave (os V) d Returned (world st2)) (\<lambda>w2.
                Inr (st2\<lparr>world := w2\<rparr>)))
              else if co_ctx c = Finished then Inl Thread_exit else Inl Outside_model))) (\<lambda>st3.
       Inr (on_sch (\<lambda>s. s\<lparr>threadPool := []\<rparr>) st3)))"

section \<open>Rewriting one turn\<close>

lemma on_sch_frame [simp, frame_simps]:
  "self (on_sch g st) = self st" "world (on_sch g st) = world st" "waits (on_sch g st) = waits st"
  "tl_scheduler (on_sch g st) = tl_scheduler st" "idle_coroutine (on_sch g st) = idle_coroutine st"
  "temp_coroutine (on_sch g st) = temp_coroutine st" "current_task (on_sch g st) = current_task st"
  "sch (ps (on_sch g st)) = g (sch (ps st))" "tasks_of (on_sch g st) = taskList (g (sch (ps st)))"
  "tl_enable_hook (on_sch g st) = tl_enable_hook st" "poll (ps (on_sch g st)) = poll (ps st)"
  "tmr (ps (on_sch g st)) = tmr (ps st)" "readings (ps (on_sch g st)) = readings (ps st)"
  by (simp_all add: on_sch_def tasks_of_def)

lemma tasks_of_upd [simp]:
  "tasks_of (st\<lparr>world := w\<rparr>) = tasks_of st" "tasks_of (st\<lparr>temp_coroutine := p\<rparr>) = tasks_of st"
  "tasks_of (st\<lparr>current_task := p\<rparr>) = tasks_of st"
  "tasks_of (st\<lparr>idle_coroutine := i\<rparr>) = tasks_of st"
  "tasks_of (st\<lparr>tl_scheduler := p\<rparr>) = tasks_of st"
  by (simp_all add: tasks_of_def)

lemma on_sch_on_sch [simp]: "on_sch g (on_sch h st) = on_sch (\<lambda>s. g (h s)) st"
  by (simp add: on_sch_def)

lemma co_activeThreadNum: "co t (s\<lparr>activeThreadNum := n\<rparr>) = (co t s)\<lparr>activeThreadNum := n\<rparr>"
  by (simp add: co_def add_task_no_lock_def notify_def)

lemma post_requests_activeThreadNum:
  "post_requests rs (s\<lparr>activeThreadNum := n\<rparr>) = (post_requests rs s)\<lparr>activeThreadNum := n\<rparr>"
  unfolding post_requests_def by (induction rs arbitrary: s) (simp_all add: co_activeThreadNum)

text \<open>The counter of active threads is back at its value when a switch returns.\<close>

lemma run_active_eq:
  "run_active V a st =
     res_bind (swap_in (os V) (alive V) a (world st))
       (\<lambda>(rs, w). Inr (on_sch (post_requests rs) (st\<lparr>world := w\<rparr>)))"
proof -
  have "(post_requests rs (s\<lparr>activeThreadNum := activeThreadNum s + 1\<rparr>))
      \<lparr>activeThreadNum := activeThreadNum
        (post_requests rs (s\<lparr>activeThreadNum := activeThreadNum s + 1\<rparr>)) - 1\<rparr> =
      post_requests rs s" for rs s
    by (simp add: post_requests_activeThreadNum)
  then show ?thesis by (simp add: run_active_def on_sch_def Let_def)
qed

lemma sched_iter_idle:
  assumes "release V (current_task st) (st\<lparr>current_task := None\<rparr>) = Inr st0"
    and "find (eligible (self st0)) (tasks_of st0) = None"
  shows "sched_iter V st = idle_turn V (on_sch (left_with (tasks_of st0)) st0)"
  using assms
  by (simp add: sched_iter_def tasks_of_def take_task_None on_sch_def Let_def)

lemma sched_iter_coroutine:
  assumes "release V (current_task st) (st\<lparr>current_task := None\<rparr>) = Inr st0"
    and "find (eligible (self st0)) (tasks_of st0) = Some t" "coroutine_ptr t = Some a"
    and "heap (world st0) a = Some c" "co_st c \<noteq> kExec"
  shows "sched_iter V st =
    res_bind (coroutine_turn V a
      ((on_sch (left_with (remove1 t (tasks_of st0))) st0)\<lparr>current_task := Some a\<rparr>))
      (\<lambda>st'. Inr (True, st'))"
proof -
  have "takeable (heap (world st0)) t" using assms by (simp add: takeable_def)
  moreover have "runnable_task t (world st0)"
    using assms by (simp add: runnable_task_def)
  ultimately show ?thesis
    using assms
    by (simp add: sched_iter_def tasks_of_def take_task_Some on_sch_def Let_def)
qed

lemma sched_iter_callback:
  assumes "release V (current_task st) (st\<lparr>current_task := None\<rparr>) = Inr st0"
    and "find (eligible (self st0)) (tasks_of st0) = Some t"
    and "coroutine_ptr t = None" "callback t = Some f"
  shows "sched_iter V st =
    res_bind (callback_turn V f
      ((on_sch (left_with (remove1 t (tasks_of st0))) st0)\<lparr>current_task := None\<rparr>))
      (\<lambda>st'. Inr (True, st'))"
proof -
  have "takeable (heap (world st0)) t" using assms by (simp add: takeable_def)
  with assms show ?thesis
    by (simp add: sched_iter_def tasks_of_def take_task_Some on_sch_def Let_def runnable_task_def)
qed

section \<open>Draining the task list\<close>

text \<open>
  \<open>calm\<close> callbacks end by returning, give up control only by \<^verbatim>\<open>YieldCurCoroutineToReady\<close> and
  hand over only calm callbacks that may run on this thread.
\<close>

fun calm :: "(nat \<Rightarrow> bool) \<Rightarrow> pthread_t \<Rightarrow> body \<Rightarrow> bool" where
  "calm al me Return = True"
| "calm al me (Yield_to_ready k) = calm al me k"
| "calm al me (Spawn f p k) = ((p = 0 \<or> p = me) \<and> calm al me f \<and> calm al me k)"
| "calm al me (If_alive c f) = (al c \<longrightarrow> calm al me f)"
| "calm al me _ = False"

fun weight :: "body \<Rightarrow> nat" where
  "weight (Yield_to_ready k) = Suc (weight k)"
| "weight (Spawn f p k) = Suc (weight f + weight k)"
| "weight (If_alive c f) = Suc (weight f)"
| "weight _ = 1"

fun request_weight :: "request \<Rightarrow> nat" where
  "request_weight (Req_func f p) = weight f"
| "request_weight (Req_co a p) = 0"

fun calm_request :: "(nat \<Rightarrow> bool) \<Rightarrow> pthread_t \<Rightarrow> request \<Rightarrow> bool" where
  "calm_request al me (Req_func f p) = ((p = 0 \<or> p = me) \<and> calm al me f)"
| "calm_request al me (Req_co a p) = False"

lemma run_body_calm:
  "calm al me b \<Longrightarrow> \<exists>rs how. run_body al b = (rs, how) \<and> (\<forall>r\<in>set rs. calm_request al me r) \<and>
     (how = Returned \<and> sum_list (map request_weight rs) < weight b \<or>
      (\<exists>k. how = Readied k \<and> calm al me k \<and>
         sum_list (map request_weight rs) + weight k < weight b))"
proof (induction al b rule: run_body.induct)
  case (7 al f p k)
  then obtain rs how where k: "run_body al k = (rs, how)" "\<forall>r\<in>set rs. calm_request al me r"
      "how = Returned \<and> sum_list (map request_weight rs) < weight k \<or>
       (\<exists>j. how = Readied j \<and> calm al me j \<and> sum_list (map request_weight rs) + weight j < weight k)"
    by auto
  then show ?case using 7(2) by (intro exI[of _ "Req_func f p # rs"] exI[of _ how]) auto
next
  case (9 al c f)
  show ?case
  proof (cases "al c")
    case True
    then have "calm al me f" using 9(2) by simp
    from 9(1)[OF True this] True show ?thesis by fastforce
  qed simp
qed auto

text \<open>The weight of a task: of its callback, or of what is left of its coroutine's.\<close>

definition rest_weight :: "(co_addr \<Rightarrow> coroutine option) \<Rightarrow> co_addr \<Rightarrow> nat" where
  "rest_weight h a = (case h a of Some c \<Rightarrow>
     (case co_ctx c of Resume_at b \<Rightarrow> weight b | _ \<Rightarrow> 0) | None \<Rightarrow> 0)"

definition task_weight :: "(co_addr \<Rightarrow> coroutine option) \<Rightarrow> invocable \<Rightarrow> nat" where
  "task_weight h t =
     (case coroutine_ptr t of
        Some a \<Rightarrow> rest_weight h a
      | None \<Rightarrow> (case callback t of Some f \<Rightarrow> weight f | None \<Rightarrow> 0))"

definition load :: "(co_addr \<Rightarrow> coroutine option) \<Rightarrow> invocable list \<Rightarrow> nat" where
  "load h ts = sum_list (map (task_weight h) ts)"

lemma load_simps [simp]:
  "load h [] = 0" "load h (t # ts) = task_weight h t + load h ts"
  "load h (ts @ us) = load h ts + load h us"
  by (simp_all add: load_def)

lemma load_requests:
  "\<forall>r\<in>set rs. calm_request al me r \<Longrightarrow>
   load h (map item_of rs) = sum_list (map request_weight rs)"
proof (induction rs)
  case Nil
  then show ?case by simp
next
  case (Cons r rs)
  then show ?case by (cases r) (auto simp: task_weight_def wrap_callback_def)
qed

definition ptrs :: "invocable list \<Rightarrow> co_addr list" where
  "ptrs ts = List.map_filter coroutine_ptr ts"

lemma ptrs_simps [simp]:
  "ptrs [] = []" "ptrs (ts @ us) = ptrs ts @ ptrs us"
  "ptrs (t # ts) = (case coroutine_ptr t of None \<Rightarrow> ptrs ts | Some a \<Rightarrow> a # ptrs ts)"
  by (simp_all add: ptrs_def List.map_filter_def split: option.split)

lemma set_ptrs: "a \<in> set (ptrs ts) \<longleftrightarrow> (\<exists>t\<in>set ts. coroutine_ptr t = Some a)"
  by (induction ts) (auto split: option.splits)

lemma load_cong: "(\<And>a. a \<in> set (ptrs ts) \<Longrightarrow> h a = h' a) \<Longrightarrow> load h ts = load h' ts"
proof (induction ts)
  case Nil
  then show ?case by simp
next
  case (Cons t ts)
  then show ?case by (cases "coroutine_ptr t") (auto simp: task_weight_def rest_weight_def)
qed

lemma ptrs_requests:
  "\<forall>r\<in>set rs. calm_request al me r \<Longrightarrow> ptrs (map item_of rs) = []"
proof (induction rs)
  case Nil
  then show ?case by simp
next
  case (Cons r rs)
  then show ?case by (cases r) (auto simp: wrap_callback_def)
qed

text \<open>
  The worlds in which a thread \<open>me\<close> whose scheduling coroutine is \<open>s\<close> drains its list: idle
  coroutine \<open>i\<close>, temporary coroutine, current task's coroutine and the listed coroutines are
  different objects, each in the state its role asks for.
\<close>

definition plain_co :: "coroutine \<Rightarrow> bool" where
  "plain_co c \<longleftrightarrow> stackFrame c \<and> stackSize c \<noteq> 0 \<and> \<not> isDummyMainCoroutine c"

text \<open>
  The thread's main coroutine exists and has no stack of its own; the scheduling coroutine is
  executing, and is the main coroutine or the dummy main coroutine.
\<close>

definition base_ok :: "os_env \<Rightarrow> co_addr \<Rightarrow> cworld \<Rightarrow> bool" where
  "base_ok E s w \<longleftrightarrow> good_env E \<and> cur w = Some s \<and> sched_co w = Some s \<and>
     (\<forall>a. heap w a \<noteq> None \<longrightarrow> a < free_addr w) \<and>
     (\<exists>m dm. main_co w = Some m \<and> heap w m = Some dm \<and> \<not> stackFrame dm \<and>
       (\<exists>d. heap w s = Some d \<and> co_st d = kExec \<and> (s \<noteq> m \<longrightarrow> isDummyMainCoroutine d)))"

definition idle_ok :: "coroutine \<Rightarrow> bool" where
  "idle_ok c \<longleftrightarrow> plain_co c \<and>
     (co_st c = kInit \<and> co_ctx c = Entry \<and> co_func c = Some Handle_idle \<or>
      co_st c = kHold \<and> co_ctx c = Resume_at Handle_idle \<or> co_st c = kTerminal)"

definition task_ok ::
  "(nat \<Rightarrow> bool) \<Rightarrow> pthread_t \<Rightarrow> (co_addr \<Rightarrow> coroutine option) \<Rightarrow> invocable \<Rightarrow> bool" where
  "task_ok al me h t \<longleftrightarrow> eligible me t \<and>
     (case coroutine_ptr t of
        None \<Rightarrow> (\<exists>f. callback t = Some f \<and> calm al me f)
      | Some a \<Rightarrow> (\<exists>c b. h a = Some c \<and> plain_co c \<and> co_st c = kReady \<and> co_ctx c = Resume_at b \<and>
                     calm al me b))"

definition drain_ok ::
  "os_env \<Rightarrow> (nat \<Rightarrow> bool) \<Rightarrow> pthread_t \<Rightarrow> co_addr \<Rightarrow> co_addr \<Rightarrow> co_addr option \<Rightarrow>
   co_addr option \<Rightarrow> invocable list \<Rightarrow> cworld \<Rightarrow> bool" where
  "drain_ok E al me s i tmp curt ts w \<longleftrightarrow>
     base_ok E s w \<and>
     (\<exists>c. heap w i = Some c \<and> idle_ok c) \<and>
     (\<forall>a. tmp = Some a \<longrightarrow> (\<exists>c. heap w a = Some c \<and> plain_co c \<and> co_st c = kInit)) \<and>
     (\<forall>a. curt = Some a \<longrightarrow> (\<exists>c. heap w a = Some c \<and> plain_co c \<and> co_st c = kTerminal)) \<and>
     (\<forall>t\<in>set ts. task_ok al me (heap w) t) \<and>
     distinct (s # i # ptrs ts) \<and>
     (\<forall>a. tmp = Some a \<longrightarrow> a \<noteq> s \<and> a \<noteq> i \<and> a \<notin> set (ptrs ts) \<and> curt \<noteq> Some a) \<and>
     (\<forall>a. curt = Some a \<longrightarrow> a \<noteq> s \<and> a \<noteq> i \<and> a \<notin> set (ptrs ts))"

lemma drain_okI:
  assumes "base_ok E s w" "heap w i = Some c" "idle_ok c"
    and "\<And>a. tmp = Some a \<Longrightarrow> \<exists>c. heap w a = Some c \<and> plain_co c \<and> co_st c = kInit"
    and "\<And>a. curt = Some a \<Longrightarrow> \<exists>c. heap w a = Some c \<and> plain_co c \<and> co_st c = kTerminal"
    and "\<And>t. t \<in> set ts \<Longrightarrow> task_ok al me (heap w) t"
    and "distinct (s # i # ptrs ts)"
    and "\<And>a. tmp = Some a \<Longrightarrow> a \<noteq> s \<and> a \<noteq> i \<and> a \<notin> set (ptrs ts) \<and> curt \<noteq> Some a"
    and "\<And>a. curt = Some a \<Longrightarrow> a \<noteq> s \<and> a \<noteq> i \<and> a \<notin> set (ptrs ts)"
  shows "drain_ok E al me s i tmp curt ts w"
  using assms unfolding drain_ok_def by blast

lemma drain_okD:
  assumes "drain_ok E al me s i tmp curt ts w"
  shows "base_ok E s w" "\<exists>c. heap w i = Some c \<and> idle_ok c"
    and "tmp = Some a \<Longrightarrow> \<exists>c. heap w a = Some c \<and> plain_co c \<and> co_st c = kInit"
    and "curt = Some a \<Longrightarrow> \<exists>c. heap w a = Some c \<and> plain_co c \<and> co_st c = kTerminal"
    and "t \<in> set ts \<Longrightarrow> task_ok al me (heap w) t"
    and "distinct (s # i # ptrs ts)"
    and "tmp = Some a \<Longrightarrow> a \<noteq> s \<and> a \<noteq> i \<and> a \<notin> set (ptrs ts) \<and> curt \<noteq> Some a"
    and "curt = Some a \<Longrightarrow> a \<noteq> s \<and> a \<noteq> i \<and> a \<notin> set (ptrs ts)"
  using assms unfolding drain_ok_def by blast+

lemma task_ok_cong:
  "(\<And>a. coroutine_ptr t = Some a \<Longrightarrow> h a = h' a) \<Longrightarrow> task_ok al me h t = task_ok al me h' t"
  by (simp add: task_ok_def split: option.split)

text \<open>A change of the world that leaves the objects of the roles alone.\<close>

lemma drain_ok_frame:
  assumes d: "drain_ok E al me s i tmp curt ts w" and b: "base_ok E s w'"
    and h: "\<And>a. a = i \<or> tmp = Some a \<or> curt = Some a \<or> a \<in> set (ptrs ts) \<Longrightarrow> heap w' a = heap w a"
  shows "drain_ok E al me s i tmp curt ts w'"
proof -
  obtain c where c: "heap w i = Some c" "idle_ok c" using drain_okD(2)[OF d] by blast
  have t: "task_ok al me (heap w') t" if "t \<in> set ts" for t
  proof -
    have "heap w' a = heap w a" if "coroutine_ptr t = Some a" for a
      using that \<open>t \<in> set ts\<close> by (intro h) (auto simp: set_ptrs)
    then show ?thesis using drain_okD(5)[OF d \<open>t \<in> set ts\<close>] task_ok_cong[of t "heap w'" "heap w"] by simp
  qed
  show ?thesis
    using d b h t c by (intro drain_okI[of E s w' i c]) (auto dest: drain_okD)
qed

lemma drain_ok_forget:
  "drain_ok E al me s i tmp curt ts w \<Longrightarrow> drain_ok E al me s i None curt ts w"
  "drain_ok E al me s i tmp curt ts w \<Longrightarrow> drain_ok E al me s i tmp None ts w"
  "drain_ok E al me s i tmp curt (t # ts) w \<Longrightarrow> drain_ok E al me s i tmp curt ts w"
  by (auto simp: drain_ok_def split: option.splits)

lemma drain_ok_requests:
  assumes "\<forall>r\<in>set rs. calm_request al me r"
  shows "drain_ok E al me s i tmp curt (ts @ map item_of rs) w = drain_ok E al me s i tmp curt ts w"
proof -
  have "task_ok al me h (item_of r)" if "r \<in> set rs" for r h
  proof -
    from that assms have "calm_request al me r" by blast
    then show ?thesis by (cases r) (auto simp: task_ok_def eligible_def wrap_callback_def)
  qed
  then show ?thesis by (auto simp: drain_ok_def ptrs_requests[OF assms])
qed

text \<open>A coroutine that was made ready joins the list.\<close>

lemma drain_ok_requeue:
  assumes "drain_ok E al me s i tmp curt ts w" "heap w a = Some c" "plain_co c" "co_st c = kReady"
    and "co_ctx c = Resume_at k" "calm al me k" "a \<noteq> s" "a \<noteq> i" "tmp \<noteq> Some a" "curt \<noteq> Some a"
    and "a \<notin> set (ptrs ts)"
  shows "drain_ok E al me s i tmp curt (ts @ [wrap_coroutine a 0]) w"
proof -
  have "task_ok al me (heap w) (wrap_coroutine a 0)"
    using assms by (auto simp: task_ok_def eligible_def wrap_coroutine_def)
  moreover have "ptrs [wrap_coroutine a 0] = [a]" by (simp add: wrap_coroutine_def)
  ultimately show ?thesis using assms by (auto simp: drain_ok_def)
qed

lemma base_ok_switched:
  assumes "base_ok E s w" "a \<noteq> s" "heap w a = Some c" "plain_co c"
  shows "base_ok E s (switched s a how w)"
  using assms by (auto simp: base_ok_def plain_co_def)

lemma base_ok_upd:
  assumes "base_ok E s w" "a \<noteq> s" "heap w a = Some c" "plain_co c"
  shows "base_ok E s (upd a g w)"
  using assms by (auto simp: base_ok_def plain_co_def split: if_splits)

lemma base_ok_delete:
  assumes "base_ok E s w" "a \<noteq> s" "heap w a = Some c" "plain_co c"
  shows "base_ok E s (w\<lparr>heap := (heap w)(a := None), co_count := n\<rparr>)"
proof -
  from assms obtain m dm where m: "main_co w = Some m" "heap w m = Some dm" "\<not> stackFrame dm"
    by (auto simp: base_ok_def)
  then have "m \<noteq> a" using assms by (auto simp: plain_co_def)
  with assms m show ?thesis by (auto simp: base_ok_def)
qed

lemma base_ok_alloc:
  assumes b: "base_ok E s w"
  shows "base_ok E s (snd (alloc c w))"
proof -
  from b obtain m dm where m: "main_co w = Some m" "heap w m = Some dm" "\<not> stackFrame dm"
    by (auto simp: base_ok_def)
  have "a < free_addr w" if "heap w a \<noteq> None" for a using b that by (auto simp: base_ok_def)
  with m b have "m < free_addr w" "s < free_addr w" by (auto simp: base_ok_def)
  with b m show ?thesis
    by (auto simp: base_ok_def alloc_def less_Suc_eq split: if_splits)
qed

lemma plain_after [simp]: "plain_co (after how c) = plain_co c"
  by (simp add: plain_co_def)

text \<open>A calm stretch of a plain coroutine.\<close>

lemma calm_swap:
  assumes b: "base_ok E s w" and c: "heap w a = Some c" "plain_co c" "co_st c \<noteq> kExec" "a \<noteq> s"
    and run: "stretch al c = Inr (run_body al f)" "calm al me f"
  shows "\<exists>rs how. swap_in E al a w = Inr (rs, switched s a how w) \<and>
    (\<forall>r\<in>set rs. calm_request al me r) \<and>
    (how = Returned \<and> sum_list (map request_weight rs) < weight f \<or>
     (\<exists>k. how = Readied k \<and> calm al me k \<and> sum_list (map request_weight rs) + weight k < weight f))"
proof -
  have r: "swap_ready E a c s w"
    using b c by (auto simp: swap_ready_def base_ok_def good_env_def plain_co_def partner_def)
  obtain rs how where body: "run_body al f = (rs, how)" "\<forall>r\<in>set rs. calm_request al me r"
      "how = Returned \<and> sum_list (map request_weight rs) < weight f \<or>
       (\<exists>k. how = Readied k \<and> calm al me k \<and> sum_list (map request_weight rs) + weight k < weight f)"
    using run_body_calm[OF run(2)] by blast
  have "\<not> is_Stuck how" using body(3) by auto
  then have "swap_in E al a w = Inr (rs, switched s a how w)"
    using run(1) by (simp add: swap_in_spec[OF r] body(1))
  with body show ?thesis by blast
qed

lemma destroy_done:
  assumes "heap w a = Some c" "plain_co c" "co_st c = kTerminal \<or> co_st c = kInit"
  shows "destroy a w = Inr (w\<lparr>heap := (heap w)(a := None), co_count := co_count w - 1\<rparr>)"
  using assms by (auto simp: destroy_def obj_def plain_co_def)

lemma release_current:
  assumes d: "drain_ok E al me s i tmp curt ts (world st)"
  shows "\<exists>w'. release V curt st = Inr (st\<lparr>world := w'\<rparr>) \<and>
    drain_ok E al me s i tmp None ts w' \<and> load (heap w') ts = load (heap (world st)) ts \<and>
    heap w' i = heap (world st) i \<and> main_co w' = main_co (world st)"
proof (cases "curt = None \<or> (\<exists>a. curt = Some a \<and>
    ((\<exists>t\<in>set (tasks_of st). coroutine_ptr t = Some a) \<or> held V (ps st) a))")
  case True
  then have "release V curt st = Inr (st\<lparr>world := world st\<rparr>)"
    by (auto simp: release_def)
  then show ?thesis using drain_ok_forget(2)[OF d] by blast
next
  case False
  then obtain a where a: "curt = Some a" "\<not> (\<exists>t\<in>set (tasks_of st). coroutine_ptr t = Some a)"
      "\<not> held V (ps st) a" by auto
  from drain_okD(4)[OF d a(1)] obtain c where
      c: "heap (world st) a = Some c" "plain_co c" "co_st c = kTerminal" by blast
  define w' where "w' = (world st)\<lparr>heap := (heap (world st))(a := None),
    co_count := co_count (world st) - 1\<rparr>"
  have "release V curt st = Inr (st\<lparr>world := w'\<rparr>)"
    using a c destroy_done[OF c(1,2)] by (simp add: release_def w'_def)
  moreover have n: "a \<noteq> s" "a \<noteq> i" "a \<notin> set (ptrs ts)" "tmp \<noteq> Some a"
    using drain_okD(8)[OF d a(1)] drain_okD(7)[OF d] a(1) by auto
  moreover have "drain_ok E al me s i tmp None ts w'"
    using base_ok_delete[OF drain_okD(1)[OF d] n(1) c(1,2)] n
    by (intro drain_ok_frame[OF drain_ok_forget(2)[OF d]]) (auto simp: w'_def)
  moreover have "load (heap w') ts = load (heap (world st)) ts"
    using n by (intro load_cong) (auto simp: w'_def)
  moreover have "heap w' i = heap (world st) i" "main_co w' = main_co (world st)"
    using n by (simp_all add: w'_def)
  ultimately show ?thesis by blast
qed

lemma drain_ok_used:
  assumes d: "drain_ok E al me s i tmp curt ts w" and x: "x = s \<or> x = i \<or> x \<in> set (ptrs ts)"
  shows "heap w x \<noteq> None"
proof -
  have "heap w a \<noteq> None" if "task_ok al me (heap w) t" "coroutine_ptr t = Some a" for t a
    using that by (auto simp: task_ok_def)
  then show ?thesis
    using x drain_okD(1,2,5)[OF d] by (auto simp: base_ok_def set_ptrs)
qed

text \<open>The coroutine that carries a callback.\<close>

lemma wrap_in_temp_ok:
  assumes d: "drain_ok (os V) al me s i (temp_coroutine st) None ts (world st)"
  shows "\<exists>a w'. wrap_in_temp V f st = Inr (a, st\<lparr>world := w', temp_coroutine := Some a\<rparr>) \<and>
    drain_ok (os V) al me s i (Some a) None ts w' \<and>
    (\<exists>c. heap w' a = Some c \<and> plain_co c \<and> co_st c = kInit \<and> co_ctx c = Entry \<and>
       co_func c = Some f) \<and> load (heap w') ts = load (heap (world st)) ts \<and>
    main_co w' = main_co (world st)"
proof (cases "temp_coroutine st")
  case (Some a)
  from drain_okD(3)[OF d Some] obtain c where
      c: "heap (world st) a = Some c" "plain_co c" "co_st c = kInit" by blast
  define w' where "w' = upd a (\<lambda>c. c\<lparr>co_func := Some f, co_ctx := Entry, co_st := kInit\<rparr>) (world st)"
  have n: "a \<noteq> s" "a \<noteq> i" "a \<notin> set (ptrs ts)" using drain_okD(7)[OF d Some] by auto
  have "getcontext_rc (os V) = 0"
    using drain_okD(1)[OF d] by (simp add: base_ok_def good_env_def)
  then have "wrap_in_temp V f st = Inr (a, st\<lparr>world := w', temp_coroutine := Some a\<rparr>)"
    using Some c by (simp add: wrap_in_temp_def reset_co_def obj_def plain_co_def w'_def)
  moreover have "drain_ok (os V) al me s i None None ts w'"
    using base_ok_upd[OF drain_okD(1)[OF d] n(1) c(1,2)] n
    by (intro drain_ok_frame[OF drain_ok_forget(1)[OF d]]) (auto simp: w'_def)
  then have "drain_ok (os V) al me s i (Some a) None ts w'"
    using n c by (auto simp: drain_ok_def w'_def plain_co_def)
  moreover have "load (heap w') ts = load (heap (world st)) ts"
    using n by (intro load_cong) (auto simp: w'_def)
  moreover have "main_co w' = main_co (world st)" by (simp add: w'_def)
  ultimately show ?thesis using c by (auto simp: w'_def plain_co_def)
next
  case None
  define a where "a = free_addr (world st)"
  define c where "c = \<lparr>co_func = Some f, isDummyMainCoroutine = False, stackFrame = True,
    stackSize = default_stack_size, co_id = next_co_id (world st), co_ctx = Entry, co_st = kInit\<rparr>"
  define w' where "w' = snd (alloc c (world st))"
  have pc: "plain_co c" by (simp add: c_def plain_co_def default_stack_size_def)
  have b: "base_ok (os V) s (world st)" using drain_okD(1)[OF d] .
  then have fresh: "heap (world st) a = None" unfolding base_ok_def a_def by force
  have used: "x \<noteq> a" if "x = s \<or> x = i \<or> x \<in> set (ptrs ts)" for x
    using drain_ok_used[OF d that] fresh by auto
  have "wrap_in_temp V f st = Inr (a, st\<lparr>world := w', temp_coroutine := Some a\<rparr>)"
    using None b
    by (auto simp: wrap_in_temp_def new_coroutine_def base_ok_def good_env_def w'_def c_def a_def
        alloc_def)
  moreover have "base_ok (os V) s w'"
    unfolding w'_def by (rule base_ok_alloc[OF b])
  then have "drain_ok (os V) al me s i None None ts w'"
    using used by (intro drain_ok_frame[OF drain_ok_forget(1)[OF d]])
      (auto simp: w'_def alloc_def a_def)
  moreover have h: "heap w' a = Some c" by (simp add: w'_def alloc_def a_def)
  moreover have "load (heap w') ts = load (heap (world st)) ts"
    using used by (intro load_cong) (auto simp: w'_def alloc_def a_def)
  moreover have "main_co w' = main_co (world st)" by (simp add: w'_def alloc_def)
  ultimately show ?thesis
    using used pc by (intro exI[of _ a] exI[of _ w']) (auto simp: drain_ok_def c_def)
qed

text \<open>What a turn promises: the list still drains, and less is left to do.\<close>

definition drains_to ::
  "senv \<Rightarrow> co_addr \<Rightarrow> nat \<Rightarrow> sthread \<Rightarrow> sthread \<Rightarrow> bool" where
  "drains_to V s bound st st' \<longleftrightarrow>
     drain_ok (os V) (alive V) (self st) s (idle_coroutine st) (temp_coroutine st')
       (current_task st') (tasks_of st') (world st') \<and>
     load (heap (world st')) (tasks_of st') < bound \<and>
     self st' = self st \<and> idle_coroutine st' = idle_coroutine st \<and>
     stopped (sch (ps st')) = stopped (sch (ps st)) \<and> tl_scheduler st' = tl_scheduler st \<and>
     main_co (world st') = main_co (world st)"

lemma drains_to_mono: "drains_to V s n st st' \<Longrightarrow> n \<le> m \<Longrightarrow> drains_to V s m st st'"
  by (simp add: drains_to_def)

lemma rest_weight_Readied [simp]: "rest_weight h a = weight k"
  if "h a = Some (after (Readied k) c)"
  using that by (simp add: rest_weight_def)

lemma callback_turn_drains:
  assumes d: "drain_ok (os V) (alive V) (self st) s (idle_coroutine st) (temp_coroutine st) None
      (tasks_of st) (world st)"
    and cu: "current_task st = None" and f: "calm (alive V) (self st) f"
  shows "\<exists>st'. callback_turn V f st = Inr st' \<and>
    drains_to V s (weight f + load (heap (world st)) (tasks_of st)) st st'"
proof -
  let ?i = "idle_coroutine st" and ?ts = "tasks_of st" and ?me = "self st" and ?al = "alive V"
  obtain a w1 c where wrap: "wrap_in_temp V f st =
        Inr (a, st\<lparr>world := w1, temp_coroutine := Some a\<rparr>)"
    and d1: "drain_ok (os V) ?al ?me s ?i (Some a) None ?ts w1"
    and c: "heap w1 a = Some c" "plain_co c" "co_st c = kInit" "co_ctx c = Entry" "co_func c = Some f"
    and ld: "load (heap w1) ?ts = load (heap (world st)) ?ts"
    and mc: "main_co w1 = main_co (world st)"
    using wrap_in_temp_ok[OF d] by blast
  have n: "a \<noteq> s" "a \<noteq> ?i" "a \<notin> set (ptrs ?ts)" "s \<notin> set (ptrs ?ts)" "s \<noteq> ?i"
    using drain_okD(6,7)[OF d1] by auto
  have b1: "base_ok (os V) s w1" using drain_okD(1)[OF d1] .
  have "stretch ?al c = Inr (run_body ?al f)" using c by (simp add: stretch_def)
  then obtain rs how where sw: "swap_in (os V) ?al a w1 = Inr (rs, switched s a how w1)"
      and rs: "\<forall>r\<in>set rs. calm_request ?al ?me r"
      and how: "how = Returned \<and> sum_list (map request_weight rs) < weight f \<or>
        (\<exists>k. how = Readied k \<and> calm ?al ?me k \<and>
           sum_list (map request_weight rs) + weight k < weight f)"
    using calm_swap[OF b1 c(1,2) _ n(1) _ f] c(3) by auto
  define w2 where "w2 = switched s a how w1"
  define st2 where "st2 = on_sch (post_requests rs)
    (st\<lparr>world := w2, temp_coroutine := Some a\<rparr>)"
  have run: "run_active V a (st\<lparr>world := w1, temp_coroutine := Some a\<rparr>) = Inr st2"
    using sw by (simp add: run_active_eq st2_def w2_def)
  have heap2: "heap w2 x = (if x = a then Some (after how c) else
      if x = s then map_option (\<lambda>d. d\<lparr>co_ctx := Thread_flow\<rparr>) (heap w1 s) else heap w1 x)" for x
    using n(1) c(1) by (simp add: w2_def)
  have d2: "drain_ok (os V) ?al ?me s ?i None None (?ts @ map item_of rs) w2"
    unfolding drain_ok_requests[OF rs]
    using n base_ok_switched[OF b1 n(1) c(1,2), of how]
    by (intro drain_ok_frame[OF drain_ok_forget(1)[OF d1]]) (auto simp: heap2 simp flip: w2_def)
  have ld2: "load (heap w2) (?ts @ map item_of rs) =
      load (heap (world st)) ?ts + sum_list (map request_weight rs)"
  proof -
    have "load (heap w2) ?ts = load (heap w1) ?ts" using n by (intro load_cong) (auto simp: heap2)
    with ld show ?thesis by (simp add: load_requests[OF rs])
  qed
  have ts2: "tasks_of st2 = ?ts @ map item_of rs" by (simp add: st2_def tasks_of_def)
  have st2: "world st2 = w2" "self st2 = ?me" "idle_coroutine st2 = ?i" "current_task st2 = None"
      "tl_scheduler st2 = tl_scheduler st" "stopped (sch (ps st2)) = stopped (sch (ps st))"
    by (simp_all add: st2_def cu)
  have mc2: "main_co w2 = main_co (world st)" by (simp add: w2_def mc)
  from how show ?thesis
  proof (elim disjE exE conjE)
    assume how: "how = Returned" and less: "sum_list (map request_weight rs) < weight f"
    define w3 where "w3 = upd a (\<lambda>c. c\<lparr>co_func := None, co_ctx := Entry, co_st := kInit\<rparr>) w2"
    have mc3: "main_co w3 = main_co (world st)" by (simp add: w3_def mc2)
    have "callback_turn V f st = Inr (st2\<lparr>world := w3\<rparr>)"
      using wrap run c b1 how
      by (simp add: callback_turn_def st2 heap2 obj_def reset_co_def plain_co_def w3_def
          base_ok_def good_env_def)
    moreover have "drain_ok (os V) ?al ?me s ?i None None (?ts @ map item_of rs) w3"
      using n c base_ok_upd[OF drain_okD(1)[OF d2] n(1), of "after how c"]
      by (intro drain_ok_frame[OF d2]) (auto simp: w3_def heap2 ptrs_requests[OF rs])
    then have "drain_ok (os V) ?al ?me s ?i (Some a) None (?ts @ map item_of rs) w3"
      using n c by (auto simp: drain_ok_def w3_def heap2 plain_co_def ptrs_requests[OF rs])
    moreover have "load (heap w3) (?ts @ map item_of rs) = load (heap w2) (?ts @ map item_of rs)"
      using n by (intro load_cong) (auto simp: w3_def ptrs_requests[OF rs])
    ultimately show ?thesis
      using less ld2 by (intro exI[of _ "st2\<lparr>world := w3\<rparr>"])
        (simp add: drains_to_def ts2 st2_def cu mc2 mc3 flip: tasks_of_def)
  next
    fix k
    assume how: "how = Readied k" and k: "calm ?al ?me k"
      and less: "sum_list (map request_weight rs) + weight k < weight f"
    define st3 where "st3 = (on_sch (co (wrap_coroutine a 0)) st2)\<lparr>temp_coroutine := None\<rparr>"
    have "callback_turn V f st = Inr st3"
      using wrap run how by (simp add: callback_turn_def st2 heap2 obj_def st3_def)
    moreover have ts3: "tasks_of st3 = (?ts @ map item_of rs) @ [wrap_coroutine a 0]"
      using ts2 by (simp add: st3_def tasks_of_def tasks.pending_post)
    moreover have "drain_ok (os V) ?al ?me s ?i None None
        ((?ts @ map item_of rs) @ [wrap_coroutine a 0]) w2"
      using n how c k
      by (intro drain_ok_requeue[OF d2, of a "after how c" k])
         (auto simp: heap2 plain_co_def ptrs_requests[OF rs])
    moreover have "task_weight (heap w2) (wrap_coroutine a 0) = weight k"
      using how by (simp add: task_weight_def wrap_coroutine_def heap2 rest_weight_def)
    ultimately show ?thesis
      using less ld2 by (intro exI[of _ st3]) (simp add: drains_to_def st3_def st2 mc2)
  qed
qed

lemma coroutine_turn_drains:
  assumes d: "drain_ok (os V) (alive V) (self st) s (idle_coroutine st) (temp_coroutine st) None
      (tasks_of st) (world st)"
    and c: "heap (world st) a = Some c" "plain_co c" "co_st c = kReady" "co_ctx c = Resume_at b"
      "calm (alive V) (self st) b"
    and n: "a \<noteq> s" "a \<noteq> idle_coroutine st" "a \<notin> set (ptrs (tasks_of st))"
      "temp_coroutine st \<noteq> Some a"
    and cu: "current_task st = Some a"
  shows "\<exists>st'. coroutine_turn V a st = Inr st' \<and>
    drains_to V s (weight b + load (heap (world st)) (tasks_of st)) st st'"
proof -
  let ?i = "idle_coroutine st" and ?ts = "tasks_of st" and ?me = "self st" and ?al = "alive V"
  let ?tmp = "temp_coroutine st" and ?w = "world st"
  have b1: "base_ok (os V) s ?w" using drain_okD(1)[OF d] .
  have ns: "s \<notin> set (ptrs ?ts)" "s \<noteq> ?i" "?tmp \<noteq> Some s"
    using drain_okD(6,7)[OF d] by auto
  have "stretch ?al c = Inr (run_body ?al b)" using c by (simp add: stretch_def)
  then obtain rs how where sw: "swap_in (os V) ?al a ?w = Inr (rs, switched s a how ?w)"
      and rs: "\<forall>r\<in>set rs. calm_request ?al ?me r"
      and how: "how = Returned \<and> sum_list (map request_weight rs) < weight b \<or>
        (\<exists>k. how = Readied k \<and> calm ?al ?me k \<and>
           sum_list (map request_weight rs) + weight k < weight b)"
    using calm_swap[OF b1 c(1,2) _ n(1) _ c(5)] c(3) by auto
  define w2 where "w2 = switched s a how ?w"
  define st2 where "st2 = on_sch (post_requests rs) (st\<lparr>world := w2\<rparr>)"
  have run: "run_active V a st = Inr st2"
    using sw by (simp add: run_active_eq st2_def w2_def)
  have heap2: "heap w2 x = (if x = a then Some (after how c) else
      if x = s then map_option (\<lambda>d. d\<lparr>co_ctx := Thread_flow\<rparr>) (heap ?w s) else heap ?w x)" for x
    using n(1) c(1) by (simp add: w2_def)
  have d2: "drain_ok (os V) ?al ?me s ?i ?tmp None (?ts @ map item_of rs) w2"
    unfolding drain_ok_requests[OF rs]
    using n ns base_ok_switched[OF b1 n(1) c(1,2), of how]
    by (intro drain_ok_frame[OF d]) (auto simp: heap2 simp flip: w2_def)
  have ld2: "load (heap w2) (?ts @ map item_of rs) =
      load (heap ?w) ?ts + sum_list (map request_weight rs)"
  proof -
    have "load (heap w2) ?ts = load (heap ?w) ?ts" using n ns by (intro load_cong) (auto simp: heap2)
    then show ?thesis by (simp add: load_requests[OF rs])
  qed
  have ts2: "tasks_of st2 = ?ts @ map item_of rs" by (simp add: st2_def tasks_of_def)
  have st2: "world st2 = w2" by (simp add: st2_def)
  have mc2: "main_co w2 = main_co (world st)" by (simp add: w2_def)
  from how show ?thesis
  proof (elim disjE exE conjE)
    assume how: "how = Returned" and less: "sum_list (map request_weight rs) < weight b"
    have "coroutine_turn V a st = Inr st2"
      using run how by (simp add: coroutine_turn_def st2 heap2 obj_def)
    moreover have "drain_ok (os V) ?al ?me s ?i ?tmp (Some a) (?ts @ map item_of rs) w2"
      using d2 n c how by (auto simp: drain_ok_def heap2 plain_co_def ptrs_requests[OF rs])
    ultimately show ?thesis
      using less ld2 ts2 by (intro exI[of _ st2]) (simp add: drains_to_def st2_def cu mc2)
  next
    fix k
    assume how: "how = Readied k" and k: "calm ?al ?me k"
      and less: "sum_list (map request_weight rs) + weight k < weight b"
    define st3 where "st3 = (on_sch (co (wrap_coroutine a 0)) st2)\<lparr>current_task := None\<rparr>"
    have "coroutine_turn V a st = Inr st3"
      using run how by (simp add: coroutine_turn_def st2 heap2 obj_def st3_def)
    moreover have ts3: "tasks_of st3 = (?ts @ map item_of rs) @ [wrap_coroutine a 0]"
      using ts2 by (simp add: st3_def tasks_of_def tasks.pending_post)
    moreover have "drain_ok (os V) ?al ?me s ?i ?tmp None
        ((?ts @ map item_of rs) @ [wrap_coroutine a 0]) w2"
      using n how c k
      by (intro drain_ok_requeue[OF d2, of a "after how c" k])
         (auto simp: heap2 plain_co_def ptrs_requests[OF rs])
    moreover have "task_weight (heap w2) (wrap_coroutine a 0) = weight k"
      using how by (simp add: task_weight_def wrap_coroutine_def heap2 rest_weight_def)
    ultimately show ?thesis
      using less ld2 by (intro exI[of _ st3]) (simp add: drains_to_def st3_def st2_def mc2)
  qed
qed

text \<open>The invariant of the loop, and one turn of it while there are tasks.\<close>

definition draining :: "senv \<Rightarrow> co_addr \<Rightarrow> sthread \<Rightarrow> bool" where
  "draining V s st \<longleftrightarrow>
     drain_ok (os V) (alive V) (self st) s (idle_coroutine st) (temp_coroutine st)
       (current_task st) (tasks_of st) (world st)"

lemma release_draining:
  assumes "draining V s st"
  shows "\<exists>w'. release V (current_task st) (st\<lparr>current_task := None\<rparr>) =
      Inr (st\<lparr>current_task := None, world := w'\<rparr>) \<and>
    drain_ok (os V) (alive V) (self st) s (idle_coroutine st) (temp_coroutine st) None
      (tasks_of st) w' \<and> load (heap w') (tasks_of st) = load (heap (world st)) (tasks_of st) \<and>
    heap w' (idle_coroutine st) = heap (world st) (idle_coroutine st) \<and>
    main_co w' = main_co (world st)"
  using release_current[of "os V" "alive V" "self st" s "idle_coroutine st" "temp_coroutine st"
      "current_task st" "tasks_of st" "st\<lparr>current_task := None\<rparr>" V] assms
  by (simp add: draining_def)

lemma sched_iter_drains:
  assumes d: "draining V s st" and ne: "tasks_of st = t # ts"
  shows "\<exists>st'. sched_iter V st = Inr (True, st') \<and>
    drains_to V s (load (heap (world st)) (tasks_of st)) st st'"
proof -
  obtain w0 where r: "release V (current_task st) (st\<lparr>current_task := None\<rparr>) =
        Inr (st\<lparr>current_task := None, world := w0\<rparr>)"
    and d0: "drain_ok (os V) (alive V) (self st) s (idle_coroutine st) (temp_coroutine st) None
        (t # ts) w0"
    and l0: "load (heap w0) (t # ts) = load (heap (world st)) (tasks_of st)"
    and m0: "main_co w0 = main_co (world st)"
    using release_draining[OF d] ne by auto
  define st0 where "st0 = st\<lparr>current_task := None, world := w0\<rparr>"
  have ok: "task_ok (alive V) (self st) (heap w0) t" using drain_okD(5)[OF d0] by simp
  have find: "find (eligible (self st0)) (tasks_of st0) = Some t"
    using ok ne by (simp add: st0_def task_ok_def tasks_of_def)
  have rm: "remove1 t (tasks_of st0) = ts" using ne by (simp add: st0_def tasks_of_def)
  have w0: "world st0 = w0" by (simp add: st0_def)
  define st1 where "st1 p = (on_sch (left_with ts) st0)\<lparr>current_task := p\<rparr>" for p
  have st1: "world (st1 p) = w0" "tasks_of (st1 p) = ts" "self (st1 p) = self st"
      "idle_coroutine (st1 p) = idle_coroutine st" "temp_coroutine (st1 p) = temp_coroutine st"
      "current_task (st1 p) = p" "tl_scheduler (st1 p) = tl_scheduler st"
      "stopped (sch (ps (st1 p))) = stopped (sch (ps st))" for p
    by (simp_all add: st1_def st0_def)
  have d1: "drain_ok (os V) (alive V) (self st) s (idle_coroutine st) (temp_coroutine st) None ts w0"
    using drain_ok_forget(3)[OF d0] .
  have to: "drains_to V s n (st1 p) st' \<longleftrightarrow> drains_to V s n st st'" for n p st'
    by (simp add: drains_to_def st1 m0)
  show ?thesis
  proof (cases "coroutine_ptr t")
    case None
    with ok obtain f where f: "callback t = Some f" "calm (alive V) (self st) f"
      by (auto simp: task_ok_def)
    obtain st' where "callback_turn V f (st1 None) = Inr st'"
        "drains_to V s (weight f + load (heap w0) ts) (st1 None) st'"
      using callback_turn_drains[of V "st1 None" s f] d1 f by (auto simp: st1)
    moreover have "sched_iter V st = res_bind (callback_turn V f (st1 None)) (\<lambda>st'. Inr (True, st'))"
      using sched_iter_callback[OF r[folded st0_def] find None f(1)] by (simp add: rm st1_def)
    moreover have "weight f + load (heap w0) ts = load (heap w0) (t # ts)"
      using None f by (simp add: task_weight_def)
    ultimately show ?thesis using l0 to by auto
  next
    case (Some a)
    with ok obtain c b where c: "heap w0 a = Some c" "plain_co c" "co_st c = kReady"
        "co_ctx c = Resume_at b" "calm (alive V) (self st) b"
      by (auto simp: task_ok_def)
    have n: "a \<noteq> s" "a \<noteq> idle_coroutine st" "a \<notin> set (ptrs ts)" "temp_coroutine st \<noteq> Some a"
      using drain_okD(6,7)[OF d0] Some by auto
    obtain st' where "coroutine_turn V a (st1 (Some a)) = Inr st'"
        "drains_to V s (weight b + load (heap w0) ts) (st1 (Some a)) st'"
      using coroutine_turn_drains[of V "st1 (Some a)" s a c b] d1 c n by (auto simp: st1)
    moreover have "sched_iter V st =
        res_bind (coroutine_turn V a (st1 (Some a))) (\<lambda>st'. Inr (True, st'))"
      using sched_iter_coroutine[OF r[folded st0_def] find Some, of c] c(1,3) w0
      by (simp add: rm st1_def)
    moreover have "weight b + load (heap w0) ts = load (heap w0) (t # ts)"
      using Some c by (simp add: task_weight_def rest_weight_def)
    ultimately show ?thesis using l0 to by auto
  qed
qed

subsection \<open>The end of the loop\<close>

lemma idle_swap_in_stopped:
  assumes r: "swap_ready (os V) (idle_coroutine st) c s (world st)"
    and c: "co_ctx c = Entry \<and> co_func c = Some Handle_idle \<or> co_ctx c = Resume_at Handle_idle"
    and stop: "is_stopped (sch (ps st))"
  shows "idle_swap_in V st =
    Inr (st\<lparr>world := switched s (idle_coroutine st) Returned (world st)\<rparr>)"
proof -
  let ?i = "idle_coroutine st" and ?w = "world st"
  from r obtain d where w: "swapcontext_rc (os V) = 0" "cur ?w = Some s" "heap ?w ?i = Some c"
      "partner c ?w = Some s" "heap ?w s = Some d" "?i \<noteq> s" "co_st c \<noteq> kExec"
    by (auto simp: swap_ready_def)
  define w2 where
    "w2 = upd s (\<lambda>d. d\<lparr>co_ctx := Thread_flow\<rparr>) (set_state ?i kExec (?w\<lparr>cur := Some ?i\<rparr>))"
  have enter: "swap_in_enter (os V) ?i ?w = Inr w2"
    unfolding w2_def using w by (intro swap_in_enter_eq) auto
  have w2: "heap w2 ?i = Some (c\<lparr>co_st := kExec\<rparr>)" "cur w2 = Some ?i"
      "partner (c\<lparr>co_st := kExec\<rparr>) w2 = Some s" "heap w2 s = Some (d\<lparr>co_ctx := Thread_flow\<rparr>)"
    using w by (auto simp: w2_def)
  have "leave (os V) ?i Returned w2 = Inr (upd ?i (after Returned) (w2\<lparr>cur := Some s\<rparr>))"
    using leave_eq[OF w(1) w2(2,1) _ w2(3,4) w(6), of Returned] by simp
  also have "upd ?i (after Returned) (w2\<lparr>cur := Some s\<rparr>) = switched s ?i Returned ?w"
    using w by (intro cworld_eqI) (auto simp: w2_def)
  finally have leave: "leave (os V) ?i Returned w2 = Inr (switched s ?i Returned ?w)" .
  have "handle_idle V (st\<lparr>world := w2\<rparr>) = Inr (Returned, st\<lparr>world := w2\<rparr>)"
    using stop by (simp add: handle_idle_def)
  then show ?thesis
    using c by (auto simp: idle_swap_in_def Let_def enter obj_def w2 leave simp del: leave.simps)
qed

text \<open>A stopped thread without tasks: the idle coroutine returns, then the loop ends.\<close>

definition idle_state :: "sthread \<Rightarrow> co_state option" where
  "idle_state st = map_option co_st (heap (world st) (idle_coroutine st))"

lemma sched_iter_last:
  assumes d: "draining V s st" and ts: "tasks_of st = []" and stop: "stopped (sch (ps st))"
  shows "\<exists>st'. sched_iter V st = Inr (idle_state st \<noteq> Some kTerminal, st') \<and> draining V s st' \<and>
    tasks_of st' = [] \<and> stopped (sch (ps st')) \<and> idle_state st' = Some kTerminal \<and>
    self st' = self st \<and> tl_scheduler st' = tl_scheduler st \<and>
    main_co (world st') = main_co (world st)"
proof -
  obtain w0 where r: "release V (current_task st) (st\<lparr>current_task := None\<rparr>) =
        Inr (st\<lparr>current_task := None, world := w0\<rparr>)"
    and d0: "drain_ok (os V) (alive V) (self st) s (idle_coroutine st) (temp_coroutine st) None [] w0"
    and keep: "heap w0 (idle_coroutine st) = heap (world st) (idle_coroutine st)"
    and m0: "main_co w0 = main_co (world st)"
    using release_draining[OF d] ts by auto
  define st1 where "st1 = on_sch (left_with []) (st\<lparr>current_task := None, world := w0\<rparr>)"
  have st1: "world st1 = w0" "tasks_of st1 = []" "self st1 = self st"
      "idle_coroutine st1 = idle_coroutine st" "temp_coroutine st1 = temp_coroutine st"
      "current_task st1 = None" "tl_scheduler st1 = tl_scheduler st" "stopped (sch (ps st1))"
    using stop by (simp_all add: st1_def)
  have iter: "sched_iter V st = idle_turn V st1"
    using sched_iter_idle[OF r] ts by (simp add: st1_def)
  have b: "base_ok (os V) s w0" using drain_okD(1)[OF d0] .
  obtain c where c: "heap w0 (idle_coroutine st) = Some c" "idle_ok c"
    using drain_okD(2)[OF d0] by blast
  have ni: "idle_coroutine st \<noteq> s" using drain_okD(6)[OF d0] by auto
  show ?thesis
  proof (cases "co_st c = kTerminal")
    case True
    then have "idle_turn V st1 = Inr (False, st1)"
      using c by (simp add: idle_turn_def st1 obj_def Let_def)
    then show ?thesis
      using True iter st1 d0 c keep m0 by (auto simp: draining_def idle_state_def)
  next
    case False
    define st2 where "st2 = on_sch (\<lambda>s. s\<lparr>idleThreadNum := idleThreadNum s + 1\<rparr>) st1"
    define w1 where "w1 = switched s (idle_coroutine st) Returned w0"
    define st3 where "st3 = on_sch (\<lambda>s. s\<lparr>idleThreadNum := idleThreadNum s - 1\<rparr>) (st2\<lparr>world := w1\<rparr>)"
    have pc: "plain_co c" "co_st c \<noteq> kExec"
        "co_ctx c = Entry \<and> co_func c = Some Handle_idle \<or> co_ctx c = Resume_at Handle_idle"
      using c(2) False by (auto simp: idle_ok_def)
    have "swap_ready (os V) (idle_coroutine st2) c s (world st2)"
      using b c pc ni by (auto simp: swap_ready_def base_ok_def good_env_def plain_co_def partner_def
          st2_def st1)
    moreover have "is_stopped (sch (ps st2))"
      using st1 by (simp add: is_stopped_def st2_def tasks_of_def)
    ultimately have "idle_swap_in V st2 = Inr (st2\<lparr>world := w1\<rparr>)"
      using idle_swap_in_stopped[of V st2 c s] pc(3) by (simp add: w1_def st2_def st1)
    then have "idle_turn V st1 = Inr (True, st3)"
      using c False ni
      by (simp add: idle_turn_def st1 obj_def Let_def st2_def[symmetric] st3_def[symmetric])
         (simp add: st3_def st2_def st1 w1_def)
    moreover have "drain_ok (os V) (alive V) (self st) s (idle_coroutine st) (temp_coroutine st) None
        [] w1"
      using d0 ni c pc drain_okD(3,7)[OF d0] base_ok_switched[OF b ni c(1) pc(1), of Returned]
      by (intro drain_okI[of _ _ _ _ "after Returned c"])
         (auto simp: w1_def idle_ok_def plain_co_def)
    moreover have "heap w1 (idle_coroutine st) = Some (after Returned c)" "main_co w1 = main_co w0"
      using ni c by (simp_all add: w1_def)
    moreover have "world st3 = w1" "tasks_of st3 = []" "self st3 = self st"
      "idle_coroutine st3 = idle_coroutine st" "temp_coroutine st3 = temp_coroutine st"
      "current_task st3 = None" "tl_scheduler st3 = tl_scheduler st" "stopped (sch (ps st3))"
      using st1 by (simp_all add: st3_def st2_def tasks_of_def)
    ultimately show ?thesis
      using False iter c keep m0 by (auto simp: draining_def idle_state_def)
  qed
qed

text \<open>A thread of a stopped scheduler runs everything that is left, then its loop ends.\<close>

lemma sched_loop_drains:
  assumes "draining V s st" "stopped (sch (ps st))"
  shows "\<exists>st'. sched_loop V st = Some (Inr st') \<and> draining V s st' \<and> tasks_of st' = [] \<and>
    stopped (sch (ps st')) \<and> idle_state st' = Some kTerminal \<and> self st' = self st \<and>
    tl_scheduler st' = tl_scheduler st \<and> main_co (world st') = main_co (world st)"
  using assms
proof (induction "load (heap (world st)) (tasks_of st)" arbitrary: st rule: less_induct)
  case less
  show ?case
  proof (cases "tasks_of st")
    case (Cons t ts)
    obtain st' where st': "sched_iter V st = Inr (True, st')"
        "drains_to V s (load (heap (world st)) (tasks_of st)) st st'"
      using sched_iter_drains[OF less.prems(1) Cons] by blast
    have "draining V s st'" using st'(2) by (simp add: drains_to_def draining_def)
    then show ?thesis
      using less.hyps[of st'] st' less.prems(2)
      by (auto simp: drains_to_def sched_loop.simps[of V st])
  next
    case Nil
    obtain st' where st': "sched_iter V st = Inr (idle_state st \<noteq> Some kTerminal, st')"
        "draining V s st'" "tasks_of st' = []" "stopped (sch (ps st'))"
        "idle_state st' = Some kTerminal" "self st' = self st" "tl_scheduler st' = tl_scheduler st"
        "main_co (world st') = main_co (world st)"
      using sched_iter_last[OF less.prems(1) Nil less.prems(2)] by blast
    obtain st'' where st'': "sched_iter V st' = Inr (False, st'')"
        "draining V s st''" "tasks_of st'' = []" "stopped (sch (ps st''))"
        "idle_state st'' = Some kTerminal" "self st'' = self st'" "tl_scheduler st'' = tl_scheduler st'"
        "main_co (world st'') = main_co (world st')"
      using sched_iter_last[OF st'(2,3,4)] st'(5) by auto
    show ?thesis
      using st' st'' by (cases "idle_state st \<noteq> Some kTerminal")
        (auto simp: sched_loop.simps[of V st] sched_loop.simps[of V st'])
  qed
qed

subsection \<open>The whole scheduling function\<close>

text \<open>The tasks a thread finds when it starts: each fit to run here, no coroutine listed twice.\<close>

definition tasks_ready :: "senv \<Rightarrow> sthread \<Rightarrow> bool" where
  "tasks_ready V st \<longleftrightarrow>
     (\<forall>t\<in>set (tasks_of st). task_ok (alive V) (self st) (heap (world st)) t) \<and>
     distinct (ptrs (tasks_of st)) \<and>
     (\<forall>a. heap (world st) a \<noteq> None \<longrightarrow> a < free_addr (world st))"

text \<open>Creating the idle coroutine in a thread whose scheduling coroutine is set.\<close>

lemma new_idle_draining:
  assumes b: "base_ok (os V) s w" and s: "s \<notin> set (ptrs (tasks_of st))"
    and t: "\<forall>t\<in>set (tasks_of st). task_ok (alive V) (self st) (heap w) t"
    and p: "distinct (ptrs (tasks_of st))"
  shows "\<exists>i w'. new_coroutine (os V) (Some Handle_idle) default_stack_size False w = Inr (i, w') \<and>
    draining V s (st\<lparr>world := w', idle_coroutine := i, temp_coroutine := None,
      current_task := None\<rparr>)"
proof -
  define c where "c = \<lparr>co_func = Some Handle_idle, isDummyMainCoroutine = False, stackFrame = True,
    stackSize = default_stack_size, co_id = next_co_id w, co_ctx = Entry, co_st = kInit\<rparr>"
  define w' where "w' = snd (alloc c w)"
  define i where "i = free_addr w"
  have "new_coroutine (os V) (Some Handle_idle) default_stack_size False w = Inr (i, w')"
    using b by (auto simp: new_coroutine_def base_ok_def good_env_def w'_def c_def i_def alloc_def)
  moreover have fresh: "heap w i = None" using b unfolding base_ok_def i_def by force
  have b': "base_ok (os V) s w'"
    unfolding w'_def by (rule base_ok_alloc[OF b])
  have hp: "heap w' x = (if x = i then Some c else heap w x)" for x
    by (simp add: w'_def alloc_def i_def)
  have ptr: "a \<noteq> i" if "t \<in> set (tasks_of st)" "coroutine_ptr t = Some a" for t a
    using bspec[OF assms(3) that(1)] that(2) fresh by (auto simp: task_ok_def)
  have "task_ok (alive V) (self st) (heap w') u" if "u \<in> set (tasks_of st)" for u
  proof -
    have "task_ok (alive V) (self st) (heap w') u = task_ok (alive V) (self st) (heap w) u"
      using ptr[OF that] by (intro task_ok_cong) (simp add: hp)
    with assms(3) that show ?thesis by simp
  qed
  moreover have "i \<notin> set (ptrs (tasks_of st))" using ptr by (auto simp: set_ptrs)
  moreover have "s \<noteq> i" using b fresh by (auto simp: base_ok_def)
  moreover have "idle_ok c" by (simp add: idle_ok_def c_def plain_co_def default_stack_size_def)
  moreover have "heap w' i = Some c" by (simp add: hp)
  ultimately have "drain_ok (os V) (alive V) (self st) s i None None (tasks_of st) w'"
    using b' s p by (intro drain_okI[of _ _ _ _ c]) auto
  with \<open>new_coroutine _ _ _ _ w = Inr (i, w')\<close> show ?thesis
    by (intro exI[of _ i] exI[of _ w']) (simp add: draining_def)
qed

lemma pool_prologue:
  assumes E: "good_env (os V)" and tl: "tl_scheduler st = None" "cur (world st) = None"
      "main_co (world st) = None" "sched_co (world st) = None"
    and pool: "dummyMainCoroutine (sch (ps st)) = None \<or>
      self st \<noteq> dummyMainTrdPthreadId (sch (ps st))"
    and r: "tasks_ready V st"
  shows "\<exists>st1. scheduling_prologue V st = Inr st1 \<and> draining V (free_addr (world st)) st1 \<and>
    ps st1 = ps st \<and> self st1 = self st"
proof -
  define s where "s = free_addr (world st)"
  define c where "c = \<lparr>co_func = None, isDummyMainCoroutine = False, stackFrame = False,
    stackSize = 0, co_id = next_co_id (world st), co_ctx = Thread_flow, co_st = kExec\<rparr>"
  define w1 where "w1 = (snd (alloc c (world st)))\<lparr>main_co := Some s, cur := Some s\<rparr>"
  define w2 where "w2 = w1\<lparr>sched_co := Some s\<rparr>"
  define st1 where "st1 = st\<lparr>tl_scheduler := Some (this V), tl_enable_hook := True\<rparr>"
  have fresh: "heap (world st) s = None" using r unfolding tasks_ready_def s_def by force
  have ptr: "a \<noteq> s" if "t \<in> set (tasks_of st)" "coroutine_ptr t = Some a" for t a
    using r that fresh by (auto simp: tasks_ready_def task_ok_def)
  have "base_ok (os V) s w2"
    using E r by (auto simp: base_ok_def w2_def w1_def alloc_def s_def c_def tasks_ready_def
        less_Suc_eq split: if_splits)
  moreover have "task_ok (alive V) (self st) (heap w2) u" if "u \<in> set (tasks_of st)" for u
  proof -
    have "task_ok (alive V) (self st) (heap w2) u = task_ok (alive V) (self st) (heap (world st)) u"
      using ptr[OF that] by (intro task_ok_cong) (auto simp: w2_def w1_def alloc_def s_def)
    with r that show ?thesis by (simp add: tasks_ready_def)
  qed
  moreover have "s \<notin> set (ptrs (tasks_of st))" using ptr by (auto simp: set_ptrs)
  moreover have "tasks_of st1 = tasks_of st" "self st1 = self st"
    by (simp_all add: st1_def tasks_of_def)
  ultimately obtain i w3 where n:
      "new_coroutine (os V) (Some Handle_idle) default_stack_size False w2 = Inr (i, w3)"
      "draining V s (st1\<lparr>world := w3, idle_coroutine := i, temp_coroutine := None,
        current_task := None\<rparr>)"
    using new_idle_draining[of V s w2 st1] r by (auto simp: tasks_ready_def)
  have "scheduling_prologue V st = Inr (st1\<lparr>world := w3, idle_coroutine := i,
      temp_coroutine := None, current_task := None\<rparr>)"
  proof -
    have gm: "get_main (os V) (world st) = Inr (Some s, w1)"
      using tl E by (simp add: get_main_def new_main_coroutine_def good_env_def w1_def c_def s_def
          alloc_def)
    have ss: "set_scheduling_coroutine (Some s) w1 = Inr w2"
      using tl by (simp add: set_scheduling_coroutine_def w1_def w2_def alloc_def)
    have gm2: "get_main (os V) w2 = Inr (Some s, w2)"
      by (simp add: get_main_def w2_def w1_def)
    have "sched_co w2 = Some s" by (simp add: w2_def)
    then show ?thesis
      using tl(1) pool
      by (auto simp: scheduling_prologue_def set_scheduler_def enable_hook_def Let_def gm ss gm2 n(1)
          st1_def)
  qed
  with n(2) show ?thesis by (auto simp: s_def st1_def)
qed

lemma dummy_prologue:
  assumes b: "base_ok (os V) d ((world st)\<lparr>sched_co := Some d\<rparr>)"
    and tl: "tl_scheduler st = None" "sched_co (world st) = None" "main_co (world st) \<noteq> Some d"
    and dummy: "dummyMainCoroutine (sch (ps st)) = Some d"
      "self st = dummyMainTrdPthreadId (sch (ps st))"
    and r: "tasks_ready V st" "d \<notin> set (ptrs (tasks_of st))"
  shows "\<exists>st1. scheduling_prologue V st = Inr st1 \<and> draining V d st1 \<and>
    ps st1 = ps st \<and> self st1 = self st"
proof -
  define w2 where "w2 = (world st)\<lparr>sched_co := Some d\<rparr>"
  define st1 where "st1 = st\<lparr>tl_scheduler := Some (this V), tl_enable_hook := True\<rparr>"
  have cu: "cur (world st) = Some d" using b by (simp add: base_ok_def)
  have "heap w2 = heap (world st)" "tasks_of st1 = tasks_of st" "self st1 = self st"
    by (simp_all add: w2_def st1_def tasks_of_def)
  then obtain i w3 where n:
      "new_coroutine (os V) (Some Handle_idle) default_stack_size False w2 = Inr (i, w3)"
      "draining V d (st1\<lparr>world := w3, idle_coroutine := i, temp_coroutine := None,
        current_task := None\<rparr>)"
    using new_idle_draining[of V d w2 st1] b r by (auto simp: tasks_ready_def w2_def)
  have gm: "get_main (os V) (world st) = Inr (main_co (world st), world st)"
      "get_main (os V) w2 = Inr (main_co w2, w2)"
    using cu by (simp_all add: get_main_def w2_def)
  have ss: "set_scheduling_coroutine (Some d) (world st) = Inr w2"
    using tl by (simp add: set_scheduling_coroutine_def w2_def)
  have "get_current w2 = Inr d" "main_co w2 \<noteq> Some d"
    using cu tl by (simp_all add: get_current_def w2_def)
  then have "scheduling_prologue V st = Inr (st1\<lparr>world := w3, idle_coroutine := i,
      temp_coroutine := None, current_task := None\<rparr>)"
    using tl(1) dummy
    by (auto simp: scheduling_prologue_def set_scheduler_def enable_hook_def Let_def gm ss n(1) st1_def)
  with n(2) show ?thesis by (auto simp: st1_def)
qed

lemma release_done:
  assumes b: "base_ok E s (w\<lparr>sched_co := Some s\<rparr>)" and w: "world st = w"
    and p: "\<And>a. p = Some a \<Longrightarrow> a \<noteq> s \<and>
      (\<exists>c. heap w a = Some c \<and> plain_co c \<and> (co_st c = kTerminal \<or> co_st c = kInit))"
  shows "\<exists>w'. release V p st = Inr (st\<lparr>world := w'\<rparr>) \<and> base_ok E s (w'\<lparr>sched_co := Some s\<rparr>) \<and>
    sched_co w' = sched_co w \<and> main_co w' = main_co w \<and> (\<forall>x. p \<noteq> Some x \<longrightarrow> heap w' x = heap w x)"
proof (cases "p = None \<or> (\<exists>a. p = Some a \<and>
    ((\<exists>t\<in>set (tasks_of st). coroutine_ptr t = Some a) \<or> held V (ps st) a))")
  case True
  then have "release V p st = Inr (st\<lparr>world := w\<rparr>)" using w by (auto simp: release_def)
  with b show ?thesis by blast
next
  case False
  then obtain a where a: "p = Some a" "\<not> (\<exists>t\<in>set (tasks_of st). coroutine_ptr t = Some a)"
      "\<not> held V (ps st) a" by auto
  with p obtain c where c: "a \<noteq> s" "heap w a = Some c" "plain_co c"
      "co_st c = kTerminal \<or> co_st c = kInit" by blast
  have "release V p st =
      Inr (st\<lparr>world := w\<lparr>heap := (heap w)(a := None), co_count := co_count w - 1\<rparr>\<rparr>)"
    using a destroy_done[OF c(2,3,4)] w by (simp add: release_def)
  moreover have "base_ok E s
      ((w\<lparr>heap := (heap w)(a := None), co_count := co_count w - 1\<rparr>)\<lparr>sched_co := Some s\<rparr>)"
  proof -
    have eq: "(w\<lparr>heap := (heap w)(a := None), co_count := co_count w - 1\<rparr>)\<lparr>sched_co := Some s\<rparr>
      = (w\<lparr>sched_co := Some s\<rparr>)\<lparr>heap := (heap (w\<lparr>sched_co := Some s\<rparr>))(a := None),
          co_count := co_count w - 1\<rparr>" by simp
    show ?thesis unfolding eq using c by (intro base_ok_delete[OF b c(1)]) simp_all
  qed
  ultimately show ?thesis
    using a by (intro exI[of _ "w\<lparr>heap := (heap w)(a := None), co_count := co_count w - 1\<rparr>"]) simp
qed

lemma draining_epilogue:
  assumes d: "draining V s st" and ts: "tasks_of st = []" and i: "idle_state st = Some kTerminal"
  shows "\<exists>w'. scheduling_epilogue V st = Inr (st\<lparr>world := w', tl_scheduler := None,
      current_task := None, temp_coroutine := None\<rparr>) \<and>
    base_ok (os V) s (w'\<lparr>sched_co := Some s\<rparr>) \<and> sched_co w' = None \<and>
    main_co w' = main_co (world st)"
proof -
  define w where "w = (world st)\<lparr>sched_co := None\<rparr>"
  note dD = drain_okD[OF d[unfolded draining_def]]
  have b: "base_ok (os V) s (w\<lparr>sched_co := Some s\<rparr>)"
    using dD(1) by (simp add: w_def base_ok_def)
  obtain ci where ci: "heap w (idle_coroutine st) = Some ci" "plain_co ci" "co_st ci = kTerminal"
    using dD(2) i by (auto simp: idle_state_def w_def idle_ok_def)
  define st1 where "st1 = st\<lparr>world := w, tl_scheduler := None\<rparr>"
  obtain w1 where w1: "release V (current_task st) (st1\<lparr>current_task := None\<rparr>) =
        Inr (st1\<lparr>current_task := None, world := w1\<rparr>)"
      "base_ok (os V) s (w1\<lparr>sched_co := Some s\<rparr>)" "sched_co w1 = None" "main_co w1 = main_co w"
      "\<And>x. current_task st \<noteq> Some x \<Longrightarrow> heap w1 x = heap w x"
    using release_done[OF b, of "st1\<lparr>current_task := None\<rparr>" "current_task st" V] dD(4,8)
    by (fastforce simp: st1_def w_def)
  define st2 where "st2 = st1\<lparr>current_task := None, world := w1, temp_coroutine := None\<rparr>"
  obtain w2 where w2: "release V (temp_coroutine st) st2 = Inr (st2\<lparr>world := w2\<rparr>)"
      "base_ok (os V) s (w2\<lparr>sched_co := Some s\<rparr>)" "sched_co w2 = None" "main_co w2 = main_co w"
      "\<And>x. temp_coroutine st \<noteq> Some x \<Longrightarrow> heap w2 x = heap w1 x"
  proof -
    have "a \<noteq> s \<and> (\<exists>c. heap w1 a = Some c \<and> plain_co c \<and> (co_st c = kTerminal \<or> co_st c = kInit))"
      if "temp_coroutine st = Some a" for a
      using dD(3,7)[OF that] w1(5)[of a] by (auto simp: w_def)
    from release_done[OF w1(2), of st2 "temp_coroutine st" V] this w1(3,4) that show thesis
      by (force simp: st2_def)
  qed
  have idle: "heap w2 (idle_coroutine st) = Some ci" "idle_coroutine st \<noteq> s"
  proof -
    have "temp_coroutine st \<noteq> Some (idle_coroutine st)" "current_task st \<noteq> Some (idle_coroutine st)"
      using dD(7,8) by auto
    with w1(5) w2(5) ci show "heap w2 (idle_coroutine st) = Some ci" by simp
    show "idle_coroutine st \<noteq> s" using dD(6) by auto
  qed
  obtain w3 where w3: "release V (Some (idle_coroutine st)) (st2\<lparr>world := w2\<rparr>) =
        Inr (st2\<lparr>world := w3\<rparr>)"
      "base_ok (os V) s (w3\<lparr>sched_co := Some s\<rparr>)" "sched_co w3 = None" "main_co w3 = main_co w"
    using release_done[OF w2(2), of "st2\<lparr>world := w2\<rparr>" "Some (idle_coroutine st)" V] idle ci w2(3,4)
    by fastforce
  have "scheduling_epilogue V st = Inr (st2\<lparr>world := w3\<rparr>)"
    using w1(1) w2(1) w3(1)
    by (simp add: scheduling_epilogue_def set_scheduling_coroutine_def set_scheduler_def
        st1_def st2_def w_def)
  with w3 show ?thesis by (intro exI[of _ w3]) (simp add: st2_def st1_def w_def)
qed

text \<open>Prologue, loop and epilogue together.\<close>

lemma scheduling_func_drains:
  assumes "scheduling_prologue V st = Inr st1" "draining V s st1" "stopped (sch (ps st1))"
  shows "\<exists>st'. scheduling_func V st = Inr st' \<and> tasks_of st' = [] \<and> stopped (sch (ps st')) \<and>
    tl_scheduler st' = None \<and> sched_co (world st') = None \<and> self st' = self st1 \<and>
    base_ok (os V) s ((world st')\<lparr>sched_co := Some s\<rparr>) \<and> main_co (world st') = main_co (world st1)"
proof -
  obtain st2 where st2: "sched_loop V st1 = Some (Inr st2)" "draining V s st2" "tasks_of st2 = []"
      "stopped (sch (ps st2))" "idle_state st2 = Some kTerminal" "self st2 = self st1"
      "main_co (world st2) = main_co (world st1)"
    using sched_loop_drains[OF assms(2,3)] by blast
  from draining_epilogue[OF st2(2,3,5)] st2 assms(1) show ?thesis
    by (auto simp: scheduling_func_def)
qed

section \<open>Other turns\<close>

lemma sched_iter_False:
  assumes "sched_iter V st = Inr (False, st')"
  shows "find (eligible (self st')) (tasks_of st') = None \<and> idle_state st' = Some kTerminal"
proof -
  from assms obtain st0 t s1 where st0: "release V (current_task st) (st\<lparr>current_task := None\<rparr>) = Inr st0"
      "take_task (self st0) (heap (world st0)) (sch (ps st0)) = Inr (t, s1)"
      "(case t of None \<Rightarrow> idle_turn V (on_sch (\<lambda>_. s1) st0)
        | Some t \<Rightarrow> let st2 = (on_sch (\<lambda>_. s1) st0)\<lparr>current_task := coroutine_ptr t\<rparr> in
         if runnable_task t (world st2) then
           res_bind (deref (coroutine_ptr t)) (\<lambda>a.
           res_bind (coroutine_turn V a st2) (\<lambda>st3. Inr (True, st3)))
         else
           (case callback t of
              Some f \<Rightarrow> res_bind (callback_turn V f st2) (\<lambda>st3. Inr (True, st3))
            | None \<Rightarrow> Inr (True, st2))) = Inr (False, st')"
    by (auto simp: sched_iter_def res_bind_eq_Inr Let_def)
  then have t: "t = None"
    by (auto simp: Let_def res_bind_eq_Inr split: option.splits if_splits)
  with st0(2) have none: "find (eligible (self st0)) (tasks_of st0) = None"
      and s1: "s1 = left_with (tasks_of st0) (sch (ps st0))"
    using take_task_Some[of "self st0" "sch (ps st0)" _ "heap (world st0)"]
      take_task_unfit[of "self st0" "sch (ps st0)" _ "heap (world st0)"]
      take_task_None[of "self st0" "sch (ps st0)" "heap (world st0)"]
    by (cases "find (eligible (self st0)) (taskList (sch (ps st0)))"; force simp: tasks_of_def)+
  from st0(3) t have "idle_turn V (on_sch (\<lambda>_. s1) st0) = Inr (False, st')" by simp
  then have "st' = on_sch (\<lambda>_. s1) st0" "idle_state st' = Some kTerminal"
    by (auto simp: idle_turn_def Let_def res_bind_eq_Inr obj_def idle_state_def split: if_splits)
  with none s1 show ?thesis by (simp add: tasks_of_def)
qed

lemma sched_loop_Some:
  assumes "sched_loop V st = Some r"
  shows "case r of Inl _ \<Rightarrow> True | Inr st' \<Rightarrow>
    find (eligible (self st')) (tasks_of st') = None \<and> idle_state st' = Some kTerminal"
proof (rule sched_loop.raw_induct[OF _ assms])
  fix loop :: "senv \<Rightarrow> sthread \<Rightarrow> sthread res option" and V st and r :: "sthread res"
  assume "\<And>V st r. loop V st = Some r \<Longrightarrow> case r of Inl _ \<Rightarrow> True | Inr st' \<Rightarrow>
      find (eligible (self st')) (tasks_of st') = None \<and> idle_state st' = Some kTerminal"
  then have IH: "find (eligible (self u)) (tasks_of u) = None \<and> idle_state u = Some kTerminal"
    if "loop V' st' = Some (Inr u)" for V' st' u
    using that by fastforce
  assume "(case sched_iter V st of Inl e \<Rightarrow> Some (Inl e)
      | Inr (go, st') \<Rightarrow> if go then loop V st' else Some (Inr st')) = Some r"
  then show "case r of Inl _ \<Rightarrow> True | Inr st' \<Rightarrow>
      find (eligible (self st')) (tasks_of st') = None \<and> idle_state st' = Some kTerminal"
    by (auto split: sum.splits prod.splits if_splits dest: sched_iter_False IH)
qed

lemma stop_request_running:
  assumes "\<not> stopped s" "dummyMainCoroutine s = Some d" "me = dummyMainTrdPthreadId s"
  shows "\<exists>s1. stop_request me s = Inr (True, s1) \<and> taskList s1 = taskList s \<and> stopped s1 \<and>
    dummyMainCoroutine s1 = Some d \<and> dummyMainTrdPthreadId s1 = dummyMainTrdPthreadId s"
  using assms by (simp add: stop_request_def Let_def)

text \<open>The switch into the dummy main coroutine leaves a world in which it can schedule.\<close>

lemma enter_dummy:
  assumes w: "good_env E" "cur w = Some m" "main_co w = Some m" "heap w m = Some dm"
      "\<not> stackFrame dm" "heap w d = Some c" "stackFrame c" "isDummyMainCoroutine c"
      "co_st c = kInit" "\<forall>a. heap w a \<noteq> None \<longrightarrow> a < free_addr w"
  defines "w1 \<equiv> upd m (\<lambda>x. x\<lparr>co_ctx := Thread_flow\<rparr>) (set_state d kExec (w\<lparr>cur := Some d\<rparr>))"
  shows "swap_in_enter E d w = Inr w1" "base_ok E d (w1\<lparr>sched_co := Some d\<rparr>)" "m \<noteq> d"
proof -
  show "m \<noteq> d" using w by auto
  then show "swap_in_enter E d w = Inr w1"
    unfolding w1_def using w
    by (intro swap_in_enter_eq[where c = c and d = dm]) (auto simp: good_env_def partner_def)
  show "base_ok E d (w1\<lparr>sched_co := Some d\<rparr>)"
    using w \<open>m \<noteq> d\<close> by (auto simp: base_ok_def w1_def)
qed

lemma task_not_stackless:
  assumes "tasks_ready V st" "heap (world st) m = Some dm" "\<not> stackFrame dm"
  shows "m \<notin> set (ptrs (tasks_of st))"
  using assms by (auto simp: tasks_ready_def set_ptrs task_ok_def plain_co_def)

lemma tasks_ready_frame:
  assumes "tasks_ready V st" "tasks_of st' = tasks_of st" "self st' = self st"
    and "\<And>a. a \<in> set (ptrs (tasks_of st)) \<Longrightarrow> heap (world st') a = heap (world st) a"
    and "\<forall>a. heap (world st') a \<noteq> None \<longrightarrow> a < free_addr (world st')"
  shows "tasks_ready V st'"
proof -
  have "task_ok (alive V) (self st) (heap (world st')) t" if t: "t \<in> set (tasks_of st)" for t
  proof -
    have "task_ok (alive V) (self st) (heap (world st')) t =
        task_ok (alive V) (self st) (heap (world st)) t"
      using t by (intro task_ok_cong assms(4)) (auto simp: set_ptrs)
    with assms(1) t show ?thesis by (simp add: tasks_ready_def)
  qed
  with assms show ?thesis by (simp add: tasks_ready_def)
qed

text \<open>
  The state in which the thread that created the scheduler calls \<^verbatim>\<open>Stop\<close>: it runs its main
  coroutine \<open>m\<close>, and the dummy main coroutine \<open>d\<close> has not been entered yet.
\<close>

definition stop_ready :: "senv \<Rightarrow> co_addr \<Rightarrow> co_addr \<Rightarrow> sthread \<Rightarrow> bool" where
  "stop_ready V m d st \<longleftrightarrow>
     good_env (os V) \<and> tl_scheduler st = None \<and>
     \<not> stopped (sch (ps st)) \<and> dummyMainCoroutine (sch (ps st)) = Some d \<and>
     self st = dummyMainTrdPthreadId (sch (ps st)) \<and>
     cur (world st) = Some m \<and> main_co (world st) = Some m \<and> sched_co (world st) = None \<and>
     (\<exists>dm. heap (world st) m = Some dm \<and> \<not> stackFrame dm) \<and>
     (\<exists>c. heap (world st) d = Some c \<and> stackFrame c \<and> isDummyMainCoroutine c \<and> co_st c = kInit \<and>
        co_ctx c = Entry \<and> co_func c = Some Scheduling_func) \<and>
     tasks_ready V st \<and> d \<notin> set (ptrs (tasks_of st))"

lemma stop_drains:
  assumes r: "stop_ready V m d st"
  shows "\<exists>st'. stop_scheduler V st = Inr st' \<and> tasks_of st' = [] \<and> is_stopped (sch (ps st')) \<and>
    threadPool (sch (ps st')) = [] \<and> tl_scheduler st' = None \<and> cur (world st') = Some m \<and>
    map_option co_st (heap (world st') d) = Some kTerminal"
proof -
  from r obtain dm c where w: "good_env (os V)" "cur (world st) = Some m"
      "main_co (world st) = Some m" "heap (world st) m = Some dm" "\<not> stackFrame dm"
      "heap (world st) d = Some c" "stackFrame c" "isDummyMainCoroutine c" "co_st c = kInit"
      "\<forall>a. heap (world st) a \<noteq> None \<longrightarrow> a < free_addr (world st)"
    and c: "co_ctx c = Entry" "co_func c = Some Scheduling_func"
    and sc: "\<not> stopped (sch (ps st))" "dummyMainCoroutine (sch (ps st)) = Some d"
      "self st = dummyMainTrdPthreadId (sch (ps st))" "tl_scheduler st = None"
      "sched_co (world st) = None"
    and t: "tasks_ready V st" "d \<notin> set (ptrs (tasks_of st))"
    by (auto simp: stop_ready_def tasks_ready_def)
  obtain s1 where s1: "stop_request (self st) (sch (ps st)) = Inr (True, s1)"
      "taskList s1 = taskList (sch (ps st))" "stopped s1" "dummyMainCoroutine s1 = Some d"
      "dummyMainTrdPthreadId s1 = dummyMainTrdPthreadId (sch (ps st))"
    using stop_request_running[OF sc(1,2,3)] by blast
  define w1 where "w1 = upd m (\<lambda>x. x\<lparr>co_ctx := Thread_flow\<rparr>)
    (set_state d kExec ((world st)\<lparr>cur := Some d\<rparr>))"
  note enter = enter_dummy[OF w, folded w1_def]
  define st1 where "st1 = (on_sch (\<lambda>_. s1) st)\<lparr>world := w1\<rparr>"
  have st1: "world st1 = w1" "self st1 = self st" "sch (ps st1) = s1" "tl_scheduler st1 = None"
      "tasks_of st1 = tasks_of st"
    using sc s1(2) by (simp_all add: st1_def tasks_of_def)
  have hm: "m \<notin> set (ptrs (tasks_of st))" by (rule task_not_stackless[OF t(1) w(4,5)])
  have hw1: "heap w1 a = heap (world st) a" if "a \<noteq> m" "a \<noteq> d" for a
    using that by (simp add: w1_def)
  have keep: "heap w1 a = heap (world st) a" if "a \<in> set (ptrs (tasks_of st))" for a
    by (rule hw1) (use that hm t(2) in metis)+
  have "\<forall>a. heap w1 a \<noteq> None \<longrightarrow> a < free_addr w1"
    using enter(2) by (simp add: base_ok_def)
  then have "tasks_ready V st1"
    using tasks_ready_frame[OF t(1), of st1] st1 keep by simp
  moreover have "main_co w1 = Some m" "sched_co w1 = None" using w sc by (simp_all add: w1_def)
  ultimately obtain st2 where st2: "scheduling_prologue V st1 = Inr st2" "draining V d st2"
      "ps st2 = ps st1" "self st2 = self st1"
    using dummy_prologue[of V d st1] enter(2,3) st1 s1 sc t by auto
  have "main_co (world st2) = Some m"
    using drain_okD(1)[OF st2(2)[unfolded draining_def]] st2(1) enter(2) st1 \<open>main_co w1 = Some m\<close> s1 sc
    by (auto simp: scheduling_prologue_def res_bind_eq_Inr Let_def set_scheduler_def enable_hook_def
        get_main_def new_coroutine_def alloc_def base_ok_def set_scheduling_coroutine_def
        split: if_splits)
  moreover obtain st3 where st3: "scheduling_func V st1 = Inr st3" "tasks_of st3 = []"
      "stopped (sch (ps st3))" "tl_scheduler st3 = None" "sched_co (world st3) = None"
      "base_ok (os V) d ((world st3)\<lparr>sched_co := Some d\<rparr>)"
      "main_co (world st3) = main_co (world st2)"
    using scheduling_func_drains[OF st2(1,2)] st2(3) st1(3) s1(3) by auto
  ultimately obtain dm' c' where w3: "cur (world st3) = Some d" "main_co (world st3) = Some m"
      "heap (world st3) m = Some dm'" "heap (world st3) d = Some c'" "co_st c' = kExec"
      "isDummyMainCoroutine c'"
    using enter(3) by (auto simp: base_ok_def)
  define w4 where "w4 = upd d (after Returned) ((world st3)\<lparr>cur := Some m\<rparr>)"
  have leave: "leave (os V) d Returned (world st3) = Inr w4"
    unfolding w4_def using w3 w(1) enter(3)
    by (intro leave_eq[where c = c' and d = dm']) (auto simp: good_env_def partner_def)
  have "heap w1 d = Some (c\<lparr>co_st := kExec\<rparr>)" using w(6) enter(3) by (simp add: w1_def)
  then have "stop_scheduler V st = Inr (on_sch (\<lambda>s. s\<lparr>threadPool := []\<rparr>) (st3\<lparr>world := w4\<rparr>))"
    using s1 enter(1) c st3(1) leave
    by (simp add: stop_scheduler_def st1_def obj_def del: leave.simps)
  moreover have "cur w4 = Some m" "map_option co_st (heap w4 d) = Some kTerminal"
    using w3 by (simp_all add: w4_def)
  ultimately show ?thesis
    using st3 by (simp add: is_stopped_def tasks_of_def)
qed

section \<open>Properties\<close>

text \<open>A process with one fresh thread, whose scheduler has been started and stopped.\<close>

definition demo_senv :: senv where
  "demo_senv = \<lparr>os = sunny_env, alive = (\<lambda>_. True), held = (\<lambda>_ _. False), clock = (\<lambda>_. 0), this = 1\<rparr>"

definition idle_poll :: "sched \<Rightarrow> poll_state" where
  "idle_poll s = \<lparr>poll = init_poller, tmr = init_timers, sch = s, readings = 0\<rparr>"

definition demo_thread :: "pthread_t \<Rightarrow> cworld \<Rightarrow> sched \<Rightarrow> sthread" where
  "demo_thread me w s = \<lparr>self = me, world = w, ps = idle_poll s, waits = [], tl_scheduler = None,
     tl_enable_hook = False, idle_coroutine = 0, temp_coroutine = None, current_task = None\<rparr>"

definition demo_list :: "invocable list" where
  "demo_list = [wrap_callback (Some (Yield_to_ready (Spawn Return 0 Return))) 0,
     wrap_callback (Some Return) 7]"





text \<open>
  C23: The scheduling loop of a thread ends only when the idle coroutine has returned and the
  list holds no task this thread may run, whatever the tasks do.
\<close>

theorem loop_ends_without_work:
  assumes "sched_loop V st = Some (Inr st')"
  shows "(\<forall>t\<in>set (tasks_of st'). \<not> eligible (self st') t) \<and> idle_state st' = Some kTerminal"
  using sched_loop_Some[OF assms] by (auto simp: find_None_iff)

theorem loop_ends_without_work_witness:
  "sched_loop demo_senv
     ((demo_thread 7 ended_world (empty_sched ''s''))\<lparr>world := ended_world\<lparr>heap := [1 \<mapsto>
        after Returned (demo_task Return)]\<rparr>, idle_coroutine := 1\<rparr>) \<noteq> None \<and>
   idle_state ((demo_thread 7 ended_world (empty_sched ''s''))\<lparr>world := ended_world\<lparr>heap := [1 \<mapsto>
        after Returned (demo_task Return)]\<rparr>, idle_coroutine := 1\<rparr>) = Some kTerminal"
proof -
  define st where "st = (demo_thread 7 ended_world (empty_sched ''s''))\<lparr>world := ended_world\<lparr>heap :=
    [1 \<mapsto> after Returned (demo_task Return)]\<rparr>, idle_coroutine := 1\<rparr>"
  have "sched_iter demo_senv st = Inr (False, st)"
    by (simp add: st_def sched_iter_def release_def demo_thread_def take_task_def idle_poll_def
        empty_sched_def idle_turn_def obj_def on_sch_def Let_def)
  then have "sched_loop demo_senv st = Some (Inr st)" by (simp add: sched_loop.simps)
  with loop_ends_without_work[of demo_senv st st] show ?thesis by (simp add: st_def)
qed

text \<open>A turn whose last task left no coroutine behind takes the first task it may run.\<close>

lemma sched_iter_fresh:
  assumes "current_task st = None" "find (eligible (self st)) (tasks_of st) = Some t"
    and "coroutine_ptr t = Some a" "heap (world st) a = Some c" "co_st c \<noteq> kExec"
  shows "sched_iter V st =
    res_bind (coroutine_turn V a
      ((on_sch (left_with (remove1 t (tasks_of st))) st)\<lparr>current_task := Some a\<rparr>))
      (\<lambda>st'. Inr (True, st'))"
proof -
  have eq: "st\<lparr>current_task := None\<rparr> = st" using assms(1) by simp
  show ?thesis
    using assms by (intro sched_iter_coroutine) (simp_all add: release_def eq)
qed

lemma swap_ready_schedulable:
  "swap_ready E a c s w \<Longrightarrow> heap w a = Some c \<and> co_st c \<noteq> kExec \<and> s \<noteq> a"
  by (auto simp: swap_ready_def)

text \<open>
  A coroutine task that gives up control by \<^verbatim>\<open>YieldCurCoroutineToReady\<close> goes to the end
  of the list, behind the tasks it handed over meanwhile, and it is no longer bound to the
  thread it was submitted for: its target thread is 0 whatever it was before.
\<close>

theorem ready_coroutine_requeued_unbound:
  assumes "current_task st = None" "find (eligible (self st)) (tasks_of st) = Some t"
    and "coroutine_ptr t = Some a" "swap_ready (os V) a c s (world st)"
    and "stretch (alive V) c = Inr (rs, Readied k)"
  shows "\<exists>st'. sched_iter V st = Inr (True, st') \<and>
    tasks_of st' = remove1 t (tasks_of st) @ map item_of rs @
      [\<lparr>target_thread = 0, callback = None, coroutine_ptr = Some a\<rparr>] \<and>
    heap (world st') a = Some (c\<lparr>co_ctx := Resume_at k, co_st := kReady\<rparr>)"
proof -
  note c = swap_ready_schedulable[OF assms(4)]
  have sw: "swap_in (os V) (alive V) a (world st) =
      Inr (rs, switched s a (Readied k) (world st))"
    using assms(5) by (simp add: swap_in_spec[OF assms(4)])
  show ?thesis
    using c sched_iter_fresh[OF assms(1,2,3), of c V]
    by (simp add: coroutine_turn_def run_active_eq sw obj_def tasks.pending_post wrap_coroutine_def)
qed

theorem ready_coroutine_requeued_unbound_witness:
  "\<exists>st'. sched_iter demo_senv (demo_thread 7 (demo_world (Yield_to_ready Return))
      ((empty_sched ''s'')\<lparr>taskList := [wrap_coroutine 1 7]\<rparr>)) = Inr (True, st') \<and>
    map target_thread (tasks_of st') = [0]"
  using ready_coroutine_requeued_unbound[of "demo_thread 7 (demo_world (Yield_to_ready Return))
      ((empty_sched ''s'')\<lparr>taskList := [wrap_coroutine 1 7]\<rparr>)" "wrap_coroutine 1 7" 1 demo_senv
      "demo_task (Yield_to_ready Return)" 0 "[]" Return] demo_ready[of "Yield_to_ready Return"]
  by (auto simp: demo_thread_def idle_poll_def tasks_of_def eligible_def wrap_coroutine_def
      demo_senv_def stretch_def demo_task_def)

text \<open>
  The guard that is meant to skip ended coroutines holds for every state: a listed
  coroutine that has ended is swapped in, and the scheduling thread exits.
\<close>

theorem ended_task_exits_thread:
  assumes "world_wf (world st)" "current_task st = None"
    and "find (eligible (self st)) (tasks_of st) = Some t" "coroutine_ptr t = Some a"
    and "swap_ready (os V) a c s (world st)" "co_st c = kTerminal \<or> co_st c = kExcept"
  shows "sched_iter V st = Inl Thread_exit"
proof -
  note c = swap_ready_schedulable[OF assms(5)]
  have "co_wf c" using assms(1) c by (auto simp: world_wf_def)
  with assms(6) have "co_ctx c = Finished" by (auto simp: co_wf_def split: if_splits)
  then have "swap_in (os V) (alive V) a (world st) = Inl Thread_exit"
    by (simp add: swap_in_spec[OF assms(5)] stretch_def)
  then show ?thesis
    using c sched_iter_fresh[OF assms(2,3,4), of c V]
    by (simp add: coroutine_turn_def run_active_eq)
qed

theorem ended_task_exits_thread_witness:
  "sched_iter demo_senv (demo_thread 7 ended_world
     ((empty_sched ''s'')\<lparr>taskList := [wrap_coroutine 1 0]\<rparr>)) = Inl Thread_exit"
  by (rule ended_task_exits_thread[of _ "wrap_coroutine 1 0" 1 _ "after Threw (demo_task Return)" 0],
      simp only: demo_thread_def sthread.simps ended_world_wf)
     (simp_all add: demo_thread_def idle_poll_def tasks_of_def eligible_def
       wrap_coroutine_def demo_senv_def swap_ready_def sunny_env_def ended_world_def demo_task_def
       demo_main_def partner_def)

text \<open>
  A callback task that gives up control by \<^verbatim>\<open>YieldCurCoroutineToHold\<close> without having left
  a \<^verbatim>\<open>shared_ptr\<close> to its coroutine anywhere aborts the process: the scheduling function drops
  the last one, and the destructor's assertion excludes \<^verbatim>\<open>kHold\<close>.
\<close>

theorem parked_callback_aborts:
  assumes "draining V s st" "current_task st = None"
    and "run_body (alive V) f = (rs, Held k)" "\<forall>r\<in>set rs. \<exists>g p. r = Req_func g p"
    and "\<forall>p a. \<not> held V p a"
  shows "callback_turn V f st = Inl Assert_failed"
proof -
  obtain a w1 c where wrap: "wrap_in_temp V f st =
        Inr (a, st\<lparr>world := w1, temp_coroutine := Some a\<rparr>)"
    and d1: "drain_ok (os V) (alive V) (self st) s (idle_coroutine st) (Some a) None (tasks_of st) w1"
    and c: "heap w1 a = Some c" "plain_co c" "co_st c = kInit" "co_ctx c = Entry" "co_func c = Some f"
    using wrap_in_temp_ok[of V "alive V" "self st" s "idle_coroutine st" st "tasks_of st" f]
      assms(1,2) by (auto simp: draining_def)
  have n: "a \<noteq> s" "a \<notin> set (ptrs (tasks_of st))" using drain_okD(7)[OF d1] by auto
  have r: "swap_ready (os V) a c s w1"
    using drain_okD(1)[OF d1] c n
    by (auto simp: swap_ready_def base_ok_def good_env_def plain_co_def partner_def)
  have "swap_in (os V) (alive V) a w1 = Inr (rs, switched s a (Held k) w1)"
    using c assms(3) by (simp add: swap_in_spec[OF r] stretch_def)
  moreover have "ptrs (map item_of rs) = []"
    using assms(4)
  proof (induction rs)
    case (Cons r rs)
    then show ?case by (cases r) (auto simp: wrap_callback_def)
  qed simp
  then have "\<forall>t\<in>set (tasks_of st @ map item_of rs). coroutine_ptr t \<noteq> Some a"
    using n set_ptrs[of a "tasks_of st @ map item_of rs"] by auto
  ultimately show ?thesis
    using wrap c n assms(5)
    by (auto simp: callback_turn_def run_active_eq obj_def release_def destroy_def plain_co_def
        tasks_of_def split: if_splits)
qed

theorem parked_callback_aborts_witness:
  "\<exists>w. callback_turn demo_senv (Yield_to_hold Return)
     ((demo_thread 7 w (empty_sched ''s''))\<lparr>idle_coroutine := 1\<rparr>) = Inl Assert_failed"
proof -
  define w where "w = (demo_world Handle_idle)"
  have "draining demo_senv 0 ((demo_thread 7 w (empty_sched ''s''))\<lparr>idle_coroutine := 1\<rparr>)"
    by (simp add: draining_def drain_ok_def base_ok_def demo_senv_def demo_thread_def w_def
        demo_world_def good_env_def sunny_env_def demo_main_def demo_task_def idle_ok_def
        plain_co_def tasks_of_def idle_poll_def empty_sched_def)
  from parked_callback_aborts[OF this, of "Yield_to_hold Return" "[]" Return] show ?thesis
    by (auto simp: demo_senv_def demo_thread_def)
qed

lemma new_scheduler_no_thread:
  "new_scheduler E me 0 True name w = Inl (Thrown Length_error)"
proof -
  have "unat (- 1 :: u64) = unat (0xFFFFFFFFFFFFFFFF :: u64)" by (rule arg_cong[where f = unat]) simp
  then have "unat (- 1 :: u64) > 2 ^ 60 - 1" by simp
  then show ?thesis by (simp add: new_scheduler_def Let_def)
qed

text \<open>
  A scheduler constructed for no thread that counts the calling thread wraps the size of
  its pool and throws \<^verbatim>\<open>std::length_error\<close>; a constructed scheduler is stopped, owns
  the threads it was asked for less the calling one, and starting and stopping it are
  idempotent, a stop writing the size of the pool and one more for the dummy main coroutine.
\<close>

theorem scheduler_life_cycle:
  "new_scheduler E me 0 True name w = Inl (Thrown Length_error) \<and>
   (\<forall>n b s w'. new_scheduler E me n b name w = Inr (s, w') \<longrightarrow>
      is_stopped s \<and> length (threadPool s) + (if b then 1 else 0) = unat n \<and>
      start sn (start sn s) = start sn s \<and>
      (\<exists>s1. stop_request me (start sn s) = Inr (True, s1) \<and> stop_request me s1 = Inr (False, s1) \<and>
         notified s1 = (if b then [n - 1, 1] else [n])))"
proof (intro conjI allI impI)
  show "new_scheduler E me 0 True name w = Inl (Thrown Length_error)"
    by (rule new_scheduler_no_thread)
next
  fix n b s w'
  assume new: "new_scheduler E me n b name w = Inr (s, w')"
  have n: "b \<Longrightarrow> n \<noteq> 0" using new new_scheduler_no_thread[of E me name w] by auto
  have len: "unat (n - 1) + 1 = unat n" if "n \<noteq> 0" for n :: u64
    using that by (simp add: unat_minus_one unat_gt_0)
  have s: "stopped s" "taskList s = []" "notified s = []" "dummyMainCoroutine s \<noteq> None \<longleftrightarrow> b"
      "b \<longrightarrow> dummyMainTrdPthreadId s = me"
      "length (threadPool s) = unat (if b then n - 1 else n)"
    using new by (auto simp: new_scheduler_def Let_def res_bind_eq_Inr split: if_splits)
  show "is_stopped s" using s by (simp add: is_stopped_def)
  show "length (threadPool s) + (if b then 1 else 0) = unat n"
    using s(6) len n by auto
  show "start sn (start sn s) = start sn s" by (simp add: start_def)
  have "of_nat (unat (x :: u64)) = x" for x by simp
  then show "\<exists>s1. stop_request me (start sn s) = Inr (True, s1) \<and> stop_request me s1 = Inr (False, s1) \<and>
      notified s1 = (if b then [n - 1, 1] else [n])"
    using s by (cases b) (simp_all add: stop_request_def start_def Let_def)
qed

theorem scheduler_life_cycle_witness:
  "\<exists>s w'. new_scheduler sunny_env 7 3 True ''s'' init_cworld = Inr (s, w') \<and>
     length (threadPool s) = 2"
proof -
  obtain s w' where new: "new_scheduler sunny_env 7 3 True ''s'' init_cworld = Inr (s, w')"
    by (simp add: new_scheduler_def get_main_def new_main_coroutine_def init_cworld_def
        sunny_env_def alloc_def set_scheduling_coroutine_def new_coroutine_def Let_def)
  then have "length (threadPool s) + 1 = unat (3 :: u64)"
    using scheduler_life_cycle[of sunny_env 7 "''s''" init_cworld "\<lambda>_. ''0''"] by fastforce
  with new show ?thesis by simp
qed

end
