(* ===== verification/Fd_Manager.thy ===== *)
theory Fd_Manager
  imports Scheduler
begin

text \<open>
  The descriptors the hooked system calls know about (\<^verbatim>\<open>concurrency/fd_manager.h\<close>,
  \<^verbatim>\<open>concurrency/fd_manager.cpp\<close>). What the kernel answers to \<^verbatim>\<open>fstat\<close> and \<^verbatim>\<open>fcntl\<close> is a
  parameter, \<open>libc\<close>, over a kernel state of any type; \<open>posix_status_flags\<close> states what the
  code relies on: a successful \<^verbatim>\<open>F_SETFL\<close> makes a later \<^verbatim>\<open>F_GETFL\<close> report the
  \<^verbatim>\<open>O_NONBLOCK\<close> bit it was given, a failed one changes nothing.
\<close>

section \<open>The kernel's side\<close>

definition O_NONBLOCK :: u32 where "O_NONBLOCK = 0x800"
definition O_ASYNC :: u32 where "O_ASYNC = 0x2000"
definition EBADF :: int where "EBADF = 9"

datatype fcntl_cmd =
    F_GETFL
  | F_SETFL u32
  | Int_arg_cmd int u32        \<comment> \<open>\<^verbatim>\<open>F_DUPFD\<close>, \<^verbatim>\<open>F_SETFD\<close>, \<^verbatim>\<open>F_SETOWN\<close>, ...\<close>
  | No_arg_cmd int             \<comment> \<open>\<^verbatim>\<open>F_GETFD\<close>, \<^verbatim>\<open>F_GETOWN\<close>, \<^verbatim>\<open>F_GETSIG\<close>, \<^verbatim>\<open>F_GETLEASE\<close>\<close>
  | Flock_cmd int nat          \<comment> \<open>\<^verbatim>\<open>F_SETLK\<close>, \<^verbatim>\<open>F_SETLKW\<close>, \<^verbatim>\<open>F_GETLK\<close> with a pointer\<close>
  | Owner_ex_cmd int nat       \<comment> \<open>\<^verbatim>\<open>F_GETOWN_EX\<close>, \<^verbatim>\<open>F_SETOWN_EX\<close> with a pointer\<close>
  | Unknown_cmd int "u32 option"  \<comment> \<open>any other command, with an argument if one is passed on\<close>

text \<open>\<open>sys_fcntl\<close> returns the value, \<^verbatim>\<open>errno\<close> and the new kernel state.\<close>

record 'k libc =
  sys_is_sock :: "int \<Rightarrow> 'k \<Rightarrow> bool option"
  sys_fcntl :: "int \<Rightarrow> fcntl_cmd \<Rightarrow> 'k \<Rightarrow> u32 \<times> int \<times> 'k"

definition status_flags :: "'k libc \<Rightarrow> int \<Rightarrow> 'k \<Rightarrow> u32" where
  "status_flags L fd k = fst (sys_fcntl L fd F_GETFL k)"

definition posix_status_flags :: "'k libc \<Rightarrow> bool" where
  "posix_status_flags L \<longleftrightarrow>
     (\<forall>fd k. snd (snd (sys_fcntl L fd F_GETFL k)) = k) \<and>
     (\<forall>fd fl k r e k'. sys_fcntl L fd (F_SETFL fl) k = (r, e, k') \<longrightarrow>
        (if r = 0 then status_flags L fd k' AND O_NONBLOCK = fl AND O_NONBLOCK \<and>
                       status_flags L fd k' \<noteq> - 1
         else k' = k))"

lemma posix_getfl:
  assumes "posix_status_flags L"
  shows "\<exists>e. sys_fcntl L fd F_GETFL k = (status_flags L fd k, e, k)"
proof -
  obtain v e k' where g: "sys_fcntl L fd F_GETFL k = (v, e, k')" by (metis prod_cases3)
  moreover have "snd (snd (sys_fcntl L fd F_GETFL k)) = k"
    using assms by (simp add: posix_status_flags_def)
  ultimately show ?thesis by (simp add: status_flags_def)
qed

lemma posix_setfl:
  assumes "posix_status_flags L" "sys_fcntl L fd (F_SETFL fl) k = (0, e, k')"
  shows "status_flags L fd k' AND O_NONBLOCK = fl AND O_NONBLOCK" "status_flags L fd k' \<noteq> - 1"
  using assms unfolding posix_status_flags_def by auto

section \<open>Contexts of descriptors\<close>

record fd_ctx =
  ctx_fd :: int
  is_closed :: bool
  is_socket :: bool
  sys_set_nonblock :: bool
  user_set_nonblock :: bool
  r_timeout :: int
  w_timeout :: int

text \<open>The constructor; a descriptor whose status cannot be read is taken for a non-socket.\<close>

definition new_fd_context :: "'k libc \<Rightarrow> int \<Rightarrow> 'k \<Rightarrow> (fd_ctx \<times> 'k) res" where
  "new_fd_context L fd k =
     (let c = \<lparr>ctx_fd = fd, is_closed = False,
               is_socket = (case sys_is_sock L fd k of None \<Rightarrow> False | Some b \<Rightarrow> b),
               sys_set_nonblock = False, user_set_nonblock = False,
               r_timeout = tp_max, w_timeout = tp_max\<rparr>
      in if \<not> is_socket c then Inr (c, k)
         else
           (case sys_fcntl L fd F_GETFL k of (flags, errno, k1) \<Rightarrow>
              if flags = - 1 then
                Inl (Thrown (if errno = EBADF then Invalid_argument else Runtime_error))
              else if flags AND O_NONBLOCK \<noteq> 0 then Inr (c\<lparr>sys_set_nonblock := True\<rparr>, k1)
              else
                (case sys_fcntl L fd (F_SETFL O_NONBLOCK) k1 of (ret, _, k2) \<Rightarrow>
                   res_bind (sylar_assert (ret = 0)) (\<lambda>_.
                   Inr (c\<lparr>sys_set_nonblock := True\<rparr>, k2)))))"

definition get_timeout :: "fd_ctx \<Rightarrow> u32 \<Rightarrow> int res" where
  "get_timeout c ev =
     (if ev AND EPOLLIN \<noteq> 0 then Inr (r_timeout c)
      else if ev AND EPOLLOUT \<noteq> 0 then Inr (w_timeout c)
      else Inl (Thrown Invalid_argument))"

section \<open>The manager\<close>

record fd_manager =
  fdSet :: "int \<Rightarrow> fd_ctx option"

definition put_fd :: "int \<Rightarrow> fd_ctx \<Rightarrow> fd_manager \<Rightarrow> fd_manager" where
  "put_fd fd c m = m\<lparr>fdSet := (fdSet m)(fd \<mapsto> c)\<rparr>"

definition drop_fd :: "int \<Rightarrow> fd_manager \<Rightarrow> fd_manager" where
  "drop_fd fd m = m\<lparr>fdSet := (fdSet m)(fd := None)\<rparr>"

interpretation fds: registry fdSet put_fd drop_fd
  by unfold_locales (simp_all add: put_fd_def drop_fd_def)

definition create_fd_context :: "'k libc \<Rightarrow> int \<Rightarrow> fd_manager \<Rightarrow> 'k \<Rightarrow> (fd_manager \<times> 'k) res" where
  "create_fd_context L fd m k =
     res_bind (sylar_assert (fdSet m fd = None)) (\<lambda>_.
     res_bind (new_fd_context L fd k) (\<lambda>(c, k1). Inr (put_fd fd c m, k1)))"

definition get_fd_context :: "int \<Rightarrow> fd_manager \<Rightarrow> fd_ctx res" where
  "get_fd_context fd m =
     res_bind (sylar_assert (fdSet m fd \<noteq> None)) (\<lambda>_. deref (fdSet m fd))"

definition is_exist :: "int \<Rightarrow> fd_manager \<Rightarrow> bool" where
  "is_exist fd m \<longleftrightarrow> fdSet m fd \<noteq> None"

definition remove_fd :: "int \<Rightarrow> fd_manager \<Rightarrow> fd_manager res" where
  "remove_fd fd m = res_bind (sylar_assert (fdSet m fd \<noteq> None)) (\<lambda>_. Inr (drop_fd fd m))"

lemma is_exist_simps [simp]:
  "is_exist fd (put_fd fd c m)" "\<not> is_exist fd (drop_fd fd m)"
  "fd' \<noteq> fd \<Longrightarrow> is_exist fd' (put_fd fd c m) = is_exist fd' m"
  by (simp_all add: is_exist_def fds.look_put_same fds.look_drop_same fds.look_put_other)

lemma get_fd_context_Some:
  "get_fd_context fd m = (case fdSet m fd of None \<Rightarrow> Inl Assert_failed | Some c \<Rightarrow> Inr c)"
  by (simp add: get_fd_context_def split: option.split)

lemma new_fd_context_cases:
  assumes "new_fd_context L fd k = Inr (c, k')"
  shows "ctx_fd c = fd \<and> \<not> is_closed c \<and> \<not> user_set_nonblock c \<and> r_timeout c = tp_max \<and>
    w_timeout c = tp_max \<and> is_socket c = sys_set_nonblock c \<and>
    (is_socket c \<longleftrightarrow> sys_is_sock L fd k = Some True)"
  using assms
  by (auto simp: new_fd_context_def Let_def res_bind_eq_Inr
      split: if_splits option.splits prod.splits)

lemma new_fd_context_nonblocking:
  assumes "posix_status_flags L" "new_fd_context L fd k = Inr (c, k')" "is_socket c"
  shows "status_flags L fd k' AND O_NONBLOCK \<noteq> 0"
proof -
  obtain e where g: "sys_fcntl L fd F_GETFL k = (status_flags L fd k, e, k)"
    using posix_getfl[OF assms(1)] by blast
  obtain ret e2 k2 where s: "sys_fcntl L fd (F_SETFL O_NONBLOCK) k = (ret, e2, k2)"
    by (metis prod_cases3)
  have "status_flags L fd k2 AND O_NONBLOCK = O_NONBLOCK" if "ret = 0"
    using posix_setfl(1)[OF assms(1), of fd O_NONBLOCK k e2 k2] s that by simp
  moreover have "O_NONBLOCK \<noteq> 0" by (simp add: O_NONBLOCK_def)
  ultimately show ?thesis
    using assms(2,3) s
    by (auto simp: new_fd_context_def Let_def res_bind_eq_Inr g
        split: if_splits option.splits)
qed

section \<open>A kernel with status flags only\<close>

definition flags_libc :: "(int \<Rightarrow> u32) libc" where
  "flags_libc = \<lparr>sys_is_sock = (\<lambda>fd k. Some (fd \<ge> 3)),
     sys_fcntl = (\<lambda>fd c k. case c of
        F_GETFL \<Rightarrow> (k fd, 0, k)
      | F_SETFL fl \<Rightarrow>
          (0, 0, k(fd := (k fd AND NOT O_NONBLOCK AND 0x7FFFFFFF) OR (fl AND O_NONBLOCK)))
      | _ \<Rightarrow> (0, 0, k))\<rparr>"

lemma flags_libc_posix: "posix_status_flags flags_libc"
proof -
  have "(x AND NOT O_NONBLOCK AND 0x7FFFFFFF OR y AND O_NONBLOCK) AND O_NONBLOCK = y AND O_NONBLOCK"
    for x y :: u32
    by (rule bit_word_eqI) (auto simp: bit_and_iff bit_or_iff bit_not_iff)
  moreover have "(x AND NOT O_NONBLOCK AND 0x7FFFFFFF) OR (y AND O_NONBLOCK) \<noteq> - 1"
    for x y :: u32
  proof
    assume "(x AND NOT O_NONBLOCK AND 0x7FFFFFFF) OR (y AND O_NONBLOCK) = - 1"
    then have "bit ((x AND NOT O_NONBLOCK AND 0x7FFFFFFF) OR (y AND O_NONBLOCK)) 31" by simp
    then show False by (simp add: bit_and_iff bit_or_iff O_NONBLOCK_def)
  qed
  ultimately show ?thesis
    by (auto simp: posix_status_flags_def status_flags_def flags_libc_def)
qed

end
