(* ===== verification/Hook.thy ===== *)
theory Hook
  imports Fd_Manager
begin

text \<open>
  The hooked system calls of \<^verbatim>\<open>concurrency/hook.cpp\<close>: \<^verbatim>\<open>do_io\<close> behind \<^verbatim>\<open>read\<close>, \<^verbatim>\<open>write\<close>
  and \<^verbatim>\<open>accept\<close>, the three sleeps, \<^verbatim>\<open>socket\<close>, \<^verbatim>\<open>fcntl\<close> and \<^verbatim>\<open>setsockopt\<close>. What the original
  calls return is a parameter; the results of the successive \<^verbatim>\<open>read\<close>s are a list of value and
  \<^verbatim>\<open>errno\<close>, and a call that never returns is an empty list. A call that parks the calling
  coroutine gives control to the scheduling coroutine; \<open>rest\<close> is what the coroutine does once
  it is resumed.
\<close>

section \<open>State and constants\<close>

definition EINTR :: int where "EINTR = 4"
definition EAGAIN :: int where "EAGAIN = 11"
definition ETIMEDOUT :: int where "ETIMEDOUT = 110"
definition SOL_SOCKET :: int where "SOL_SOCKET = 1"
definition SO_RCVTIMEO :: int where "SO_RCVTIMEO = 20"
definition SO_SNDTIMEO :: int where "SO_SNDTIMEO = 21"

record 'k hstate =
  thr :: sthread
  fdm :: fd_manager
  kern :: 'k

datatype 'r call = Ret 'r | Parked

definition set_tmr :: "timers \<Rightarrow> sthread \<Rightarrow> sthread" where
  "set_tmr m st = st\<lparr>ps := (ps st)\<lparr>tmr := m\<rparr>\<rparr>"

definition set_poll :: "poller \<Rightarrow> sthread \<Rightarrow> sthread" where
  "set_poll p st = st\<lparr>ps := (ps st)\<lparr>poll := p\<rparr>\<rparr>"

text \<open>A signed 64-bit tick count; leaving the range is undefined behaviour.\<close>

definition ticks :: "int \<Rightarrow> int res" where
  "ticks x = (if tp_min \<le> x \<and> x \<le> tp_max then Inr x else Inl Undefined_behaviour)"

section \<open>The original functions\<close>

text \<open>
  One pointer per hooked function (the declarations of \<^verbatim>\<open>hook.h\<close>, in the order of \<^verbatim>\<open>HOOKED_FUNCS\<close>);
  \<open>None\<close> is the null pointer. They are null when the program is loaded; a static object of
  \<^verbatim>\<open>hook.cpp\<close> fills them with what \<^verbatim>\<open>dlsym(RTLD_NEXT, name)\<close> returns, a parameter.
\<close>

record libc_funcs =
  sleep_libc_func :: "nat option"
  usleep_libc_func :: "nat option"
  nanosleep_libc_func :: "nat option"
  socket_libc_func :: "nat option"
  fcntl_libc_func :: "nat option"
  getsockopt_libc_func :: "nat option"
  setsockopt_libc_func :: "nat option"
  connect_libc_func :: "nat option"
  accept_libc_func :: "nat option"
  read_libc_func :: "nat option"
  write_libc_func :: "nat option"

definition null_libc_funcs :: libc_funcs where
  "null_libc_funcs = \<lparr>sleep_libc_func = None, usleep_libc_func = None, nanosleep_libc_func = None,
     socket_libc_func = None, fcntl_libc_func = None, getsockopt_libc_func = None,
     setsockopt_libc_func = None, connect_libc_func = None, accept_libc_func = None,
     read_libc_func = None, write_libc_func = None\<rparr>"

definition init_hook :: "(string \<Rightarrow> nat option) \<Rightarrow> libc_funcs \<Rightarrow> libc_funcs" where
  "init_hook dlsym p = p
     \<lparr>sleep_libc_func := dlsym ''sleep'',
      usleep_libc_func := dlsym ''usleep'',
      nanosleep_libc_func := dlsym ''nanosleep'',
      socket_libc_func := dlsym ''socket'',
      fcntl_libc_func := dlsym ''fcntl'',
      getsockopt_libc_func := dlsym ''getsockopt'',
      setsockopt_libc_func := dlsym ''setsockopt'',
      connect_libc_func := dlsym ''connect'',
      accept_libc_func := dlsym ''accept'',
      read_libc_func := dlsym ''read'',
      write_libc_func := dlsym ''write''\<rparr>"

definition hooked_funcs :: "string list" where
  "hooked_funcs = [''sleep'', ''usleep'', ''nanosleep'', ''socket'', ''fcntl'', ''getsockopt'',
     ''setsockopt'', ''connect'', ''accept'', ''read'', ''write'']"

lemma init_hook_names:
  "(\<And>name. name \<in> set hooked_funcs \<Longrightarrow> dlsym name = dlsym' name) \<Longrightarrow> init_hook dlsym p = init_hook dlsym' p"
  by (simp add: init_hook_def hooked_funcs_def)

text \<open>
  A hooked function called before the static object is made calls through a null pointer, also
  on a thread that has not enabled the hooks; afterwards it reaches the function found last.
\<close>

lemma original_call:
  "deref (read_libc_func null_libc_funcs) = Inl Undefined_behaviour"
  "dlsym ''read'' = Some f \<Longrightarrow> deref (read_libc_func (init_hook dlsym null_libc_funcs)) = Inr f"
  by (simp_all add: null_libc_funcs_def init_hook_def)

lemma init_hook_again: "init_hook dlsym (init_hook dlsym' p) = init_hook dlsym p"
  by (simp add: init_hook_def)

section \<open>Sleeping\<close>

text \<open>The common part: a timer that hands the coroutine to the scheduler, and the yield.\<close>

definition delay :: "senv \<Rightarrow> int \<Rightarrow> int \<Rightarrow> body \<Rightarrow> sthread \<Rightarrow> sthread res" where
  "delay V now dur rest st =
     res_bind (get_current (world st)) (\<lambda>a.
     res_bind (deref (tl_scheduler st)) (\<lambda>_.
     res_bind (run_after now dur (Some (Spawn_co a 0 Return)) False (tmr (ps st))) (\<lambda>(_, m).
     res_bind (yield_cur (os V) kHold (Resume_at rest) (world st)) (\<lambda>w.
     Inr ((set_tmr m st)\<lparr>world := w\<rparr>)))))"

definition hook_sleep ::
  "senv \<Rightarrow> u32 \<Rightarrow> int \<Rightarrow> u32 \<Rightarrow> body \<Rightarrow> sthread \<Rightarrow> (u32 call \<times> sthread) res" where
  "hook_sleep V libc_ret now seconds rest st =
     (if \<not> tl_enable_hook st then Inr (Ret libc_ret, st)
      else res_bind (delay V now (uint seconds * 1000000000) rest st) (\<lambda>st'. Inr (Parked, st')))"

definition hook_usleep ::
  "senv \<Rightarrow> int \<Rightarrow> int \<Rightarrow> u32 \<Rightarrow> body \<Rightarrow> sthread \<Rightarrow> (int call \<times> sthread) res" where
  "hook_usleep V libc_ret now usec rest st =
     (if \<not> tl_enable_hook st then Inr (Ret libc_ret, st)
      else res_bind (delay V now (uint usec * 1000) rest st) (\<lambda>st'. Inr (Parked, st')))"

definition hook_nanosleep ::
  "senv \<Rightarrow> int \<Rightarrow> int \<Rightarrow> int \<times> int \<Rightarrow> body \<Rightarrow> sthread \<Rightarrow> (int call \<times> sthread) res" where
  "hook_nanosleep V libc_ret now req rest st =
     (if \<not> tl_enable_hook st then Inr (Ret libc_ret, st)
      else
        res_bind (ticks (fst req * 1000000000)) (\<lambda>sec.
        res_bind (ticks (sec + snd req)) (\<lambda>dur.
        res_bind (delay V now dur rest st) (\<lambda>st'. Inr (Parked, st')))))"

section \<open>Reading and writing\<close>

text \<open>The inner \<^verbatim>\<open>do ... while (num == -1 && errno == EINTR)\<close>.\<close>

fun retry_eintr :: "(int \<times> int) list \<Rightarrow> ((int \<times> int) \<times> (int \<times> int) list) res" where
  "retry_eintr [] = Inl Diverges"
| "retry_eintr ((num, errno) # rs) =
     (if num = - 1 \<and> errno = EINTR then retry_eintr rs else Inr ((num, errno), rs))"

text \<open>One call of the original function.\<close>

definition libc_io :: "(int \<times> int) list \<Rightarrow> ((int \<times> int) \<times> (int \<times> int) list) res" where
  "libc_io rs = (case rs of [] \<Rightarrow> Inl Diverges | r # rs' \<Rightarrow> Inr (r, rs'))"

text \<open>
  One round of the outer loop, up to the return or the yield; the result carries the id of
  the timeout's timer. The condition \<open>null_cond\<close> is the \<^verbatim>\<open>weak_ptr\<close> made from the null \<^verbatim>\<open>tie\<close>,
  so the timer's callback finds nothing to set.
\<close>

definition null_cond :: nat where "null_cond = 0"

definition io_round ::
  "senv \<Rightarrow> int \<Rightarrow> fd_ctx \<Rightarrow> int \<Rightarrow> u32 \<Rightarrow> body \<Rightarrow> u32 \<Rightarrow> (int \<times> int) list \<Rightarrow> sthread \<Rightarrow>
   ((int \<times> int) call \<times> u32 \<times> (int \<times> int) list \<times> sthread) res" where
  "io_round V now c fd ev rest tid rs st =
     res_bind (retry_eintr rs) (\<lambda>((num, errno), rs').
     if num = - 1 \<and> errno = EAGAIN then
       res_bind (get_timeout c ev) (\<lambda>timeout.
       res_bind
         (if timeout \<noteq> tp_max then
            res_bind (deref (tl_scheduler st)) (\<lambda>_.
            run_after_if now timeout null_cond (Some Return) False (tmr (ps st)))
          else Inr (tid, tmr (ps st))) (\<lambda>(tid', m).
       res_bind (deref (tl_scheduler st)) (\<lambda>_.
       res_bind (append_event (world st) fd ev None (poll (ps st))) (\<lambda>p.
       res_bind (yield_cur (os V) kHold (Resume_at rest) (world st)) (\<lambda>w.
       Inr (Parked, tid', rs', (set_poll p (set_tmr m st))\<lparr>world := w\<rparr>))))))
     else Inr (Ret (num, errno), tid, rs', st))"

text \<open>
  \<^verbatim>\<open>do_io\<close> from the call to its return or its first yield (\<^verbatim>\<open>kInvalidTimerId\<close> is 0), and what
  follows the yield. The variable \<^verbatim>\<open>tie\<close> is the null pointer from its definition on; \<open>tie\<close> is
  the flag it points to.
\<close>

definition do_io ::
  "senv \<Rightarrow> int \<Rightarrow> int \<Rightarrow> u32 \<Rightarrow> body \<Rightarrow> (int \<times> int) list \<Rightarrow> 'k hstate \<Rightarrow>
   ((int \<times> int) call \<times> u32 \<times> (int \<times> int) list \<times> 'k hstate) res" where
  "do_io V now fd ev rest rs h =
     (let direct = res_bind (libc_io rs) (\<lambda>(r, rs'). Inr (Ret r, 0, rs', h)) in
      if \<not> tl_enable_hook (thr h) then direct
      else if \<not> is_exist fd (fdm h) then direct
      else
        res_bind (get_fd_context fd (fdm h)) (\<lambda>c.
        if \<not> is_socket c \<or> user_set_nonblock c then direct
        else res_bind (io_round V now c fd ev rest 0 rs (thr h)) (\<lambda>(out, i, rs', st).
             Inr (out, i, rs', h\<lparr>thr := st\<rparr>))))"

definition after_yield ::
  "bool option \<Rightarrow> senv \<Rightarrow> int \<Rightarrow> fd_ctx \<Rightarrow> int \<Rightarrow> u32 \<Rightarrow> body \<Rightarrow> u32 \<Rightarrow> (int \<times> int) list \<Rightarrow> sthread \<Rightarrow>
   ((int \<times> int) call \<times> u32 \<times> (int \<times> int) list \<times> sthread) res" where
  "after_yield tie V now c fd ev rest tid rs st =
     res_bind (deref tie) (\<lambda>is_timeout.
     if \<not> is_timeout then
       res_bind (cancel_timer tid (tmr (ps st))) (\<lambda>m.
       io_round V now c fd ev rest tid rs (set_tmr m st))
     else
       res_bind (sylar_assert (\<not> has_timer tid (tmr (ps st)))) (\<lambda>_.
       Inr (Ret (- 1, ETIMEDOUT), tid, rs, st)))"

definition do_io_resumed ::
  "senv \<Rightarrow> int \<Rightarrow> fd_ctx \<Rightarrow> int \<Rightarrow> u32 \<Rightarrow> body \<Rightarrow> u32 \<Rightarrow> (int \<times> int) list \<Rightarrow> sthread \<Rightarrow>
   ((int \<times> int) call \<times> u32 \<times> (int \<times> int) list \<times> sthread) res" where
  "do_io_resumed = after_yield None"

definition hook_read ::
  "senv \<Rightarrow> int \<Rightarrow> int \<Rightarrow> body \<Rightarrow> (int \<times> int) list \<Rightarrow> 'k hstate \<Rightarrow>
   ((int \<times> int) call \<times> u32 \<times> (int \<times> int) list \<times> 'k hstate) res" where
  "hook_read V now fd rest rs h =
     (if \<not> tl_enable_hook (thr h)
      then res_bind (libc_io rs) (\<lambda>(r, rs'). Inr (Ret r, 0, rs', h))
      else do_io V now fd EPOLLIN rest rs h)"

definition hook_accept ::
  "senv \<Rightarrow> int \<Rightarrow> int \<Rightarrow> body \<Rightarrow> (int \<times> int) list \<Rightarrow> 'k hstate \<Rightarrow>
   ((int \<times> int) call \<times> u32 \<times> (int \<times> int) list \<times> 'k hstate) res" where
  "hook_accept V now fd rest rs h =
     (if \<not> tl_enable_hook (thr h)
      then res_bind (libc_io rs) (\<lambda>(r, rs'). Inr (Ret r, 0, rs', h))
      else do_io V now fd EPOLLIN rest rs h)"

definition hook_write ::
  "senv \<Rightarrow> int \<Rightarrow> int \<Rightarrow> body \<Rightarrow> (int \<times> int) list \<Rightarrow> 'k hstate \<Rightarrow>
   ((int \<times> int) call \<times> u32 \<times> (int \<times> int) list \<times> 'k hstate) res" where
  "hook_write V now fd rest rs h =
     (if \<not> tl_enable_hook (thr h)
      then res_bind (libc_io rs) (\<lambda>(r, rs'). Inr (Ret r, 0, rs', h))
      else do_io V now fd EPOLLOUT rest rs h)"

text \<open>\<^verbatim>\<open>connect\<close> and \<^verbatim>\<open>getsockopt\<close> pass the call on.\<close>

definition hook_connect :: "('k \<Rightarrow> int \<times> 'k) \<Rightarrow> 'k hstate \<Rightarrow> int \<times> 'k hstate" where
  "hook_connect connect_libc h = (let (r, k) = connect_libc (kern h) in (r, h\<lparr>kern := k\<rparr>))"

definition hook_getsockopt :: "('k \<Rightarrow> int \<times> 'k) \<Rightarrow> 'k hstate \<Rightarrow> int \<times> 'k hstate" where
  "hook_getsockopt getsockopt_libc h = (let (r, k) = getsockopt_libc (kern h) in (r, h\<lparr>kern := k\<rparr>))"

section \<open>Sockets and their flags\<close>

text \<open>\<open>sock\<close> is what the original \<^verbatim>\<open>socket\<close> returned.\<close>

definition hook_socket :: "'k libc \<Rightarrow> int \<Rightarrow> 'k hstate \<Rightarrow> (int \<times> 'k hstate) res" where
  "hook_socket L sock h =
     (if tl_enable_hook (thr h) \<and> sock \<ge> 0 then
        res_bind (create_fd_context L sock (fdm h) (kern h)) (\<lambda>(m, k).
        Inr (sock, h\<lparr>fdm := m, kern := k\<rparr>))
      else Inr (sock, h))"

definition libc_fcntl :: "'k libc \<Rightarrow> int \<Rightarrow> fcntl_cmd \<Rightarrow> 'k hstate \<Rightarrow> u32 \<times> 'k hstate" where
  "libc_fcntl L fd cmd h =
     (case sys_fcntl L fd cmd (kern h) of (r, _, k) \<Rightarrow> (r, h\<lparr>kern := k\<rparr>))"

definition hook_fcntl :: "'k libc \<Rightarrow> int \<Rightarrow> fcntl_cmd \<Rightarrow> 'k hstate \<Rightarrow> (u32 \<times> 'k hstate) res" where
  "hook_fcntl L fd cmd h =
     (case cmd of
        F_GETFL \<Rightarrow>
          (let (flags, h1) = libc_fcntl L fd F_GETFL h in
           if \<not> is_exist fd (fdm h1) then Inr (flags, h1)
           else
             res_bind (get_fd_context fd (fdm h1)) (\<lambda>c.
             if \<not> is_socket c \<or> is_closed c then Inr (flags, h1)
             else if user_set_nonblock c then
               res_bind (sylar_assert (flags OR O_NONBLOCK \<noteq> 0)) (\<lambda>_. Inr (flags, h1))
             else Inr (flags AND NOT O_NONBLOCK, h1)))
      | F_SETFL flags \<Rightarrow>
          if \<not> is_exist fd (fdm h) then Inr (libc_fcntl L fd (F_SETFL flags) h)
          else
            res_bind (get_fd_context fd (fdm h)) (\<lambda>c.
            if is_closed c \<or> \<not> is_socket c then Inr (libc_fcntl L fd (F_SETFL flags) h)
            else
              let h1 = h\<lparr>fdm := put_fd fd (c\<lparr>user_set_nonblock := (flags AND O_NONBLOCK \<noteq> 0)\<rparr>) (fdm h)\<rparr>;
                  flags1 = (if sys_set_nonblock c then flags OR O_NONBLOCK else flags)
              in Inr (libc_fcntl L fd (F_SETFL flags1) h1))
      | Unknown_cmd n _ \<Rightarrow> Inr (libc_fcntl L fd (Unknown_cmd n None) h)
      | _ \<Rightarrow> Inr (libc_fcntl L fd cmd h))"

text \<open>\<open>tv\<close> is the \<^verbatim>\<open>timeval\<close> behind \<^verbatim>\<open>optval\<close>, \<open>ret\<close> what the original \<^verbatim>\<open>setsockopt\<close> returned.\<close>

definition timeval_ticks :: "int \<times> int \<Rightarrow> int res" where
  "timeval_ticks tv =
     res_bind (ticks (fst tv * 1000000)) (\<lambda>s.
     res_bind (ticks (s + snd tv)) (\<lambda>us. ticks (us * 1000)))"

definition hook_setsockopt ::
  "int \<Rightarrow> int \<Rightarrow> int \<Rightarrow> int \<times> int \<Rightarrow> int \<Rightarrow> 'k hstate \<Rightarrow> (int \<times> 'k hstate) res" where
  "hook_setsockopt fd level optname tv ret h =
     (if level = SOL_SOCKET \<and> (optname = SO_RCVTIMEO \<or> optname = SO_SNDTIMEO) \<and>
         is_exist fd (fdm h) then
        res_bind (get_fd_context fd (fdm h)) (\<lambda>c.
        res_bind (timeval_ticks tv) (\<lambda>d.
        let c' = (if optname = SO_RCVTIMEO then c\<lparr>r_timeout := d\<rparr> else c\<lparr>w_timeout := d\<rparr>);
            h1 = h\<lparr>fdm := put_fd fd c' (fdm h)\<rparr>
        in res_bind (sylar_assert (ret = 0)) (\<lambda>_. Inr (ret, h1))))
      else Inr (ret, h))"

section \<open>Parking the running coroutine\<close>

text \<open>A coroutine \<open>a\<close> runs in a thread scheduled by \<open>s\<close>.\<close>

definition running :: "senv \<Rightarrow> co_addr \<Rightarrow> coroutine \<Rightarrow> co_addr \<Rightarrow> sthread \<Rightarrow> bool" where
  "running V a c s st \<longleftrightarrow>
     good_env (os V) \<and> tl_scheduler st \<noteq> None \<and> cur (world st) = Some a \<and>
     heap (world st) a = Some c \<and> co_st c = kExec \<and> \<not> isDummyMainCoroutine c \<and>
     sched_co (world st) = Some s \<and> heap (world st) s \<noteq> None \<and> a \<noteq> s"

lemma set_tmr_frame [simp, frame_simps]:
  "world (set_tmr m st) = world st" "tmr (ps (set_tmr m st)) = m"
  "poll (ps (set_tmr m st)) = poll (ps st)" "sch (ps (set_tmr m st)) = sch (ps st)"
  "tl_scheduler (set_tmr m st) = tl_scheduler st" "readings (ps (set_tmr m st)) = readings (ps st)"
  by (simp_all add: set_tmr_def)

lemma set_poll_frame [simp, frame_simps]:
  "world (set_poll p st) = world st" "poll (ps (set_poll p st)) = p"
  "tmr (ps (set_poll p st)) = tmr (ps st)" "sch (ps (set_poll p st)) = sch (ps st)"
  "tl_scheduler (set_poll p st) = tl_scheduler st"
  by (simp_all add: set_poll_def)

lemma yield_running:
  assumes "running V a c s st"
  shows "yield_cur (os V) kHold (Resume_at k) (world st) =
    Inr (upd a (after (Held k)) ((world st)\<lparr>cur := Some s\<rparr>))"
proof -
  from assms obtain d where w: "swapcontext_rc (os V) = 0" "cur (world st) = Some a"
      "heap (world st) a = Some c" "co_st c = kExec" "partner c (world st) = Some s"
      "heap (world st) s = Some d" "a \<noteq> s"
    by (auto simp: running_def good_env_def partner_def)
  from leave_eq[OF w, of "Held k"] show ?thesis by simp
qed

lemma run_after_once:
  assumes "tp_min \<le> now + dur" "now + dur < tp_max"
  shows "\<exists>i m'. run_after now dur cb False m = Inr (i, m') \<and>
    timerList m' = set_insert \<lparr>timer_id = i, timeout_tp = now + dur, interval = 0, timer_cb = cb\<rparr>
      (timerList m)"
  using assms
  by (simp add: run_after_def tp_add_def run_at_def get_next_timer_id_def Let_def add_timer_def
      add_to_heap_def)

lemma run_after_wf:
  assumes "timers_wf m" "run_after now dur cb False m = Inr (i, m')"
  shows "timers_wf m'"
proof -
  have "timers_wf (snd (get_next_timer_id m))"
    using assms(1) by (simp add: get_next_timer_id_def timers_wf_def refresh_timer_fd_def)
  with assms(2) show ?thesis
    by (cases "get_next_timer_id m")
      (auto simp: run_after_def run_at_def Let_def res_bind_eq_Inr intro: add_timer_wf)
qed

lemma delay_parked:
  assumes run: "running V a c s st" and m: "timers_wf (tmr (ps st))"
    and rng: "tp_min \<le> now + dur" "now + dur < tp_max"
  obtains i m' where "timers_wf m'"
    "timerList m' = set_insert \<lparr>timer_id = i, timeout_tp = now + dur, interval = 0,
       timer_cb = Some (Spawn_co a 0 Return)\<rparr> (timerList (tmr (ps st)))"
    "delay V now dur rest st = Inr ((set_tmr m' st)\<lparr>world :=
       upd a (after (Held rest)) ((world st)\<lparr>cur := Some s\<rparr>)\<rparr>)"
proof -
  have at: "tl_scheduler st \<noteq> None" "cur (world st) = Some a" "heap (world st) a = Some c"
    using run by (auto simp: running_def)
  obtain i m' where m': "run_after now dur (Some (Spawn_co a 0 Return)) False (tmr (ps st)) = Inr (i, m')"
      "timerList m' = set_insert \<lparr>timer_id = i, timeout_tp = now + dur, interval = 0,
         timer_cb = Some (Spawn_co a 0 Return)\<rparr> (timerList (tmr (ps st)))"
    using run_after_once[OF rng] by blast
  have "timers_wf m'" using m m'(1) by (rule run_after_wf)
  moreover have "delay V now dur rest st = Inr ((set_tmr m' st)\<lparr>world :=
       upd a (after (Held rest)) ((world st)\<lparr>cur := Some s\<rparr>)\<rparr>)"
    using at m'(1) yield_running[OF run, of rest] by (auto simp: delay_def get_current_def)
  ultimately show ?thesis using that m'(2) by blast
qed

lemma hook_sleep_parked:
  assumes run: "running V a c s st" and on: "tl_enable_hook st" and m: "timers_wf (tmr (ps st))"
    and rng: "0 \<le> now" "now + uint seconds * 1000000000 < tp_max"
  obtains i m' where "timers_wf m'"
    "timerList m' = set_insert \<lparr>timer_id = i, timeout_tp = now + uint seconds * 1000000000, interval = 0,
       timer_cb = Some (Spawn_co a 0 Return)\<rparr> (timerList (tmr (ps st)))"
    "hook_sleep V r now seconds rest st = Inr (Parked, (set_tmr m' st)\<lparr>world :=
       upd a (after (Held rest)) ((world st)\<lparr>cur := Some s\<rparr>)\<rparr>)"
proof -
  have "tp_min \<le> 0" "0 \<le> now + uint seconds * 1000000000" using rng(1) by (simp_all add: tp_min_def)
  then have lo: "tp_min \<le> now + uint seconds * 1000000000" by linarith
  show ?thesis
  proof (rule delay_parked[OF run m lo rng(2), of rest])
    fix i m'
    assume d: "timers_wf m'"
      "timerList m' = set_insert \<lparr>timer_id = i, timeout_tp = now + uint seconds * 1000000000,
         interval = 0, timer_cb = Some (Spawn_co a 0 Return)\<rparr> (timerList (tmr (ps st)))"
      "delay V now (uint seconds * 1000000000) rest st = Inr ((set_tmr m' st)\<lparr>world :=
         upd a (after (Held rest)) ((world st)\<lparr>cur := Some s\<rparr>)\<rparr>)"
    show thesis by (rule that[OF d(1,2)]) (use d(3) on in \<open>simp add: hook_sleep_def\<close>)
  qed
qed

text \<open>The three sleeps differ in how they compute the duration, and \<^verbatim>\<open>nanosleep\<close> can overflow there.\<close>

lemma hooked_sleeps_delay:
  assumes "tl_enable_hook st" "delay V now dur rest st = Inr st'"
  shows "dur = uint seconds * 1000000000 \<Longrightarrow> hook_sleep V r now seconds rest st = Inr (Parked, st')"
    and "dur = uint usec * 1000 \<Longrightarrow> hook_usleep V r' now usec rest st = Inr (Parked, st')"
    and "ticks (sec * 1000000000) \<noteq> Inl Undefined_behaviour \<Longrightarrow> ticks dur \<noteq> Inl Undefined_behaviour \<Longrightarrow>
      dur = sec * 1000000000 + nsec \<Longrightarrow> hook_nanosleep V r' now (sec, nsec) rest st = Inr (Parked, st')"
  using assms by (auto simp: hook_sleep_def hook_usleep_def hook_nanosleep_def ticks_def split: if_splits)

lemma retry_eintr_skips:
  assumes "\<not> (fst r = - 1 \<and> snd r = EINTR)"
  shows "retry_eintr (replicate n (- 1, EINTR) @ r # rs) = Inr (r, rs)"
  using assms by (induction n) (cases r; auto)+

text \<open>A hooked socket: registered, in blocking mode for its user.\<close>

definition blocking_socket :: "int \<Rightarrow> fd_ctx \<Rightarrow> 'k hstate \<Rightarrow> bool" where
  "blocking_socket fd c h \<longleftrightarrow> tl_enable_hook (thr h) \<and> fdSet (fdm h) fd = Some c \<and>
     is_socket c \<and> \<not> is_closed c \<and> \<not> user_set_nonblock c"

lemma hook_read_round:
  assumes "blocking_socket fd c h"
  shows "hook_read V now fd rest rs h =
    res_bind (io_round V now c fd EPOLLIN rest 0 rs (thr h)) (\<lambda>(out, i, rs', st).
      Inr (out, i, rs', h\<lparr>thr := st\<rparr>))"
  using assms
  by (simp add: hook_read_def do_io_def blocking_socket_def is_exist_def get_fd_context_Some Let_def)

section \<open>Properties\<close>

definition blank_hstate :: "sthread \<Rightarrow> fd_manager \<Rightarrow> 'k \<Rightarrow> 'k hstate" where
  "blank_hstate st m k = \<lparr>thr = st, fdm = m, kern = k\<rparr>"

definition user_socket :: "int \<Rightarrow> fd_ctx" where
  "user_socket fd = \<lparr>ctx_fd = fd, is_closed = False, is_socket = True, sys_set_nonblock = True,
     user_set_nonblock = False, r_timeout = tp_max, w_timeout = tp_max\<rparr>"

text \<open>A thread in which coroutine 1 runs, scheduled by the main coroutine 0.\<close>

definition demo_running :: sthread where
  "demo_running = (demo_thread 7 ((demo_world Return)\<lparr>heap := [0 \<mapsto> demo_main,
     1 \<mapsto> (demo_task Return)\<lparr>co_st := kExec\<rparr>], cur := Some 1\<rparr>) (empty_sched ''s''))
     \<lparr>tl_scheduler := Some 1, tl_enable_hook := True\<rparr>"

lemma demo_running_ok: "running demo_senv 1 ((demo_task Return)\<lparr>co_st := kExec\<rparr>) 0 demo_running"
  by (simp add: running_def demo_senv_def demo_running_def demo_thread_def demo_world_def
      demo_main_def demo_task_def good_env_def sunny_env_def)

text \<open>
  A hooked \<^verbatim>\<open>fcntl\<close> keeps the kernel's descriptor non-blocking and shows the user the
  mode the user chose: after a successful \<^verbatim>\<open>F_SETFL\<close> on a hooked socket the kernel has
  \<^verbatim>\<open>O_NONBLOCK\<close> set, and a following hooked \<^verbatim>\<open>F_GETFL\<close> reports it exactly if the user passed it.
\<close>

theorem fcntl_hides_nonblock:
  assumes "posix_status_flags L" "fdSet (fdm h) fd = Some c" "is_socket c" "\<not> is_closed c"
    and "sys_set_nonblock c" "hook_fcntl L fd (F_SETFL fl) h = Inr (0, h')"
  shows "status_flags L fd (kern h') AND O_NONBLOCK = O_NONBLOCK \<and>
    (\<exists>v h''. hook_fcntl L fd F_GETFL h' = Inr (v, h'') \<and>
       (v AND O_NONBLOCK \<noteq> 0 \<longleftrightarrow> fl AND O_NONBLOCK \<noteq> 0))"
proof -
  obtain e k' where set: "sys_fcntl L fd (F_SETFL (fl OR O_NONBLOCK)) (kern h) = (0, e, k')"
    and h': "h' = h\<lparr>fdm := put_fd fd (c\<lparr>user_set_nonblock := (fl AND O_NONBLOCK \<noteq> 0)\<rparr>) (fdm h),
      kern := k'\<rparr>"
    using assms(2-)
    by (auto simp: hook_fcntl_def is_exist_def get_fd_context_Some Let_def libc_fcntl_def
        split: prod.splits)
  have "(fl OR O_NONBLOCK) AND O_NONBLOCK = O_NONBLOCK"
    by (rule bit_word_eqI) (auto simp: bit_and_iff bit_or_iff)
  then have nb: "status_flags L fd k' AND O_NONBLOCK = O_NONBLOCK"
    using posix_setfl(1)[OF assms(1) set] by simp
  obtain e' where get: "sys_fcntl L fd F_GETFL k' = (status_flags L fd k', e', k')"
    using posix_getfl[OF assms(1)] by blast
  have zero: "(x AND NOT O_NONBLOCK) AND O_NONBLOCK = 0" for x :: u32 by (simp add: and.assoc)
  have ne: "O_NONBLOCK \<noteq> 0" by (simp add: O_NONBLOCK_def)
  have or: "x OR O_NONBLOCK \<noteq> 0" for x :: u32
  proof
    assume "x OR O_NONBLOCK = 0"
    then have "bit (x OR O_NONBLOCK) 11 = bit (0 :: u32) 11" by simp
    then show False by (simp add: bit_or_iff O_NONBLOCK_def)
  qed
  have "hook_fcntl L fd F_GETFL h' = Inr (if fl AND O_NONBLOCK \<noteq> 0 then status_flags L fd k'
      else status_flags L fd k' AND NOT O_NONBLOCK, h')"
    using assms(3,4) or
    by (simp add: hook_fcntl_def libc_fcntl_def get h' fds.look_put_same get_fd_context_Some Let_def)
  with nb zero ne show ?thesis by (auto simp: h')
qed

theorem fcntl_hides_nonblock_witness:
  "\<exists>h' v h''. hook_fcntl flags_libc 5 (F_SETFL 0)
     (blank_hstate demo_running (put_fd 5 (user_socket 5) \<lparr>fdSet = Map.empty\<rparr>) (\<lambda>_. O_NONBLOCK))
       = Inr (0, h') \<and>
     status_flags flags_libc 5 (kern h') AND O_NONBLOCK = O_NONBLOCK \<and>
     hook_fcntl flags_libc 5 F_GETFL h' = Inr (v, h'') \<and> v AND O_NONBLOCK = 0"
proof -
  let ?h = "blank_hstate demo_running (put_fd 5 (user_socket 5) \<lparr>fdSet = Map.empty\<rparr>)
    (\<lambda>_ :: int. O_NONBLOCK)"
  obtain h' where set: "hook_fcntl flags_libc 5 (F_SETFL 0) ?h = Inr (0, h')"
    by (simp add: hook_fcntl_def blank_hstate_def get_fd_context_Some fds.look_put_same
        user_socket_def libc_fcntl_def flags_libc_def Let_def)
  have c: "fdSet (fdm ?h) 5 = Some (user_socket 5)"
    by (simp add: blank_hstate_def fds.look_put_same)
  from fcntl_hides_nonblock[OF flags_libc_posix c _ _ _ set] set show ?thesis
    by (auto simp: user_socket_def)
qed

text \<open>
  A socket created in a hooked thread, on a descriptor number that is not registered, is
  registered for later hooked calls as blocking for its user with no timeouts, while the
  kernel's descriptor is non-blocking; on a number that is still registered (the descriptor was
  closed: \<^verbatim>\<open>close\<close> is not hooked) the call aborts the process.
\<close>

theorem hooked_socket_registered:
  assumes "posix_status_flags L" "tl_enable_hook (thr h)" "sock \<ge> 0"
    and "sys_is_sock L sock (kern h) = Some True"
    and "sys_fcntl L sock F_GETFL (kern h) = (flags, e, kern h)" "flags \<noteq> - 1"
    and "fst (sys_fcntl L sock (F_SETFL O_NONBLOCK) (kern h)) = 0"
  shows "hook_socket L sock h =
    (if fdSet (fdm h) sock = None
     then Inr (sock, h\<lparr>fdm := put_fd sock (user_socket sock) (fdm h),
       kern := (if flags AND O_NONBLOCK \<noteq> 0 then kern h
                else snd (snd (sys_fcntl L sock (F_SETFL O_NONBLOCK) (kern h))))\<rparr>)
     else Inl Assert_failed) \<and>
    (\<forall>h'. hook_socket L sock h = Inr (sock, h') \<longrightarrow>
       status_flags L sock (kern h') AND O_NONBLOCK \<noteq> 0)"
proof
  have ctx: "new_fd_context L sock (kern h) = Inr (user_socket sock,
      if flags AND O_NONBLOCK \<noteq> 0 then kern h
      else snd (snd (sys_fcntl L sock (F_SETFL O_NONBLOCK) (kern h))))"
    using assms by (auto simp: new_fd_context_def user_socket_def Let_def split: prod.splits)
  then show "hook_socket L sock h =
    (if fdSet (fdm h) sock = None
     then Inr (sock, h\<lparr>fdm := put_fd sock (user_socket sock) (fdm h),
       kern := (if flags AND O_NONBLOCK \<noteq> 0 then kern h
                else snd (snd (sys_fcntl L sock (F_SETFL O_NONBLOCK) (kern h))))\<rparr>)
     else Inl Assert_failed)"
    using assms(2,3) by (cases "fdSet (fdm h) sock") (simp_all add: hook_socket_def create_fd_context_def)
  show "\<forall>h'. hook_socket L sock h = Inr (sock, h') \<longrightarrow>
      status_flags L sock (kern h') AND O_NONBLOCK \<noteq> 0"
    using new_fd_context_nonblocking[OF assms(1) ctx] assms(2,3) ctx
    by (auto simp: hook_socket_def create_fd_context_def res_bind_eq_Inr user_socket_def)
qed

theorem hooked_socket_registered_witness:
  "hook_socket flags_libc 5 (blank_hstate demo_running (put_fd 5 (user_socket 5) \<lparr>fdSet = Map.empty\<rparr>)
     (\<lambda>_. 2)) = Inl Assert_failed"
  using hooked_socket_registered[of flags_libc
      "blank_hstate demo_running (put_fd 5 (user_socket 5) \<lparr>fdSet = Map.empty\<rparr>) (\<lambda>_. 2)" 5 2 0]
    flags_libc_posix
  by (simp add: blank_hstate_def demo_running_def fds.look_put_same flags_libc_def)

text \<open>
  A hooked read of a blocking socket that has data returns what the first call of the
  original \<^verbatim>\<open>read\<close> not interrupted by a signal returns, after any number of interrupted
  ones, and changes nothing; in particular the hook loses no data and returns no spurious error.
\<close>

theorem hooked_read_returns_data:
  assumes "blocking_socket fd c h" "\<not> (n = - 1 \<and> (e = EINTR \<or> e = EAGAIN))"
  shows "hook_read V now fd rest (replicate k (- 1, EINTR) @ (n, e) # rs) h =
    Inr (Ret (n, e), 0, rs, h)"
  using assms(2) retry_eintr_skips[of "(n, e)" k rs]
  by (auto simp: hook_read_round[OF assms(1)] io_round_def)

theorem hooked_read_returns_data_witness:
  "hook_read demo_senv 0 5 Return [(- 1, EINTR), (12, 0)]
     (blank_hstate demo_running (put_fd 5 (user_socket 5) \<lparr>fdSet = Map.empty\<rparr>) ()) =
   Inr (Ret (12, 0), 0, [], blank_hstate demo_running (put_fd 5 (user_socket 5) \<lparr>fdSet = Map.empty\<rparr>) ())"
proof -
  have "blocking_socket 5 (user_socket 5)
      (blank_hstate demo_running (put_fd 5 (user_socket 5) \<lparr>fdSet = Map.empty\<rparr>) ())"
    by (simp add: blocking_socket_def blank_hstate_def demo_running_def fds.look_put_same user_socket_def)
  from hooked_read_returns_data[OF this, of 12 0 demo_senv 0 Return 1 "[]"] show ?thesis by simp
qed

text \<open>
  C36: A hooked read that has to wait never delivers. It parks the coroutine; when the data
  arrives, handling the ready event aborts the process, and were the coroutine resumed,
  \<^verbatim>\<open>do_io\<close> would dereference the null \<^verbatim>\<open>tie\<close>.
\<close>

theorem hooked_read_never_wakes:
  assumes "blocking_socket fd c h" "r_timeout c = tp_max" "running V a cr s (thr h)"
    and "eventSet (poll (ps (thr h))) fd = None"
  shows "\<exists>h'. hook_read V now fd rest (replicate k (- 1, EINTR) @ (- 1, EAGAIN) # rs) h =
      Inr (Parked, 0, rs, h') \<and>
    heap (world (thr h')) a = Some (cr\<lparr>co_ctx := Resume_at rest, co_st := kHold\<rparr>) \<and>
    cur (world (thr h')) = Some s \<and>
    handle_ready_event clk (From_event fd, EPOLLIN) (ps (thr h')) = Inl Assert_failed \<and>
    do_io_resumed V now c fd EPOLLIN rest 0 rs (thr h') = Inl Undefined_behaviour"
proof -
  have run: "tl_scheduler (thr h) \<noteq> None" "cur (world (thr h)) = Some a"
      "heap (world (thr h)) a = Some cr"
    using assms(3) by (auto simp: running_def)
  have in1: "EPOLLIN AND EPOLLIN \<noteq> 0" "EPOLLIN AND EPOLLOUT = 0" by (simp_all add: epoll_bits)
  obtain p where p: "append_event (world (thr h)) fd EPOLLIN None (poll (ps (thr h))) = Inr p"
    using run in1 by (cases "get_or_create_event fd (poll (ps (thr h)))")
      (simp add: append_event_def get_current_def Let_def)
  define st' where "st' = (set_poll p (thr h))\<lparr>world :=
    upd a (after (Held rest)) ((world (thr h))\<lparr>cur := Some s\<rparr>)\<rparr>"
  have same: "set_tmr (tmr (ps (thr h))) (thr h) = thr h" by (simp add: set_tmr_def)
  have "retry_eintr (replicate k (- 1, EINTR) @ (- 1, EAGAIN) # rs) = Inr ((- 1, EAGAIN), rs)"
    by (rule retry_eintr_skips) (simp add: EINTR_def EAGAIN_def)
  then have "hook_read V now fd rest (replicate k (- 1, EINTR) @ (- 1, EAGAIN) # rs) h =
      Inr (Parked, 0, rs, h\<lparr>thr := st'\<rparr>)"
    using run p yield_running[OF assms(3), of rest] assms(2) in1
    by (auto simp: hook_read_round[OF assms(1)] io_round_def get_timeout_def same st'_def)
  moreover have "ps st' = (ps (thr h))\<lparr>poll := p\<rparr>" by (simp add: st'_def set_poll_def)
  then have "handle_ready_event clk (From_event fd, EPOLLIN) (ps st') = Inl Assert_failed"
    using append_event_ready[of "ps (thr h)" fd "world (thr h)" None p clk] assms(4) p by simp
  ultimately show ?thesis
    using run by (intro exI[of _ "h\<lparr>thr := st'\<rparr>"])
      (simp add: st'_def do_io_resumed_def after_yield_def)
qed

theorem hooked_read_never_wakes_witness:
  "\<exists>h'. hook_read demo_senv 0 5 Return [(- 1, EAGAIN)]
      (blank_hstate demo_running (put_fd 5 (user_socket 5) \<lparr>fdSet = Map.empty\<rparr>) ()) =
      Inr (Parked, 0, [], h') \<and>
    handle_ready_event (\<lambda>_. 0) (From_event 5, EPOLLIN) (ps (thr h')) = Inl Assert_failed"
proof -
  let ?h = "blank_hstate demo_running (put_fd 5 (user_socket 5) \<lparr>fdSet = Map.empty\<rparr>) ()"
  have "blocking_socket 5 (user_socket 5) ?h"
    by (simp add: blocking_socket_def blank_hstate_def demo_running_def fds.look_put_same user_socket_def)
  moreover have "running demo_senv 1 ((demo_task Return)\<lparr>co_st := kExec\<rparr>) 0 (thr ?h)"
    using demo_running_ok by (simp add: blank_hstate_def)
  moreover have "eventSet (poll (ps (thr ?h))) 5 = None"
    by (simp add: blank_hstate_def demo_running_def demo_thread_def idle_poll_def init_poller_def)
  ultimately show ?thesis
    using hooked_read_never_wakes[of 5 "user_socket 5" ?h demo_senv 1 _ 0 0 Return 0 "[]" "\<lambda>_. 0"]
    by (auto simp: user_socket_def)
qed

text \<open>
  A hooked \<^verbatim>\<open>sleep\<close> parks the calling coroutine, gives control back to the scheduling
  coroutine, and leaves a one-shot timer, due exactly after the seconds asked for, whose
  callback hands the coroutine back to the scheduler - unless a timer with the same expiration
  time is waiting already: then no timer is left for this coroutine and nothing wakes it.
\<close>

theorem hooked_sleep_parks_until_deadline:
  assumes "running V a c s st" "tl_enable_hook st" "timers_wf (tmr (ps st))" "0 \<le> now"
    and "now + uint seconds * 1000000000 < tp_max"
  shows "\<exists>st' i. hook_sleep V r now seconds rest st = Inr (Parked, st') \<and>
    cur (world st') = Some s \<and>
    heap (world st') a = Some (c\<lparr>co_ctx := Resume_at rest, co_st := kHold\<rparr>) \<and>
    set (timerList (tmr (ps st'))) = set (timerList (tmr (ps st))) \<union>
      (if \<exists>u\<in>set (timerList (tmr (ps st))). timeout_tp u = now + uint seconds * 1000000000 then {}
       else {\<lparr>timer_id = i, timeout_tp = now + uint seconds * 1000000000, interval = 0,
               timer_cb = Some (Spawn_co a 0 Return)\<rparr>}) \<and>
    run_body (alive V) (Spawn_co a 0 Return) = ([Req_co a 0], Returned)"
proof -
  define dur where "dur = uint seconds * 1000000000"
  obtain i m' where m': "timerList m' = set_insert \<lparr>timer_id = i, timeout_tp = now + dur, interval = 0,
         timer_cb = Some (Spawn_co a 0 Return)\<rparr> (timerList (tmr (ps st)))"
      "hook_sleep V r now seconds rest st = Inr (Parked, (set_tmr m' st)\<lparr>world :=
         upd a (after (Held rest)) ((world st)\<lparr>cur := Some s\<rparr>)\<rparr>)"
    unfolding dur_def by (rule hook_sleep_parked[OF assms])
  have "ordered (timerList (tmr (ps st)))" using assms(3) by (simp add: timers_wf_def)
  then have "set (timerList m') = set (timerList (tmr (ps st))) \<union>
      (if \<exists>u\<in>set (timerList (tmr (ps st))). timeout_tp u = now + dur then {}
       else {\<lparr>timer_id = i, timeout_tp = now + dur, interval = 0,
               timer_cb = Some (Spawn_co a 0 Return)\<rparr>})"
    by (auto simp: m'(1) set_set_insert)
  moreover have "heap (world st) a = Some c" using assms(1) by (simp add: running_def)
  ultimately show ?thesis
    using m'(2) by (intro exI[of _ "(set_tmr m' st)\<lparr>world :=
      upd a (after (Held rest)) ((world st)\<lparr>cur := Some s\<rparr>)\<rparr>"] exI[of _ i]) (simp add: dur_def[symmetric])
qed

theorem hooked_sleep_parks_until_deadline_witness:
  "\<exists>st'. hook_sleep demo_senv 0 5 3 Return demo_running = Inr (Parked, st') \<and>
    cur (world st') = Some 0 \<and>
    (\<exists>t\<in>set (timerList (tmr (ps st'))). timeout_tp t = 3000000005 \<and>
       timer_cb t = Some (Spawn_co 1 0 Return))"
proof -
  have none: "timerList (tmr (ps demo_running)) = []" "tl_enable_hook demo_running"
    by (simp_all add: demo_running_def demo_thread_def idle_poll_def init_timers_def)
  have wf: "timers_wf (tmr (ps demo_running))"
    by (simp add: demo_running_def demo_thread_def idle_poll_def init_timers_wf)
  have "5 + uint (3 :: u32) * 1000000000 < tp_max" by (simp add: tp_max_def)
  from hooked_sleep_parks_until_deadline[OF demo_running_ok none(2) wf _ this, of 0 Return] none(1)
  show ?thesis by fastforce
qed

lemma ticks_range: "ticks x = Inr y \<longleftrightarrow> y = x \<and> tp_min \<le> x \<and> x \<le> tp_max"
  by (auto simp: ticks_def)

lemma whole_seconds_range:
  "tp_min \<le> sec * 1000000000 \<and> sec * 1000000000 \<le> tp_max \<longleftrightarrow> - 9223372036 \<le> sec \<and> sec \<le> 9223372036"
  by (simp add: tp_min_def tp_max_def) linarith

text \<open>
  C35: A hooked \<^verbatim>\<open>nanosleep\<close> parks the coroutine exactly if the seconds in nanoseconds, the whole
  duration and the deadline all fit a signed 64-bit tick count and the deadline is not the
  largest one; every other request fails. A negative time and more than a second of nanoseconds
  are not refused, as the call it replaces does.
\<close>

theorem nanosleep_bounds:
  assumes "running V a c s st" "tl_enable_hook st" "timers_wf (tmr (ps st))"
  shows "(\<exists>st'. hook_nanosleep V r now (sec, nsec) rest st = Inr (Parked, st')) \<longleftrightarrow>
    - 9223372036 \<le> sec \<and> sec \<le> 9223372036 \<and>
    tp_min \<le> sec * 1000000000 + nsec \<and> sec * 1000000000 + nsec \<le> tp_max \<and>
    tp_min \<le> now + (sec * 1000000000 + nsec) \<and> now + (sec * 1000000000 + nsec) < tp_max"
proof -
  define dur where "dur = sec * 1000000000 + nsec"
  have delay: "(\<exists>st'. delay V now dur rest st = Inr st') \<longleftrightarrow> tp_min \<le> now + dur \<and> now + dur < tp_max"
  proof
    assume "\<exists>st'. delay V now dur rest st = Inr st'"
    then obtain i m cb where "run_after now dur cb False (tmr (ps st)) = Inr (i, m)"
      by (auto simp: delay_def res_bind_eq_Inr)
    then show "tp_min \<le> now + dur \<and> now + dur < tp_max"
      by (auto simp: run_after_def run_at_def tp_add_def Let_def res_bind_eq_Inr add_timer_def
          bind_assert_eq_Inr split: if_splits prod.splits)
  next
    assume "tp_min \<le> now + dur \<and> now + dur < tp_max"
    then have lim: "tp_min \<le> now + dur" "now + dur < tp_max" by simp_all
    show "\<exists>st'. delay V now dur rest st = Inr st'"
      by (rule delay_parked[OF assms(1,3) lim, of rest]) blast
  qed
  have "(\<exists>st'. hook_nanosleep V r now (sec, nsec) rest st = Inr (Parked, st')) \<longleftrightarrow>
      (tp_min \<le> sec * 1000000000 \<and> sec * 1000000000 \<le> tp_max) \<and> tp_min \<le> dur \<and> dur \<le> tp_max \<and>
      (\<exists>st'. delay V now dur rest st = Inr st')"
    using assms(2) by (auto simp: hook_nanosleep_def res_bind_eq_Inr ticks_range dur_def)
  then show ?thesis unfolding delay whole_seconds_range unfolding dur_def by blast
qed

theorem nanosleep_bounds_witness:
  "(\<exists>st'. hook_nanosleep demo_senv 0 5 (2, - 1) Return demo_running = Inr (Parked, st')) \<and>
   \<not> (\<exists>st'. hook_nanosleep demo_senv 0 5 (9223372037, 0) Return demo_running = Inr (Parked, st'))"
proof -
  have on: "tl_enable_hook demo_running" "timers_wf (tmr (ps demo_running))"
    by (simp_all add: demo_running_def demo_thread_def idle_poll_def init_timers_wf)
  show ?thesis
    unfolding nanosleep_bounds[OF demo_running_ok on] by (simp add: tp_min_def tp_max_def)
qed

text \<open>
  A failing \<^verbatim>\<open>F_GETFL\<close> on a registered socket: \<open>-1\<close> loses its \<^verbatim>\<open>O_NONBLOCK\<close> bit, so the caller
  takes the failure for a set of flags.
\<close>

theorem failed_getfl_reports_flags:
  assumes "libc_fcntl L fd F_GETFL h = (- 1, h1)" "fdSet (fdm h1) fd = Some c"
    and "is_socket c" "\<not> is_closed c" "\<not> user_set_nonblock c"
  shows "\<exists>flags. hook_fcntl L fd F_GETFL h = Inr (flags, h1) \<and> flags \<noteq> - 1"
  using assms by (simp add: hook_fcntl_def is_exist_def get_fd_context_def O_NONBLOCK_def)

text \<open>A timeout that the kernel refuses for a registered descriptor ends the process.\<close>

theorem refused_timeout_aborts:
  assumes "fdSet (fdm h) fd = Some c" "timeval_ticks tv = Inr d" "ret \<noteq> 0"
    and "optname = SO_RCVTIMEO \<or> optname = SO_SNDTIMEO"
  shows "hook_setsockopt fd SOL_SOCKET optname tv ret h = Inl Assert_failed"
  using assms by (auto simp: hook_setsockopt_def is_exist_def get_fd_context_def sylar_assert_def)

text \<open>
  A timeout of zero, which takes a timeout away for the call that is replaced, is stored as a
  duration of zero: the next hooked read that blocks gets a timer that is due at once.
\<close>

theorem zero_timeout_is_immediate:
  assumes "fdSet (fdm h) fd = Some c"
  shows "\<exists>h' c'. hook_setsockopt fd SOL_SOCKET SO_RCVTIMEO (0, 0) 0 h = Inr (0, h') \<and>
    fdSet (fdm h') fd = Some c' \<and> get_timeout c' EPOLLIN = Inr 0"
  using assms
  by (simp add: hook_setsockopt_def is_exist_def get_fd_context_def timeval_ticks_def ticks_def
      tp_min_def tp_max_def put_fd_def get_timeout_def EPOLLIN_def sylar_assert_def)

end
