(* ===== verification/Wake_Up.thy ===== *)
theory Wake_Up
  imports Hook
begin

text \<open>
  A whole sleep: the hooked \<^verbatim>\<open>sleep\<close> of a coroutine, the timer behind it, the poll that finds
  the timer due, the callback it posts and the turn of the scheduling loop that goes on with the
  coroutine. Nothing new is modelled here; the lemmas join the operations of Hook, Timer_Manager,
  Epoll_Poller and Scheduler.
\<close>

section \<open>The timer\<close>

lemma earliest_expires:
  assumes w: "timers_wf m" and m: "timerList m = t # us" and t: "\<not> is_repeated t" "timeout_tp t \<le> clk k"
    and us: "\<forall>u\<in>set us. clk (Suc k) < timeout_tp u"
  obtains m' k' where "timerList m' = us" "timers_wf m'"
    "\<And>s. handle_expired_timers clk k m s = Inr (m', co (wrap_callback (timer_cb t) 0) s, k')"
proof -
  have o: "ordered (t # us)" "latestTime m = timeout_tp t" using w m by (simp_all add: timers_wf_def)
  define m' where "m' = refresh_timer_fd (m\<lparr>timerList := us,
    latestTime := (if us = [] then tp_max else timeout_tp (hd us))\<rparr>)"
  obtain k' where "expire_loop clk (Suc k) us [t] = Some (Inr ([t], us, k'))"
    using us by (cases us) (auto simp: expire_loop.simps[where xs = "[]"] expire_loop.simps[where xs = "_ # _"])
  then have "expire_loop clk k (timerList m) [] = Some (Inr ([t], us, k'))"
    using t m by (simp add: expire_loop.simps[where xs = "_ # _"])
  moreover have "us \<noteq> [] \<Longrightarrow> latestTime m < timeout_tp (hd us)"
    using o by (cases us) (simp_all add: timer_less_def)
  ultimately have get: "get_all_expired_timers clk k m = Inr ([t], m', k')"
    by (simp add: get_all_expired_timers_def m'_def)
  show ?thesis
  proof (rule that)
    show "timers_wf m'" by (rule get_all_expired_wf[OF w get])
    show "timerList m' = us" by (simp add: m'_def)
    show "handle_expired_timers clk k m s = Inr (m', co (wrap_callback (timer_cb t) 0) s, k')" for s
      by (simp add: handle_expired_timers_def get)
  qed
qed

section \<open>The turn of the idle coroutine\<close>

lemma idle_swap_in_polls:
  assumes r: "swap_ready (os V) (idle_coroutine st) c s (world st)"
    and c: "co_ctx c = Entry \<and> co_func c = Some Handle_idle \<or> co_ctx c = Resume_at Handle_idle"
    and go: "\<not> is_stopped (sch (ps st))"
    and poll: "poll_and_handle (tl_scheduler st = Some (this V)) (clock V) (waits st) (ps st) = Inr (ws, p)"
  shows "idle_swap_in V st =
    Inr (st\<lparr>world := switched s (idle_coroutine st) (Held Handle_idle) (world st), waits := ws, ps := p\<rparr>)"
proof -
  let ?i = "idle_coroutine st" and ?w = "world st"
  from r obtain d where w: "swapcontext_rc (os V) = 0" "cur ?w = Some s" "heap ?w ?i = Some c"
      "partner c ?w = Some s" "heap ?w s = Some d" "?i \<noteq> s" "co_st c \<noteq> kExec"
    by (auto simp: swap_ready_def)
  define w2 where
    "w2 = upd s (\<lambda>d. d\<lparr>co_ctx := Thread_flow\<rparr>) (set_state ?i kExec (?w\<lparr>cur := Some ?i\<rparr>))"
  have enter: "swap_in_enter (os V) ?i ?w = Inr w2"
    unfolding w2_def using w by (intro swap_in_enter_eq) auto
  have w2: "heap w2 ?i = Some (c\<lparr>co_st := kExec\<rparr>)" "cur w2 = Some ?i"
      "partner (c\<lparr>co_st := kExec\<rparr>) w2 = Some s" "heap w2 s = Some (d\<lparr>co_ctx := Thread_flow\<rparr>)"
    using w by (auto simp: w2_def)
  have "leave (os V) ?i (Held Handle_idle) w2 = Inr (upd ?i (after (Held Handle_idle)) (w2\<lparr>cur := Some s\<rparr>))"
    using leave_eq[OF w(1) w2(2,1) _ w2(3,4) w(6), of "Held Handle_idle"] by simp
  also have "upd ?i (after (Held Handle_idle)) (w2\<lparr>cur := Some s\<rparr>) = switched s ?i (Held Handle_idle) ?w"
    using w by (intro cworld_eqI) (auto simp: w2_def)
  finally have leave: "leave (os V) ?i (Held Handle_idle) w2 = Inr (switched s ?i (Held Handle_idle) ?w)" .
  have "handle_idle V (st\<lparr>world := w2\<rparr>) = Inr (Held Handle_idle, st\<lparr>world := w2, waits := ws, ps := p\<rparr>)"
    using go poll by (simp add: handle_idle_def)
  then show ?thesis
    using c by (auto simp: idle_swap_in_def Let_def enter obj_def w2 leave simp del: leave.simps)
qed


text \<open>What a turn of the loop leaves as it was, and the thread between two turns.\<close>

definition in_order :: "senv \<Rightarrow> co_addr \<Rightarrow> sthread \<Rightarrow> bool" where
  "in_order V s st \<longleftrightarrow> drain_ok (os V) (alive V) (self st) s (idle_coroutine st) (temp_coroutine st) None []
     (world st)"

definition bystander :: "co_addr \<Rightarrow> co_addr \<Rightarrow> sthread \<Rightarrow> bool" where
  "bystander a s st \<longleftrightarrow> a \<noteq> s \<and> a \<noteq> idle_coroutine st \<and> temp_coroutine st \<noteq> Some a \<and> heap (world st) a \<noteq> None"

lemma idle_turn_polls:
  assumes d: "in_order V s st" and cu: "current_task st = None"
    and go: "\<not> is_stopped (sch (ps st))" "idle_state st \<noteq> Some kTerminal"
    and poll: "poll_and_handle (tl_scheduler st = Some (this V)) (clock V) (waits st)
      (ps (on_sch (\<lambda>s. s\<lparr>idleThreadNum := idleThreadNum s + 1\<rparr>) st)) = Inr (ws, p)"
  obtains st' where "idle_turn V st = Inr (True, st')" "in_order V s st'" "current_task st' = None"
    "tasks_of st' = taskList (sch p)" "tmr (ps st') = tmr p" "self st' = self st"
    "\<And>a. bystander a s st \<Longrightarrow> bystander a s st' \<and> heap (world st') a = heap (world st) a"
proof -
  define i where "i = idle_coroutine st"
  have d: "drain_ok (os V) (alive V) (self st) s i (temp_coroutine st) None [] (world st)"
    using d by (simp add: in_order_def i_def)
  have b: "base_ok (os V) s (world st)" using drain_okD(1)[OF d] .
  obtain c where c: "heap (world st) i = Some c" "idle_ok c" using drain_okD(2)[OF d] by blast
  have ni: "i \<noteq> s" using drain_okD(6)[OF d] by auto
  have "co_st c \<noteq> kTerminal" using go(2) c(1) by (simp add: idle_state_def i_def)
  then have pc: "plain_co c" "co_st c \<noteq> kExec"
      "co_ctx c = Entry \<and> co_func c = Some Handle_idle \<or> co_ctx c = Resume_at Handle_idle"
    using c(2) by (auto simp: idle_ok_def)
  define st2 where "st2 = on_sch (\<lambda>s. s\<lparr>idleThreadNum := idleThreadNum s + 1\<rparr>) st"
  define w1 where "w1 = switched s i (Held Handle_idle) (world st)"
  define st3 where "st3 = on_sch (\<lambda>s. s\<lparr>idleThreadNum := idleThreadNum s - 1\<rparr>)
    (st2\<lparr>world := w1, waits := ws, ps := p\<rparr>)"
  have "swap_ready (os V) (idle_coroutine st2) c s (world st2)"
    using b c pc ni by (auto simp: swap_ready_def base_ok_def good_env_def plain_co_def partner_def
        st2_def i_def)
  moreover have "\<not> is_stopped (sch (ps st2))"
    using go(1) by (simp add: is_stopped_def st2_def)
  moreover have "poll_and_handle (tl_scheduler st2 = Some (this V)) (clock V) (waits st2) (ps st2) = Inr (ws, p)"
    using poll by (simp add: st2_def)
  ultimately have "idle_swap_in V st2 = Inr (st2\<lparr>world := w1, waits := ws, ps := p\<rparr>)"
    using idle_swap_in_polls[of V st2 c s ws p] pc(3) by (simp add: w1_def st2_def i_def)
  moreover have h1: "heap w1 i = Some (after (Held Handle_idle) c)" using c ni by (simp add: w1_def)
  ultimately have turn: "idle_turn V st = Inr (True, st3\<lparr>world := set_state i kHold w1\<rparr>)"
    using c \<open>co_st c \<noteq> kTerminal\<close>
    by (simp add: idle_turn_def obj_def Let_def i_def[symmetric] st2_def[symmetric] st3_def[symmetric])
       (simp add: st3_def st2_def i_def)
  have same: "set_state i kHold w1 = w1"
    using h1 by (intro cworld_eqI) auto
  have "drain_ok (os V) (alive V) (self st) s i (temp_coroutine st) None [] w1"
    using d ni c pc drain_okD(3,7)[OF d] base_ok_switched[OF b ni c(1) pc(1), of "Held Handle_idle"]
    by (intro drain_okI[of _ _ _ _ "after (Held Handle_idle) c"])
       (auto simp: w1_def idle_ok_def plain_co_def)
  then have "in_order V s (st3\<lparr>world := w1\<rparr>)"
    by (simp add: in_order_def st3_def st2_def i_def)
  moreover have "bystander a s (st3\<lparr>world := w1\<rparr>) \<and> heap w1 a = heap (world st) a" if "bystander a s st" for a
    using that ni by (auto simp: bystander_def st3_def st2_def w1_def i_def)
  ultimately show ?thesis
    using that[of "st3\<lparr>world := w1\<rparr>"] turn cu by (simp add: same) (simp add: st3_def st2_def tasks_of_def)
qed

section \<open>The turn of the callback\<close>

lemma wrap_in_temp_bystander:
  assumes "wrap_in_temp V f st = Inr (b, st')" "bystander a s st" "base_ok (os V) s (world st)"
  shows "b \<noteq> a \<and> heap (world st') a = heap (world st) a"
proof (cases "temp_coroutine st")
  case None
  have "a \<noteq> free_addr (world st)" using assms(2,3) by (auto simp: bystander_def base_ok_def)
  with None assms(1) show ?thesis
    by (auto simp: wrap_in_temp_def new_coroutine_def alloc_def res_bind_eq_Inr bind_assert_eq_Inr
        split: if_splits)
next
  case (Some c)
  then have "a \<noteq> c" using assms(2) by (auto simp: bystander_def)
  with Some assms(1) show ?thesis
    by (auto simp: wrap_in_temp_def reset_co_def res_bind_eq_Inr bind_assert_eq_Inr split: if_splits)
qed

lemma hand_back_turn:
  assumes d: "in_order V s st" and cu: "current_task st = None" and a: "bystander a s st"
  obtains st' where "callback_turn V (Spawn_co a 0 Return) st = Inr st'" "base_ok (os V) s (world st')"
    "current_task st' = None" "tasks_of st' = tasks_of st @ [wrap_coroutine a 0]" "self st' = self st"
    "tmr (ps st') = tmr (ps st)" "heap (world st') a = heap (world st) a"
proof -
  have d: "drain_ok (os V) (alive V) (self st) s (idle_coroutine st) (temp_coroutine st) None [] (world st)"
    using d by (simp add: in_order_def)
  obtain b w1 c where wrap: "wrap_in_temp V (Spawn_co a 0 Return) st =
        Inr (b, st\<lparr>world := w1, temp_coroutine := Some b\<rparr>)"
    and d1: "drain_ok (os V) (alive V) (self st) s (idle_coroutine st) (Some b) None [] w1"
    and c: "heap w1 b = Some c" "plain_co c" "co_st c = kInit" "co_ctx c = Entry"
      "co_func c = Some (Spawn_co a 0 Return)"
    using wrap_in_temp_ok[OF d] by blast
  have keep: "b \<noteq> a" "heap w1 a = heap (world st) a"
    using wrap_in_temp_bystander[OF wrap a drain_okD(1)[OF d]] by simp_all
  have n: "b \<noteq> s" using drain_okD(7)[OF d1] by auto
  have as: "a \<noteq> s" using a by (simp add: bystander_def)
  have b1: "base_ok (os V) s w1" using drain_okD(1)[OF d1] .
  have "swap_ready (os V) b c s w1"
    using b1 c n by (auto simp: swap_ready_def base_ok_def good_env_def plain_co_def partner_def)
  then have sw: "swap_in (os V) (alive V) b w1 = Inr ([Req_co a 0], switched s b Returned w1)"
    using c by (simp add: swap_in_spec stretch_def)
  define w2 where "w2 = switched s b Returned w1"
  define st2 where "st2 = on_sch (post_requests [Req_co a 0]) (st\<lparr>world := w2, temp_coroutine := Some b\<rparr>)"
  have run: "run_active V b (st\<lparr>world := w1, temp_coroutine := Some b\<rparr>) = Inr st2"
    using sw by (simp add: run_active_eq st2_def w2_def)
  have h2: "heap w2 b = Some (after Returned c)" "heap w2 a = heap w1 a"
    using c(1) n keep(1) as by (simp_all add: w2_def)
  define w3 where "w3 = upd b (\<lambda>c. c\<lparr>co_func := None, co_ctx := Entry, co_st := kInit\<rparr>) w2"
  have b2: "base_ok (os V) s w2" unfolding w2_def by (rule base_ok_switched[OF b1 n c(1,2)])
  have "getcontext_rc (os V) = 0" using b1 by (simp add: base_ok_def good_env_def)
  then have reset: "reset_co (os V) None b w2 = Inr w3"
    using h2(1) c(2) by (simp add: reset_co_def obj_def plain_co_def w3_def)
  have "world st2 = w2" by (simp add: st2_def)
  then have "callback_turn V (Spawn_co a 0 Return) st = Inr (st2\<lparr>world := w3\<rparr>)"
    using h2(1) by (simp add: callback_turn_def wrap run obj_def reset)
  moreover have "base_ok (os V) s w3"
    unfolding w3_def by (rule base_ok_upd[OF b2 n h2(1)]) (use c(2) in \<open>simp add: plain_co_def\<close>)
  moreover have "heap w3 a = heap (world st) a" using keep h2(2) by (simp add: w3_def)
  ultimately show ?thesis
    using that[of "st2\<lparr>world := w3\<rparr>"] cu by (simp add: st2_def tasks_of_def)
qed

section \<open>The turn of the coroutine\<close>

lemma resumed_turn:
  assumes b: "base_ok (os V) s (world st)" and a: "heap (world st) a = Some c" "plain_co c" "a \<noteq> s"
    and c: "co_st c = kHold" "co_ctx c = Resume_at rest"
    and r: "run_body (alive V) rest = (rs, how)" "how = Returned \<or> how = Threw \<or> (\<exists>k. how = Held k)"
  obtains st' where "coroutine_turn V a st = Inr st'" "tasks_of st' = tasks_of st @ map item_of rs"
    "heap (world st') a = Some (after how c)" "tmr (ps st') = tmr (ps st)"
proof -
  have ready: "swap_ready (os V) a c s (world st)"
    using b a c by (auto simp: swap_ready_def base_ok_def good_env_def plain_co_def partner_def)
  have "\<not> is_Stuck how" using r(2) by auto
  then have sw: "swap_in (os V) (alive V) a (world st) = Inr (rs, switched s a how (world st))"
    using c(2) r(1) by (simp add: swap_in_spec[OF ready] stretch_def)
  define st2 where "st2 = on_sch (post_requests rs) (st\<lparr>world := switched s a how (world st)\<rparr>)"
  have run: "run_active V a st = Inr st2" using sw by (simp add: run_active_eq st2_def)
  have h: "heap (world st2) a = Some (after how c)" using a by (simp add: st2_def)
  have same: "set_state a kHold (world st2) = world st2" if "co_st (after how c) = kHold"
    using h that by (intro cworld_eqI) auto
  have "coroutine_turn V a st = Inr st2"
  proof (cases "co_st (after how c) = kHold")
    case True
    then show ?thesis by (simp add: coroutine_turn_def run obj_def h same[OF True])
  next
    case False
    with r(2) have "co_st (after how c) = kTerminal \<or> co_st (after how c) = kExcept" by auto
    then show ?thesis by (elim disjE) (simp_all add: coroutine_turn_def run obj_def h)
  qed
  then show ?thesis using that[of st2] h by (simp add: st2_def tasks_of_def)
qed


section \<open>Properties\<close>

lemma after_held: "\<not> is_Stuck how \<Longrightarrow> (\<forall>k. how \<noteq> Swapped k) \<Longrightarrow> after how (after (Held rest) c) = after how c"
  by (cases how) simp_all

text \<open>
  The moment of the call: coroutine \<open>a\<close> runs as the only task of a scheduling thread that is in
  order, the timers that wait already are due later, and whoever keeps a timer that wakes \<open>a\<close>
  keeps \<open>a\<close> alive, since the callback holds a \<^verbatim>\<open>shared_ptr\<close> to it.
\<close>

definition sleeper :: "senv \<Rightarrow> co_addr \<Rightarrow> coroutine \<Rightarrow> co_addr \<Rightarrow> sthread \<Rightarrow> bool" where
  "sleeper V a c s st \<longleftrightarrow>
     running V a c s st \<and> plain_co c \<and> tl_enable_hook st \<and> tl_scheduler st = Some (this V) \<and>
     in_order V s (st\<lparr>world := (world st)\<lparr>cur := Some s\<rparr>\<rparr>) \<and> idle_state st \<noteq> Some kTerminal \<and>
     a \<noteq> idle_coroutine st \<and> temp_coroutine st \<noteq> Some a \<and> current_task st = Some a \<and>
     tasks_of st = [] \<and> \<not> stopped (sch (ps st)) \<and> timers_wf (tmr (ps st)) \<and>
     (\<forall>p. (\<exists>t\<in>set (timerList (tmr p)). timer_cb t = Some (Spawn_co a 0 Return)) \<longrightarrow> held V p a)"

text \<open>
  C2: A whole sleep. The hooked \<^verbatim>\<open>sleep\<close>, \<^verbatim>\<open>usleep\<close> and \<^verbatim>\<open>nanosleep\<close> of one duration all park the
  coroutine in the same way; the loop of the thread, with nothing else to do, polls; when the
  timerfd reports the expiry, at or after the deadline, the next turn runs the timer's callback in
  the temporary coroutine and the turn after it goes on with the coroutine behind the call, until
  it ends or is held again. What it hands over on the way is queued, and the timers that were
  waiting wait on.
\<close>

theorem sleeping_coroutine_wakes_up:
  assumes "sleeper V a c s st" "0 \<le> dur" "0 \<le> now" "now + dur < tp_max"
    and "\<forall>u\<in>set (timerList (tmr (ps st))). now + dur < timeout_tp u \<and>
      clock V (Suc (readings (ps st))) < timeout_tp u"
    and "waits st = Wait_ready [(From_timerfd, ev)] # ws"
    and "now + dur \<le> clock V (readings (ps st))"
    and "run_body (alive V) rest = (rs, how)" "how = Returned \<or> how = Threw \<or> (\<exists>k. how = Held k)"
  shows "\<exists>st1 st2 st3 st4.
    (\<forall>seconds. dur = uint seconds * 1000000000 \<longrightarrow> hook_sleep V r now seconds rest st = Inr (Parked, st1)) \<and>
    (\<forall>usec. dur = uint usec * 1000 \<longrightarrow> hook_usleep V r' now usec rest st = Inr (Parked, st1)) \<and>
    (\<forall>sec nsec. dur = sec * 1000000000 + nsec \<and> 0 \<le> sec \<and> 0 \<le> nsec \<longrightarrow>
       hook_nanosleep V r' now (sec, nsec) rest st = Inr (Parked, st1)) \<and>
    map_option co_st (heap (world st1) a) = Some kHold \<and>
    sched_iter V st1 = Inr (True, st2) \<and> sched_iter V st2 = Inr (True, st3) \<and> sched_iter V st3 = Inr (True, st4) \<and>
    heap (world st4) a = Some (after how c) \<and> tasks_of st4 = map item_of rs \<and>
    timerList (tmr (ps st4)) = timerList (tmr (ps st))"
proof -
  define D where "D = now + dur"
  have run: "running V a c s st" and pc: "plain_co c" and hook: "tl_enable_hook st"
    and scope: "tl_scheduler st = Some (this V)"
    and order: "in_order V s (st\<lparr>world := (world st)\<lparr>cur := Some s\<rparr>\<rparr>)" and idle: "idle_state st \<noteq> Some kTerminal"
    and ne: "a \<noteq> idle_coroutine st" "temp_coroutine st \<noteq> Some a" and cur: "current_task st = Some a"
    and none: "tasks_of st = []" and going: "\<not> stopped (sch (ps st))" and tw: "timers_wf (tmr (ps st))"
    and own: "\<And>p. \<exists>t\<in>set (timerList (tmr p)). timer_cb t = Some (Spawn_co a 0 Return) \<Longrightarrow> held V p a"
    using assms(1) by (auto simp: sleeper_def)
  have ac: "heap (world st) a = Some c" "a \<noteq> s" using run by (simp_all add: running_def)
  let ?us = "timerList (tmr (ps st))"
  have lo: "tp_min \<le> now + dur" using assms(2,3) by (simp add: tp_min_def)
  obtain i m1 where m1: "timers_wf m1"
      "timerList m1 = set_insert \<lparr>timer_id = i, timeout_tp = D, interval = 0,
         timer_cb = Some (Spawn_co a 0 Return)\<rparr> ?us"
    and park: "delay V now dur rest st = Inr ((set_tmr m1 st)\<lparr>world :=
         upd a (after (Held rest)) ((world st)\<lparr>cur := Some s\<rparr>)\<rparr>)"
    unfolding D_def by (rule delay_parked[OF run tw lo assms(4)])
  define t where "t = \<lparr>timer_id = i, timeout_tp = D, interval = 0, timer_cb = Some (Spawn_co a 0 Return)\<rparr>"
  have "timerList m1 = t # ?us"
    using assms(5) unfolding m1(2) D_def[symmetric] t_def[symmetric]
    by (cases ?us) (auto simp: timer_less_def t_def)
  note m1 = m1(1) this
  define st1 where "st1 = (set_tmr m1 st)\<lparr>world := upd a (after (Held rest)) ((world st)\<lparr>cur := Some s\<rparr>)\<rparr>"
  note calls = hooked_sleeps_delay[OF hook park[folded st1_def]]
  have nano: "hook_nanosleep V r' now (sec, nsec) rest st = Inr (Parked, st1)"
    if "dur = sec * 1000000000 + nsec" "0 \<le> sec" "0 \<le> nsec" for sec nsec
    using that assms(3,4) by (intro calls(3)) (simp_all add: ticks_def tp_min_def)
  \<comment> \<open>the first turn: the task's coroutine is kept, nothing to take, the idle coroutine polls\<close>
  define st1' where "st1' = on_sch (left_with []) (st1\<lparr>current_task := None\<rparr>)"
  have "held V (ps st1) a" by (rule own) (simp add: st1_def m1(2) t_def)
  then have "release V (current_task st1) (st1\<lparr>current_task := None\<rparr>) = Inr (st1\<lparr>current_task := None\<rparr>)"
    using cur by (simp add: release_def st1_def set_tmr_def)
  moreover have "tasks_of st1 = []" using none by (simp add: st1_def tasks_of_def)
  ultimately have iter1: "sched_iter V st1 = idle_turn V st1'"
    using sched_iter_idle[of V st1 "st1\<lparr>current_task := None\<rparr>"] by (simp add: st1'_def)
  have order1: "in_order V s st1'"
    unfolding in_order_def
  proof (rule drain_ok_frame)
    show d: "drain_ok (os V) (alive V) (self st1') s (idle_coroutine st1') (temp_coroutine st1') None []
        ((world st)\<lparr>cur := Some s\<rparr>)"
      using order by (simp add: in_order_def st1'_def st1_def set_tmr_def)
    show "base_ok (os V) s (world st1')"
      using base_ok_upd[OF drain_okD(1)[OF d] ac(2)] ac pc by (simp add: st1'_def st1_def)
    show "heap (world st1') b = heap ((world st)\<lparr>cur := Some s\<rparr>) b"
      if "b = idle_coroutine st1' \<or> temp_coroutine st1' = Some b \<or> None = Some b \<or> b \<in> set (ptrs [])" for b
      using that ne by (auto simp: st1'_def st1_def set_tmr_def)
  qed
  have by1: "bystander a s st1'" using ac ne by (simp add: bystander_def st1'_def st1_def set_tmr_def)
  have h1: "heap (world st1') a = Some (after (Held rest) c)" using ac by (simp add: st1'_def st1_def)
  have t: "\<not> is_repeated t" "timeout_tp t \<le> clock V (readings (ps st))"
    using assms(7) by (simp_all add: is_repeated_def t_def D_def)
  obtain m2 k2 where m2: "timerList m2 = ?us"
    and expire: "\<And>s. handle_expired_timers (clock V) (readings (ps st)) m1 s =
      Inr (m2, co (wrap_callback (timer_cb t) 0) s, k2)"
  proof (rule earliest_expires[where k = "readings (ps st)" and clk = "clock V", OF m1 t])
    show "\<forall>u\<in>set ?us. clock V (Suc (readings (ps st))) < timeout_tp u" using assms(5) by simp
  qed (rule that)
  define p1 where "p1 = ps (on_sch (\<lambda>s. s\<lparr>idleThreadNum := idleThreadNum s + 1\<rparr>) st1')"
  define wake where "wake = wrap_callback (Some (Spawn_co a 0 Return)) 0"
  define p2 where "p2 = p1\<lparr>tmr := m2, sch := co wake (sch p1), readings := k2\<rparr>"
  have p1: "tmr p1 = m1" "readings p1 = readings (ps st)" "taskList (sch p1) = []"
    by (simp_all add: p1_def st1'_def st1_def set_tmr_def)
  have "handle_ready_events (clock V) [(From_timerfd, ev)] p1 = Inr p2"
    by (simp add: handle_ready_events_def handle_ready_event_def p1 expire p2_def wake_def t_def)
  moreover have "waits st1' = waits st" "tl_scheduler st1' = Some (this V)"
    using scope by (simp_all add: st1'_def st1_def set_tmr_def)
  ultimately have poll: "poll_and_handle (tl_scheduler st1' = Some (this V)) (clock V) (waits st1') p1 = Inr (ws, p2)"
    using assms(6) by (simp add: poll_and_handle.simps)
  have go: "\<not> is_stopped (sch (ps st1'))" "idle_state st1' \<noteq> Some kTerminal" "current_task st1' = None"
    using going idle ne(1) by (auto simp: is_stopped_def idle_state_def st1'_def st1_def set_tmr_def)
  obtain st2 where st2: "idle_turn V st1' = Inr (True, st2)" "in_order V s st2" "current_task st2 = None"
    "tasks_of st2 = [wake]" "tmr (ps st2) = m2" "bystander a s st2" "heap (world st2) a = Some (after (Held rest) c)"
  proof (rule idle_turn_polls[OF order1 go(3,1,2) poll[unfolded p1_def]])
    fix st'
    assume "idle_turn V st1' = Inr (True, st')" "in_order V s st'" "current_task st' = None"
      "tasks_of st' = taskList (sch p2)" "tmr (ps st') = tmr p2"
      and keep: "\<And>a. bystander a s st1' \<Longrightarrow> bystander a s st' \<and> heap (world st') a = heap (world st1') a"
    then show thesis using keep[OF by1] h1 p1(3) by (intro that[of st']) (simp_all add: p2_def tasks.pending_post)
  qed
  \<comment> \<open>the second turn: the callback in the temporary coroutine\<close>
  define st2' where "st2' = (on_sch (left_with []) st2)\<lparr>current_task := None\<rparr>"
  have wake: "find (eligible (self st2)) [wake] = Some wake" "coroutine_ptr wake = None"
    "callback wake = Some (Spawn_co a 0 Return)"
    by (simp_all add: wake_def wrap_callback_def eligible_def)
  have self2: "st2\<lparr>current_task := None\<rparr> = st2" using st2(3) by simp
  have iter2: "sched_iter V st2 = res_bind (callback_turn V (Spawn_co a 0 Return) st2') (\<lambda>st'. Inr (True, st'))"
    using sched_iter_callback[of V st2 st2 wake] wake st2(3,4) self2 by (simp add: release_def st2'_def)
  have turn2: "in_order V s st2'" "current_task st2' = None" "bystander a s st2'"
    using st2(2,6) by (simp_all add: in_order_def bystander_def st2'_def)
  obtain st3 where st3: "callback_turn V (Spawn_co a 0 Return) st2' = Inr st3" "base_ok (os V) s (world st3)"
    "current_task st3 = None" "tasks_of st3 = tasks_of st2' @ [wrap_coroutine a 0]" "self st3 = self st2'"
    "tmr (ps st3) = tmr (ps st2')" "heap (world st3) a = heap (world st2') a"
    by (rule hand_back_turn[OF turn2])
  have st3': "tasks_of st3 = [wrap_coroutine a 0]" "tmr (ps st3) = m2"
    "heap (world st3) a = Some (after (Held rest) c)"
    using st3(4,6,7) st2(5,7) by (simp_all add: st2'_def)
  note st3 = st3(1-3) st3'
  from iter2 st3(1) have iter2: "sched_iter V st2 = Inr (True, st3)" by simp
  \<comment> \<open>the third turn: the coroutine itself\<close>
  define st3' where "st3' = (on_sch (left_with []) st3)\<lparr>current_task := Some a\<rparr>"
  have self3: "st3\<lparr>current_task := None\<rparr> = st3" using st3(3) by simp
  have "sched_iter V st3 = res_bind (coroutine_turn V a st3') (\<lambda>st'. Inr (True, st'))"
    using sched_iter_coroutine[of V st3 st3 "wrap_coroutine a 0" a "after (Held rest) c"] st3(3,4,6) self3
    by (simp add: release_def st3'_def eligible_def wrap_coroutine_def)
  moreover obtain st4 where st4: "coroutine_turn V a st3' = Inr st4" "tasks_of st4 = tasks_of st3' @ map item_of rs"
    "heap (world st4) a = Some (after how (after (Held rest) c))" "tmr (ps st4) = tmr (ps st3')"
  proof (rule resumed_turn)
    show "base_ok (os V) s (world st3')" "heap (world st3') a = Some (after (Held rest) c)"
      using st3(2,6) by (simp_all add: st3'_def)
  qed (use pc ac(2) assms(8,9) in \<open>simp_all add: plain_co_def\<close>)
  ultimately have iter3: "sched_iter V st3 = Inr (True, st4)" by simp
  have "after how (after (Held rest) c) = after how c"
    using assms(9) by (intro after_held) auto
  then show ?thesis
    using calls(1,2) nano iter1 st2(1) iter2 iter3 st4 st3(5) m2 ac(1)
    by (intro exI[of _ st1] exI[of _ st2] exI[of _ st3] exI[of _ st4]) (simp add: st1_def st3'_def)
qed


text \<open>
  A coroutine that sleeps three seconds at time 5 and then hands over a callback; the clock is
  read when the timerfd has expired.
\<close>

definition sleepy_senv :: senv where
  "sleepy_senv = \<lparr>os = sunny_env, alive = (\<lambda>_. True),
     held = (\<lambda>p a. \<exists>t\<in>set (timerList (tmr p)). timer_cb t = Some (Spawn_co a 0 Return)),
     clock = (\<lambda>_. 3000000007), this = 1\<rparr>"

definition sleepy :: sthread where
  "sleepy = \<lparr>self = 7, world = (demo_world Return)\<lparr>heap := [0 \<mapsto> demo_main,
       1 \<mapsto> (demo_task Return)\<lparr>co_st := kExec\<rparr>, 2 \<mapsto> demo_task Handle_idle], free_addr := 3, cur := Some 1\<rparr>,
     ps = idle_poll ((empty_sched ''s'')\<lparr>stopped := False\<rparr>), waits = [Wait_ready [(From_timerfd, EPOLLIN)]],
     tl_scheduler = Some 1, tl_enable_hook = True, idle_coroutine = 2, temp_coroutine = None,
     current_task = Some 1\<rparr>"

lemma sleepy_ok: "sleeper sleepy_senv 1 ((demo_task Return)\<lparr>co_st := kExec\<rparr>) 0 sleepy"
proof -
  have "running sleepy_senv 1 ((demo_task Return)\<lparr>co_st := kExec\<rparr>) 0 sleepy"
    by (simp add: running_def sleepy_senv_def sleepy_def demo_world_def good_env_def sunny_env_def demo_task_def)
  moreover have "base_ok sunny_env 0 ((world sleepy)\<lparr>cur := Some 0\<rparr>)"
    by (auto simp: base_ok_def sleepy_def demo_world_def good_env_def sunny_env_def demo_main_def demo_task_def)
  then have "in_order sleepy_senv 0 (sleepy\<lparr>world := (world sleepy)\<lparr>cur := Some 0\<rparr>\<rparr>)"
    unfolding in_order_def
    by (rule_tac c = "demo_task Handle_idle" in drain_okI)
       (auto simp: sleepy_def sleepy_senv_def idle_ok_def plain_co_def demo_task_def demo_world_def)
  ultimately show ?thesis
    by (auto simp: sleeper_def sleepy_def sleepy_senv_def plain_co_def demo_task_def idle_state_def tasks_of_def
        idle_poll_def empty_sched_def init_timers_wf)
qed

theorem sleeping_coroutine_wakes_up_witness:
  "\<exists>st1 st2 st3 st4. hook_sleep sleepy_senv 0 5 3 (Spawn Return 0 Return) sleepy = Inr (Parked, st1) \<and>
    hook_usleep sleepy_senv 0 5 3000000 (Spawn Return 0 Return) sleepy = Inr (Parked, st1) \<and>
    sched_iter sleepy_senv st1 = Inr (True, st2) \<and> sched_iter sleepy_senv st2 = Inr (True, st3) \<and>
    sched_iter sleepy_senv st3 = Inr (True, st4) \<and>
    map_option co_st (heap (world st4) 1) = Some kTerminal \<and>
    tasks_of st4 = [wrap_callback (Some Return) 0] \<and> timerList (tmr (ps st4)) = []"
proof -
  have n: "timerList (tmr (ps sleepy)) = []" by (simp add: sleepy_def idle_poll_def init_timers_def)
  have w: "waits sleepy = Wait_ready [(From_timerfd, EPOLLIN)] # []" by (simp add: sleepy_def)
  have r: "run_body (alive sleepy_senv) (Spawn Return 0 Return) = ([Req_func Return 0], Returned)" by simp
  have b: "5 + 3000000000 < tp_max" "5 + 3000000000 \<le> clock sleepy_senv (readings (ps sleepy))"
    by (simp_all add: tp_max_def sleepy_senv_def)
  obtain st1 st2 st3 st4 where
    "\<forall>seconds. 3000000000 = uint seconds * 1000000000 \<longrightarrow>
       hook_sleep sleepy_senv 0 5 seconds (Spawn Return 0 Return) sleepy = Inr (Parked, st1)"
    "\<forall>usec. 3000000000 = uint usec * 1000 \<longrightarrow>
       hook_usleep sleepy_senv 0 5 usec (Spawn Return 0 Return) sleepy = Inr (Parked, st1)"
    "sched_iter sleepy_senv st1 = Inr (True, st2)" "sched_iter sleepy_senv st2 = Inr (True, st3)"
    "sched_iter sleepy_senv st3 = Inr (True, st4)"
    "heap (world st4) 1 = Some (after Returned ((demo_task Return)\<lparr>co_st := kExec\<rparr>))"
    "tasks_of st4 = map item_of [Req_func Return 0]" "timerList (tmr (ps st4)) = timerList (tmr (ps sleepy))"
    using sleeping_coroutine_wakes_up[OF sleepy_ok _ _ b(1) _ w b(2) r, of 0 0] n by auto
  moreover from this(1,2)
  have "hook_sleep sleepy_senv 0 5 3 (Spawn Return 0 Return) sleepy = Inr (Parked, st1)"
    "hook_usleep sleepy_senv 0 5 3000000 (Spawn Return 0 Return) sleepy = Inr (Parked, st1)"
    by simp_all
  ultimately show ?thesis
    using n by (intro exI[of _ st1] exI[of _ st2] exI[of _ st3] exI[of _ st4]) simp
qed

end
