(* ===== verification/Timer_Race.thy ===== *)
theory Timer_Race
  imports Timer_Manager "HOL-Library.Multiset"
begin

text \<open>
  One timer manager used by several threads (\<^verbatim>\<open>concurrency/timer_manager.cpp\<close>). Adding,
  cancelling and collecting hold the mutex of the manager, so each is one step; what is not
  under the mutex are the expiry of the timerfd, the return of \<^verbatim>\<open>epoll_wait\<close>, the \<^verbatim>\<open>read\<close> of the
  timerfd and the calls of \<^verbatim>\<open>Co\<close> after the collection. The timerfd is registered edge-triggered:
  an expiry makes one waiting thread return, and none if the count has been reset in between.
\<close>

section \<open>The timerfd\<close>

text \<open>
  \<open>counting\<close>: armed and not expired; \<open>ticked\<close>: expired and not read; \<open>edge\<close>: in the ready
  list of the epoll descriptor.
\<close>

record timerfd =
  counting :: bool
  ticked :: bool
  edge :: bool

text \<open>\<^verbatim>\<open>timerfd_settime\<close>: zero disarms; the count of expiries is reset.\<close>

definition settime :: "int \<times> int \<Rightarrow> timerfd \<Rightarrow> timerfd" where
  "settime v d = d\<lparr>counting := (v \<noteq> (0, 0)), ticked := False\<rparr>"

text \<open>
  The calls of \<^verbatim>\<open>RefreshTimerFd\<close> in \<^verbatim>\<open>AddTimer\<close> and \<^verbatim>\<open>RemoveFromHeap\<close> are those where \<^verbatim>\<open>latestTime_\<close> moves.
\<close>

definition rearmed :: "timers \<Rightarrow> timers \<Rightarrow> timerfd \<Rightarrow> timerfd" where
  "rearmed m m' d = (if latestTime m' = latestTime m then d else settime (armed m') d)"

section \<open>Steps\<close>

text \<open>
  A polling thread: in \<^verbatim>\<open>epoll_wait\<close>, back from it for the timerfd, after the \<^verbatim>\<open>read\<close>, and handing
  over what it has collected.
\<close>

datatype poller_pc = Waiting | Woken | Collecting | Handing "timer list"

record trace =
  mgr :: timers
  tfd :: timerfd
  clock_reads :: nat
  pollers :: "poller_pc list"
  queue :: sched

datatype timer_action = Timer_call timer_op | Expiry | Wait_returns nat | Next nat

definition move :: "nat \<Rightarrow> poller_pc \<Rightarrow> trace \<Rightarrow> trace" where
  "move i c s = s\<lparr>pollers := (pollers s)[i := c]\<rparr>"

text \<open>
  \<^verbatim>\<open>HandleExpiredTimers\<close> step by step; a \<^verbatim>\<open>read\<close> without an expiry to report is only logged.
\<close>

fun poller_step :: "(nat \<Rightarrow> int) \<Rightarrow> nat \<Rightarrow> poller_pc \<Rightarrow> trace \<Rightarrow> trace res option" where
  "poller_step clk i Waiting s = None"
| "poller_step clk i Woken s = Some (Inr (move i Collecting (s\<lparr>tfd := (tfd s)\<lparr>ticked := False\<rparr>\<rparr>)))"
| "poller_step clk i Collecting s =
     Some (res_bind (get_all_expired_timers clk (clock_reads s) (mgr s)) (\<lambda>(expired, m, k).
       Inr (move i (Handing expired)
         (s\<lparr>mgr := m, tfd := settime (armed m) (tfd s), clock_reads := k\<rparr>))))"
| "poller_step clk i (Handing (t # ts)) s =
     Some (Inr (move i (Handing ts) (s\<lparr>queue := co (wrap_callback (timer_cb t) 0) (queue s)\<rparr>)))"
| "poller_step clk i (Handing []) s = Some (Inr (move i Waiting s))"

text \<open>
  The kernel's clock is the one the code reads: an expiry comes when the time the timerfd is
  armed with is not later than the next reading. Collecting is private to the polling threads.
\<close>

fun timer_act :: "(nat \<Rightarrow> int) \<Rightarrow> timer_action \<Rightarrow> trace \<Rightarrow> trace res option" where
  "timer_act clk (Timer_call (T_expire c)) s = None"
| "timer_act clk (Timer_call x) s =
     Some (res_bind (timer_exec x (mgr s)) (\<lambda>m.
       Inr (s\<lparr>mgr := m, tfd := rearmed (mgr s) m (tfd s)\<rparr>)))"
| "timer_act clk Expiry s =
     (if counting (tfd s) \<and>
         fst (armed (mgr s)) * 1000000000 + snd (armed (mgr s)) \<le> clk (clock_reads s)
      then Some (Inr (s\<lparr>tfd := \<lparr>counting = False, ticked = True, edge = True\<rparr>\<rparr>)) else None)"
| "timer_act clk (Wait_returns i) s =
     (if i < length (pollers s) \<and> pollers s ! i = Waiting \<and> edge (tfd s)
      then Some (Inr (move i (if ticked (tfd s) then Woken else Waiting)
        (s\<lparr>tfd := (tfd s)\<lparr>edge := False\<rparr>\<rparr>))) else None)"
| "timer_act clk (Next i) s =
     (if i < length (pollers s) then poller_step clk i (pollers s ! i) s else None)"

definition timers_of_pool :: "nat \<Rightarrow> trace" where
  "timers_of_pool n = \<lparr>mgr = init_timers, tfd = \<lparr>counting = False, ticked = False, edge = False\<rparr>,
     clock_reads = 0, pollers = replicate n Waiting, queue = empty_sched ''s''\<rparr>"

section \<open>One polling thread\<close>

text \<open>An expiry is on its way to the collection.\<close>

definition under_way :: "trace \<Rightarrow> bool" where
  "under_way s \<longleftrightarrow> ticked (tfd s) \<or> Woken \<in> set (pollers s) \<or> Collecting \<in> set (pollers s)"

text \<open>
  Timers that fire once, and cancellations of pending timers while no expiry is under way.
\<close>

definition fires_once :: "timer \<Rightarrow> bool" where
  "fires_once t \<longleftrightarrow> \<not> is_repeated t \<and> timeout_tp t \<noteq> tp_max"

fun careful :: "timer_action \<Rightarrow> trace \<Rightarrow> bool" where
  "careful (Timer_call (T_add t)) s \<longleftrightarrow> fires_once t"
| "careful (Timer_call (T_add_condition t c)) s \<longleftrightarrow> fires_once t"
| "careful (Timer_call (T_cancel i)) s \<longleftrightarrow> has_timer i (mgr s) \<and> \<not> under_way s"
| "careful _ s \<longleftrightarrow> True"

text \<open>While an expiry is under way the earliest timer is due.\<close>

definition one_poller :: "(nat \<Rightarrow> int) \<Rightarrow> trace \<Rightarrow> bool" where
  "one_poller clk s \<longleftrightarrow> mono clk \<and> (\<forall>k. clk k < tp_max) \<and> length (pollers s) = 1 \<and>
     timers_wf (mgr s) \<and> (\<forall>t\<in>set (timerList (mgr s)). fires_once t) \<and>
     (counting (tfd s) \<longrightarrow> armed (mgr s) \<noteq> (0, 0)) \<and>
     (under_way s \<longrightarrow> timerList (mgr s) \<noteq> [] \<and> latestTime (mgr s) \<le> clk (clock_reads s))"

lemma armed_unmoved:
  "timers_wf m \<Longrightarrow> timers_wf m' \<Longrightarrow> latestTime m' = latestTime m \<Longrightarrow> armed m' = armed m"
  using armed_refresh[of m' m] by (simp add: timers_wf_def)

lemma armed_time:
  assumes "timers_wf m" "armed m \<noteq> (0, 0)"
  shows "timerList m \<noteq> [] \<and> fst (armed m) * 1000000000 + snd (armed m) = latestTime m"
proof -
  have "latestTime m \<noteq> tp_max"
    using assms by (auto simp: timers_wf_def refresh_timer_fd_def split: if_splits)
  with assms show ?thesis by (auto simp: timers_wf_def refresh_timer_fd_def Let_def split: if_splits)
qed

lemma rearmed_counting:
  assumes "timers_wf m" "timers_wf m'" "counting d \<longrightarrow> armed m \<noteq> (0, 0)" "counting (rearmed m m' d)"
  shows "armed m' \<noteq> (0, 0)"
  using assms armed_unmoved[of m m'] by (auto simp: rearmed_def settime_def split: if_splits)

lemma rearmed_ticked: "ticked (rearmed m m' d) \<Longrightarrow> ticked d"
  by (simp add: rearmed_def settime_def split: if_splits)

lemma one_pollerD:
  assumes "one_poller clk s"
  shows "mono clk" "\<And>k. clk k < tp_max" "length (pollers s) = 1" "timers_wf (mgr s)"
    "\<And>t. t \<in> set (timerList (mgr s)) \<Longrightarrow> fires_once t"
    "counting (tfd s) \<Longrightarrow> armed (mgr s) \<noteq> (0, 0)"
    "under_way s \<Longrightarrow> timerList (mgr s) \<noteq> [] \<and> latestTime (mgr s) \<le> clk (clock_reads s)"
  using assms by (simp_all add: one_poller_def)

lemma add_once:
  assumes w: "timers_wf m" and t: "timeout_tp t \<noteq> tp_max"
  shows "\<exists>m'. add_timer t m = Inr m' \<and> timerList m' = set_insert t (timerList m) \<and>
    (timerList m \<noteq> [] \<longrightarrow> latestTime m' \<le> latestTime m)"
proof -
  obtain m' where m': "add_timer t m = Inr m'" "timerList m' = set_insert t (timerList m)"
    using t by (simp add: add_timer_def add_to_heap_def)
  have w': "timers_wf m'" by (rule add_timer_wf[OF w m'(1)])
  with w m'(2) have "timerList m \<noteq> [] \<longrightarrow> latestTime m' \<le> latestTime m"
    by (simp add: timers_wf_def hd_set_insert)
  with m' show ?thesis by blast
qed

text \<open>What a step of one poller has to show, for a call that succeeds.\<close>

lemma one_poller_call:
  assumes o: "one_poller clk s" and x: "timer_exec x (mgr s) = Inr m"
    and once: "\<And>t. t \<in> set (timerList m) \<Longrightarrow> fires_once t"
    and due: "under_way s \<Longrightarrow> timerList m \<noteq> [] \<and> latestTime m \<le> latestTime (mgr s)"
  shows "one_poller clk (s\<lparr>mgr := m, tfd := rearmed (mgr s) m (tfd s)\<rparr>)"
proof -
  note D = one_pollerD[OF o]
  have w: "timers_wf m" by (rule timer_exec_wf[OF D(4) x])
  moreover have "counting (rearmed (mgr s) m (tfd s)) \<Longrightarrow> armed m \<noteq> (0, 0)"
    using rearmed_counting[OF D(4) w] D(6) by blast
  moreover have "under_way (s\<lparr>mgr := m, tfd := rearmed (mgr s) m (tfd s)\<rparr>) \<Longrightarrow> under_way s"
    by (auto simp: under_way_def dest: rearmed_ticked)
  ultimately show ?thesis
    using D once due by (fastforce simp: one_poller_def)
qed

lemma expire_loop_once:
  assumes r: "expire_loop clk k xs acc = Some (Inr (e, ys, k'))" and o: "\<forall>t\<in>set xs. \<not> is_repeated t"
  shows "mset e + mset ys = mset acc + mset xs"
proof -
  have "(\<forall>t\<in>set xs. \<not> is_repeated t) \<longrightarrow> (\<forall>e ys k'. q = Inr (e, ys, k') \<longrightarrow> mset e + mset ys = mset acc + mset xs)"
    if "expire_loop clk k xs acc = Some q" for q
  proof (rule expire_loop.raw_induct[where P =
        "\<lambda>clk k xs acc q. (\<forall>t\<in>set xs. \<not> is_repeated t) \<longrightarrow>
           (\<forall>e ys k'. q = Inr (e, ys, k') \<longrightarrow> mset e + mset ys = mset acc + mset xs)", OF _ that])
    fix f clk k xs acc q
    assume IH: "\<And>clk k xs acc q. f clk k xs acc = Some q \<Longrightarrow> (\<forall>t\<in>set xs. \<not> is_repeated t) \<longrightarrow>
        (\<forall>e ys k'. q = Inr (e, ys, k') \<longrightarrow> mset e + mset ys = mset acc + mset xs)"
      and eq: "(case xs of [] \<Rightarrow> Some (Inr (rev acc, [], k))
        | t # ts \<Rightarrow> if timeout_tp t \<le> clk k then
            if is_repeated t then
              case tp_add (interval t) (clk (Suc k)) of Inl e \<Rightarrow> Some (Inl e)
              | Inr next_expiration \<Rightarrow> f clk (Suc (Suc k))
                  (set_insert (set_expiration next_expiration t) ts) (t # acc)
            else f clk (Suc k) ts (t # acc)
          else Some (Inr (rev acc, xs, Suc k))) = Some q"
    show "(\<forall>t\<in>set xs. \<not> is_repeated t) \<longrightarrow>
        (\<forall>e ys k'. q = Inr (e, ys, k') \<longrightarrow> mset e + mset ys = mset acc + mset xs)"
    proof (cases xs)
      case Nil
      with eq show ?thesis by auto
    next
      case (Cons t ts)
      with eq show ?thesis by (auto split: if_splits dest!: IH)
    qed
  qed
  with r o show ?thesis by blast
qed

lemma get_all_once:
  assumes "get_all_expired_timers clk k m = Inr (e, m', k')" "\<forall>t\<in>set (timerList m). \<not> is_repeated t"
  shows "mset e + mset (timerList m') = mset (timerList m)"
proof -
  obtain xs where xs: "expire_loop clk k (timerList m) [] = Some (Inr (e, xs, k'))"
      "m' = refresh_timer_fd (m\<lparr>timerList := xs,
        latestTime := (if xs = [] then tp_max else timeout_tp (hd xs))\<rparr>)"
    by (rule get_all_expired_Inr[OF assms(1)])
  with expire_loop_once[OF xs(1) assms(2)] show ?thesis by simp
qed

text \<open>Collecting when the earliest timer is due, and all timers fire once.\<close>

lemma collect_due:
  assumes w: "timers_wf m" and clk: "mono clk" "\<And>k. clk k < tp_max"
    and once: "\<forall>t\<in>set (timerList m). \<not> is_repeated t" and due: "timerList m \<noteq> []" "latestTime m \<le> clk k"
  shows "\<exists>e m' k' now. get_all_expired_timers clk k m = Inr (e, m', k') \<and> clk k \<le> now \<and>
    e = filter (\<lambda>t. timeout_tp t \<le> now) (timerList m) \<and> (\<forall>u\<in>set (timerList m'). now < timeout_tp u)"
proof -
  have ord: "ordered (timerList m)" using w by (simp add: timers_wf_def)
  have again: "\<forall>t\<in>set (timerList m). timeout_tp t < tp_max \<longrightarrow> fires_again_after tp_max clk k t"
    using once by (simp add: fires_again_after_def)
  from expire_loop_returns[OF clk(1) _ ord again refl, of "[]"] clk(2)
  obtain ys k' j where loop: "expire_loop clk k (timerList m) [] =
      Some (Inr (filter (\<lambda>t. timeout_tp t \<le> clk j) (timerList m), ys, k'))"
    and j: "j \<ge> k" and ys: "\<forall>t\<in>set ys. clk j < timeout_tp t"
    by auto
  have now: "clk k \<le> clk j" using monoD[OF clk(1) j] .
  with due(2) have "latestTime m \<le> clk j" by simp
  with ys have "ys \<noteq> [] \<Longrightarrow> latestTime m < timeout_tp (hd ys)"
    by (meson hd_in_set le_less_trans)
  with loop have "get_all_expired_timers clk k m = Inr (filter (\<lambda>t. timeout_tp t \<le> clk j) (timerList m),
      refresh_timer_fd (m\<lparr>timerList := ys,
      latestTime := (if ys = [] then tp_max else timeout_tp (hd ys))\<rparr>), k')"
    by (simp add: get_all_expired_timers_def)
  with now ys show ?thesis by (auto intro!: exI[of _ "clk j"])
qed

lemma one_poller_step:
  assumes o: "one_poller clk s" and r: "poller_step clk 0 (pollers s ! 0) s = Some r"
  shows "\<exists>t. r = Inr t \<and> one_poller clk t"
proof -
  note D = one_pollerD[OF o]
  obtain c where c: "pollers s = [c]" using D(3) by (cases "pollers s") auto
  show ?thesis
  proof (cases c)
    case Woken
    then have "under_way s" by (simp add: under_way_def c)
    with D r c Woken show ?thesis
      by (auto simp: one_poller_def move_def under_way_def)
  next
    case Collecting
    then have due: "timerList (mgr s) \<noteq> []" "latestTime (mgr s) \<le> clk (clock_reads s)"
      using D(7) by (simp_all add: under_way_def c)
    have once: "\<forall>t\<in>set (timerList (mgr s)). \<not> is_repeated t" using D(5) by (auto simp: fires_once_def)
    obtain e m k where get: "get_all_expired_timers clk (clock_reads s) (mgr s) = Inr (e, m, k)"
      using collect_due[OF D(4,1,2) once due] by blast
    have "set (timerList m) \<subseteq> set (timerList (mgr s))"
      using get_all_once[OF get once] by (metis mset_subset_eq_add_right set_mset_mono set_mset_mset)
    with D get_all_expired_wf[OF D(4) get] r c Collecting show ?thesis
      by (auto simp: get move_def one_poller_def under_way_def settime_def subset_iff)
  next
    case (Handing ts)
    with D r c show ?thesis by (cases ts) (auto simp: one_poller_def move_def under_way_def)
  qed (use r c in simp)
qed

lemma one_poller_act:
  assumes o: "one_poller clk s" and c: "careful a s" and r: "timer_act clk a s = Some r"
  shows "\<exists>t. r = Inr t \<and> one_poller clk t"
proof (cases a)
  case (Timer_call x)
  note D = one_pollerD[OF o]
  obtain m where m: "timer_exec x (mgr s) = Inr m" "\<And>t. t \<in> set (timerList m) \<Longrightarrow> fires_once t"
    "under_way s \<Longrightarrow> timerList m \<noteq> [] \<and> latestTime m \<le> latestTime (mgr s)"
  proof (cases x)
    case (T_add t)
    with c Timer_call have t: "fires_once t" by simp
    obtain m where "add_timer t (mgr s) = Inr m" "timerList m = set_insert t (timerList (mgr s))"
      "timerList (mgr s) \<noteq> [] \<longrightarrow> latestTime m \<le> latestTime (mgr s)"
      using add_once[OF D(4), of t] t by (auto simp: fires_once_def)
    moreover from this have "fires_once u" if "u \<in> set (timerList m)" for u
      using that D(5) t set_set_insert_subset[of t "timerList (mgr s)"] by auto
    ultimately show ?thesis using T_add D(7) by (intro that[of m]) auto
  next
    case (T_add_condition t cond)
    define u where "u = t\<lparr>timer_cb := Some (If_alive cond
       (case timer_cb t of Some f \<Rightarrow> f | None \<Rightarrow> Failing_assert))\<rparr>"
    have u: "fires_once u"
      using c Timer_call T_add_condition by (simp add: u_def fires_once_def is_repeated_def)
    obtain m where "add_timer u (mgr s) = Inr m" "timerList m = set_insert u (timerList (mgr s))"
      "timerList (mgr s) \<noteq> [] \<longrightarrow> latestTime m \<le> latestTime (mgr s)"
      using add_once[OF D(4), of u] u by (auto simp: fires_once_def)
    moreover from this have "fires_once v" if "v \<in> set (timerList m)" for v
      using that D(5) u set_set_insert_subset[of u "timerList (mgr s)"] by auto
    ultimately show ?thesis
      using T_add_condition D(7) by (intro that[of m]) (auto simp: add_condition_timer_def u_def)
  next
    case (T_cancel i)
    with c Timer_call have h: "has_timer i (mgr s)" "\<not> under_way s" by simp_all
    obtain m where m: "cancel_timer i (mgr s) = Inr m" "set (timerList m) \<subseteq> set (timerList (mgr s))"
      using cancel_timer_spec[OF D(4), of i] h(1) by auto
    with T_cancel h D(5) show ?thesis by (intro that[of m]) auto
  next
    case T_next_id
    then show ?thesis using D(5,7) by (intro that) (auto simp: get_next_timer_id_def)
  next
    case (T_expire d)
    with r Timer_call show ?thesis by simp
  qed
  have "r = Inr (s\<lparr>mgr := m, tfd := rearmed (mgr s) m (tfd s)\<rparr>)"
    using r m(1) Timer_call by (cases x) auto
  with one_poller_call[OF o m] show ?thesis by blast
next
  case Expiry
  note D = one_pollerD[OF o]
  from Expiry r have e: "armed (mgr s) \<noteq> (0, 0)"
    "fst (armed (mgr s)) * 1000000000 + snd (armed (mgr s)) \<le> clk (clock_reads s)"
    "r = Inr (s\<lparr>tfd := \<lparr>counting = False, ticked = True, edge = True\<rparr>\<rparr>)"
    using D(6) by (auto split: if_splits)
  with armed_time[OF D(4) e(1)] D show ?thesis by (auto simp: one_poller_def under_way_def)
next
  case (Wait_returns i)
  note D = one_pollerD[OF o]
  from Wait_returns r have "i = 0" "pollers s = [Waiting]"
    "r = Inr (move i (if ticked (tfd s) then Woken else Waiting) (s\<lparr>tfd := (tfd s)\<lparr>edge := False\<rparr>\<rparr>))"
    using D(3) by (auto simp: length_Suc_conv split: if_splits)
  with D show ?thesis by (auto simp: one_poller_def under_way_def move_def)
next
  case (Next i)
  with r one_pollerD(3)[OF o] have "i = 0" by (auto split: if_splits)
  with one_poller_step[OF o] r Next one_pollerD(3)[OF o] show ?thesis by simp
qed

interpretation single_poller: guarded_interleaving "timer_act clk" "one_poller clk" careful for clk
  by unfold_locales (rule one_poller_act)

lemma timers_of_pool_one: "mono clk \<Longrightarrow> (\<And>k. clk k < tp_max) \<Longrightarrow> one_poller clk (timers_of_pool 1)"
  by (simp add: one_poller_def timers_of_pool_def init_timers_wf under_way_def)
     (simp add: init_timers_def)

section \<open>Where every timer goes\<close>

text \<open>What an action stores, cancels and hands over, and what the polling threads have collected and not handed over.\<close>

fun stored :: "timer_action \<Rightarrow> trace \<Rightarrow> timer list" where
  "stored (Timer_call (T_add t)) s =
     (if \<exists>u\<in>set (timerList (mgr s)). timeout_tp u = timeout_tp t then [] else [t])"
| "stored (Timer_call (T_add_condition t c)) s =
     (if \<exists>u\<in>set (timerList (mgr s)). timeout_tp u = timeout_tp t then []
      else [t\<lparr>timer_cb := Some (If_alive c
        (case timer_cb t of Some f \<Rightarrow> f | None \<Rightarrow> Failing_assert))\<rparr>])"
| "stored _ s = []"

fun cancelled :: "timer_action \<Rightarrow> trace \<Rightarrow> timer list" where
  "cancelled (Timer_call (T_cancel i)) s =
     (case find (\<lambda>t. timer_id t = i) (timerList (mgr s)) of Some t \<Rightarrow> [t] | None \<Rightarrow> [])"
| "cancelled _ s = []"

fun handed :: "timer_action \<Rightarrow> trace \<Rightarrow> timer list" where
  "handed (Next i) s =
     (if i < length (pollers s) then (case pollers s ! i of Handing (t # ts) \<Rightarrow> [t] | _ \<Rightarrow> []) else [])"
| "handed _ s = []"

fun holding :: "poller_pc \<Rightarrow> timer multiset" where
  "holding (Handing ts) = mset ts"
| "holding _ = {#}"

definition in_hand :: "trace \<Rightarrow> timer multiset" where
  "in_hand s = sum_list (map holding (pollers s))"

text \<open>Only timers that fire once are added.\<close>

fun adds_once :: "timer_action \<Rightarrow> trace \<Rightarrow> bool" where
  "adds_once (Timer_call (T_add t)) s \<longleftrightarrow> \<not> is_repeated t"
| "adds_once (Timer_call (T_add_condition t c)) s \<longleftrightarrow> \<not> is_repeated t"
| "adds_once _ s \<longleftrightarrow> True"

definition once_only :: "trace \<Rightarrow> bool" where
  "once_only s \<longleftrightarrow> timers_wf (mgr s) \<and> (\<forall>t\<in>set (timerList (mgr s)). \<not> is_repeated t)"

lemma mset_set_insert:
  "ordered xs \<Longrightarrow> mset (set_insert t xs) =
     mset (if \<exists>u\<in>set xs. timeout_tp u = timeout_tp t then [] else [t]) + mset xs"
  by (induction xs) (auto simp: timer_less_def)

lemma mset_erase_at: "i < length xs \<Longrightarrow> mset (erase_at i xs) + {#xs ! i#} = mset xs"
proof -
  assume "i < length xs"
  then have "mset (take i xs @ xs ! i # drop (Suc i) xs) = mset xs" by (simp only: id_take_nth_drop[symmetric])
  then show ?thesis by (simp add: erase_at_def)
qed

lemma in_hand_move:
  "i < length (pollers s) \<Longrightarrow> in_hand (move i c s) + holding (pollers s ! i) = in_hand s + holding c"
  by (simp add: in_hand_def move_def sum_list_map_update)

lemma in_hand_frame [simp]:
  "in_hand (s\<lparr>mgr := m\<rparr>) = in_hand s" "in_hand (s\<lparr>tfd := d\<rparr>) = in_hand s"
  "in_hand (s\<lparr>queue := q\<rparr>) = in_hand s" "in_hand (s\<lparr>clock_reads := k\<rparr>) = in_hand s"
  by (simp_all add: in_hand_def)

lemma move_frame [simp]:
  "mgr (move i c s) = mgr s" "queue (move i c s) = queue s"
  by (simp_all add: move_def)

text \<open>The timers of one action: what was there and what is stored is there, in hand, handed over or cancelled.\<close>

definition balanced :: "timer_action \<Rightarrow> trace \<Rightarrow> trace \<Rightarrow> bool" where
  "balanced a s t \<longleftrightarrow>
     mset (timerList (mgr t)) + in_hand t + mset (handed a s) + mset (cancelled a s) =
       mset (timerList (mgr s)) + in_hand s + mset (stored a s) \<and>
     taskList (queue t) = taskList (queue s) @ map (\<lambda>u. wrap_callback (timer_cb u) 0) (handed a s)"

lemma add_timer_list: "add_timer t m = Inr m' \<Longrightarrow> timerList m' = set_insert t (timerList m)"
  by (auto simp: add_timer_def bind_assert_eq_Inr add_to_heap_def)

lemma call_balanced:
  assumes o: "once_only s" and x: "timer_exec x (mgr s) = Inr m" and c: "\<forall>d. x \<noteq> T_expire d"
  shows "balanced (Timer_call x) s (s\<lparr>mgr := m, tfd := rearmed (mgr s) m (tfd s)\<rparr>)"
proof -
  have ord: "ordered (timerList (mgr s))" using o by (simp add: once_only_def timers_wf_def)
  show ?thesis
  proof (cases x)
    case (T_cancel i)
    then obtain j where j: "find_pos (\<lambda>t. timer_id t = i) (timerList (mgr s)) = Some j"
        "timerList m = erase_at j (timerList (mgr s))"
      using x by (auto elim: cancel_timer_Inr)
    with find_pos_find[OF j(1)] mset_erase_at[of j "timerList (mgr s)"] find_pos_Some[OF j(1)] T_cancel
    show ?thesis by (simp add: balanced_def ac_simps)
  qed (use x c ord in \<open>auto simp: balanced_def mset_set_insert add_condition_timer_def
        get_next_timer_id_def is_repeated_def dest!: add_timer_list\<close>)
qed

text \<open>What holds of every pending timer and of what a call adds holds of every pending timer afterwards.\<close>

lemma call_all:
  assumes x: "timer_exec x m = Inr m'" "\<forall>d. x \<noteq> T_expire d" and old: "\<forall>t\<in>set (timerList m). P t"
    and new: "\<And>u. x = T_add u \<Longrightarrow> P u" "\<And>u c b. x = T_add_condition u c \<Longrightarrow> P (u\<lparr>timer_cb := b\<rparr>)"
  shows "\<forall>t\<in>set (timerList m'). P t"
proof (cases x)
  case (T_add u)
  with x have "timerList m' = set_insert u (timerList m)" by (auto dest: add_timer_list)
  with T_add old new(1) show ?thesis using set_set_insert_subset[of u "timerList m"] by auto
next
  case (T_add_condition u c)
  then obtain b where "timerList m' = set_insert (u\<lparr>timer_cb := b\<rparr>) (timerList m)"
    using x by (auto simp: add_condition_timer_def dest: add_timer_list)
  with T_add_condition old new(2) show ?thesis
    using set_set_insert_subset[of "u\<lparr>timer_cb := b\<rparr>" "timerList m"] by auto
next
  case (T_cancel i)
  then obtain j where "timerList m' = erase_at j (timerList m)"
    using x by (auto elim: cancel_timer_Inr)
  with old show ?thesis using set_erase_at_subset[of j "timerList m"] by auto
qed (use x old in \<open>auto simp: get_next_timer_id_def\<close>)

lemma call_once_only:
  assumes o: "once_only s" and x: "timer_exec x (mgr s) = Inr m" "\<forall>d. x \<noteq> T_expire d"
    and a: "adds_once (Timer_call x) s"
  shows "once_only (s\<lparr>mgr := m, tfd := d\<rparr>)"
proof -
  have w: "timers_wf (mgr s)" "\<forall>t\<in>set (timerList (mgr s)). \<not> is_repeated t"
    using o by (simp_all add: once_only_def)
  have "\<forall>t\<in>set (timerList m). \<not> is_repeated t"
    by (rule call_all[OF x w(2)]) (use a in \<open>auto simp: is_repeated_def\<close>)
  with timer_exec_wf[OF w(1) x(1)] show ?thesis by (simp add: once_only_def)
qed

lemma collect_balanced:
  assumes o: "once_only s" and i: "i < length (pollers s)" "pollers s ! i = Collecting"
    and get: "get_all_expired_timers clk k (mgr s) = Inr (e, m, k')"
    and t: "t = move i (Handing e) (s\<lparr>mgr := m, tfd := d, clock_reads := k'\<rparr>)"
  shows "once_only t \<and> balanced (Next i) s t"
proof -
  have w: "timers_wf (mgr s)" and old: "\<forall>t\<in>set (timerList (mgr s)). \<not> is_repeated t"
    using o by (simp_all add: once_only_def)
  note sum = get_all_once[OF get old]
  have "set (timerList m) \<subseteq> set (timerList (mgr s))"
    using sum by (metis mset_subset_eq_add_right set_mset_mono set_mset_mset)
  with get_all_expired_wf[OF w get] old have "once_only t" by (auto simp: once_only_def t)
  moreover have "in_hand t = in_hand s + mset e"
    using in_hand_move[of i "s\<lparr>mgr := m, tfd := d, clock_reads := k'\<rparr>" "Handing e"] i by (simp add: t)
  then have "balanced (Next i) s t"
    using sum i by (simp add: balanced_def t ac_simps)
  ultimately show ?thesis by blast
qed

lemma step_balanced:
  assumes o: "once_only s" and i: "i < length (pollers s)"
    and r: "poller_step clk i (pollers s ! i) s = Some (Inr t)"
  shows "once_only t \<and> balanced (Next i) s t"
proof (cases "pollers s ! i")
  case Collecting
  with r obtain e m k' where "get_all_expired_timers clk (clock_reads s) (mgr s) = Inr (e, m, k')"
    "t = move i (Handing e) (s\<lparr>mgr := m, tfd := settime (armed m) (tfd s), clock_reads := k'\<rparr>)"
    by (auto simp: res_bind_eq_Inr)
  with collect_balanced[OF o i Collecting] show ?thesis by blast
next
  case (Handing ts)
  show ?thesis
  proof (cases ts)
    case Nil
    with Handing r o i in_hand_move[OF i, of Waiting] show ?thesis
      by (auto simp: balanced_def once_only_def)
  next
    case (Cons u us)
    with Handing r have t: "t = move i (Handing us) (s\<lparr>queue := co (wrap_callback (timer_cb u) 0) (queue s)\<rparr>)"
      by simp
    have "in_hand t + {#u#} = in_hand s"
      using in_hand_move[of i "s\<lparr>queue := co (wrap_callback (timer_cb u) 0) (queue s)\<rparr>" "Handing us"]
        i Handing Cons by (simp add: t)
    with o i Handing Cons show ?thesis
      by (simp add: t balanced_def once_only_def tasks.pending_post ac_simps)
  qed
next
  case Woken
  with r o i in_hand_move[of i "s\<lparr>tfd := (tfd s)\<lparr>ticked := False\<rparr>\<rparr>" Collecting] show ?thesis
    by (auto simp: balanced_def once_only_def)
qed (use r in simp)

lemma act_balanced:
  assumes o: "once_only s" and c: "adds_once a s" and r: "timer_act clk a s = Some (Inr t)"
  shows "once_only t \<and> balanced a s t"
proof (cases a)
  case (Timer_call x)
  with r obtain m where m: "timer_exec x (mgr s) = Inr m" "\<forall>d. x \<noteq> T_expire d"
    "t = s\<lparr>mgr := m, tfd := rearmed (mgr s) m (tfd s)\<rparr>"
    by (cases x) (auto simp: res_bind_eq_Inr)
  with call_once_only[OF o m(1,2)] call_balanced[OF o m(1,2)] c Timer_call show ?thesis by simp
next
  case Expiry
  with r o show ?thesis by (auto simp: once_only_def balanced_def split: if_splits)
next
  case (Wait_returns i)
  with r have i: "i < length (pollers s)" "pollers s ! i = Waiting"
    "t = move i (if ticked (tfd s) then Woken else Waiting) (s\<lparr>tfd := (tfd s)\<lparr>edge := False\<rparr>\<rparr>)"
    by (auto split: if_splits)
  with in_hand_move[of i "s\<lparr>tfd := (tfd s)\<lparr>edge := False\<rparr>\<rparr>"
      "if ticked (tfd s) then Woken else Waiting"] o Wait_returns show ?thesis
    by (auto simp: once_only_def balanced_def)
next
  case (Next i)
  with r have "i < length (pollers s)" "poller_step clk i (pollers s ! i) s = Some (Inr t)"
    by (auto split: if_splits)
  with step_balanced[OF o] Next show ?thesis by blast
qed

abbreviation throughout :: "(nat \<Rightarrow> int) \<Rightarrow> (timer_action \<Rightarrow> trace \<Rightarrow> timer list) \<Rightarrow> timer_action list \<Rightarrow> trace \<Rightarrow> timer list" where
  "throughout clk \<equiv> harvest (timer_act clk)"

lemma run_balanced:
  "once_only s \<Longrightarrow> along (timer_act clk) adds_once as s \<Longrightarrow> interleave (timer_act clk) as s = Some (Inr t) \<Longrightarrow>
   mset (timerList (mgr t)) + in_hand t + mset (throughout clk handed as s) + mset (throughout clk cancelled as s) =
     mset (timerList (mgr s)) + in_hand s + mset (throughout clk stored as s) \<and>
   taskList (queue t) =
     taskList (queue s) @ map (\<lambda>u. wrap_callback (timer_cb u) 0) (throughout clk handed as s)"
proof (induction as arbitrary: s)
  case (Cons a as)
  then obtain s1 where s1: "timer_act clk a s = Some (Inr s1)" "interleave (timer_act clk) as s1 = Some (Inr t)"
    by (auto split: option.splits sum.splits)
  with Cons.prems have a: "adds_once a s" "along (timer_act clk) adds_once as s1" by simp_all
  note b = act_balanced[OF Cons.prems(1) a(1) s1(1)]
  note IH = Cons.IH[OF conjunct1[OF b] a(2) s1(2)]
  let ?h = "throughout clk handed as s1" and ?c = "throughout clk cancelled as s1" and ?p = "throughout clk stored as s1"
  have "mset (timerList (mgr t)) + in_hand t + mset (handed a s @ ?h) + mset (cancelled a s @ ?c) =
      (mset (timerList (mgr t)) + in_hand t + mset ?h + mset ?c) + mset (handed a s) + mset (cancelled a s)"
    by (simp add: ac_simps)
  also have "\<dots> = (mset (timerList (mgr s1)) + in_hand s1 + mset (handed a s) + mset (cancelled a s)) + mset ?p"
    using IH by (simp add: ac_simps)
  also have "\<dots> = mset (timerList (mgr s)) + in_hand s + mset (stored a s @ ?p)"
    using b by (simp add: balanced_def ac_simps)
  finally show ?case using IH b s1(1) by (simp add: balanced_def)
qed simp

section \<open>No timer is left alone\<close>

text \<open>
  While timers are pending the timerfd counts, or its expiry is on the way to a thread that collects.
\<close>

definition looked_after :: "trace \<Rightarrow> bool" where
  "looked_after s \<longleftrightarrow> timerList (mgr s) = [] \<or> counting (tfd s) \<or> ticked (tfd s) \<and> edge (tfd s) \<or>
     Woken \<in> set (pollers s) \<or> Collecting \<in> set (pollers s)"

text \<open>Times that can be told from "disarmed", which is what \<^verbatim>\<open>timerfd_settime\<close> makes of the time zero.\<close>

definition proper :: "timer \<Rightarrow> bool" where
  "proper t \<longleftrightarrow> fires_once t \<and> timeout_tp t \<noteq> 0"

fun adds_proper :: "timer_action \<Rightarrow> trace \<Rightarrow> bool" where
  "adds_proper (Timer_call (T_add t)) s \<longleftrightarrow> proper t"
| "adds_proper (Timer_call (T_add_condition t c)) s \<longleftrightarrow> proper t"
| "adds_proper _ s \<longleftrightarrow> True"

definition tended :: "trace \<Rightarrow> bool" where
  "tended s \<longleftrightarrow> timers_wf (mgr s) \<and> (\<forall>t\<in>set (timerList (mgr s)). proper t) \<and> looked_after s"

lemma armed_proper:
  assumes "timers_wf m" "\<forall>t\<in>set (timerList m). proper t" "timerList m \<noteq> []"
  shows "armed m \<noteq> (0, 0)"
proof -
  have "proper (hd (timerList m))" "latestTime m = timeout_tp (hd (timerList m))"
    using assms by (simp_all add: timers_wf_def)
  then have "latestTime m \<noteq> tp_max" "latestTime m \<noteq> 0" by (simp_all add: proper_def fires_once_def)
  with assms(1) show ?thesis by (auto simp: timers_wf_def refresh_timer_fd_def Let_def)
qed

text \<open>A call that does not move the earliest time leaves no list empty that was not, nor the reverse.\<close>

lemma unmoved_nonempty:
  assumes "timers_wf m" "timers_wf m'" "\<forall>t\<in>set (timerList m'). proper t" "latestTime m' = latestTime m"
    "timerList m' \<noteq> []"
  shows "timerList m \<noteq> []"
proof -
  have "timeout_tp (hd (timerList m')) \<noteq> tp_max"
    using assms(3,5) hd_in_set by (simp add: proper_def fires_once_def)
  with assms(1,2,4,5) show ?thesis by (auto simp: timers_wf_def)
qed

lemma act_tended:
  assumes t: "tended s" and a: "adds_proper a s" and r: "timer_act clk a s = Some (Inr u)"
  shows "tended u"
proof (cases a)
  case (Timer_call x)
  with r obtain m where m: "timer_exec x (mgr s) = Inr m" "\<forall>d. x \<noteq> T_expire d"
    "u = s\<lparr>mgr := m, tfd := rearmed (mgr s) m (tfd s)\<rparr>"
    by (cases x) (auto simp: res_bind_eq_Inr)
  have w: "timers_wf (mgr s)" "\<forall>t\<in>set (timerList (mgr s)). proper t"
    using t by (simp_all add: tended_def)
  have w': "timers_wf m" by (rule timer_exec_wf[OF w(1) m(1)])
  have p: "\<forall>t\<in>set (timerList m). proper t"
    by (rule call_all[OF m(1,2) w(2)])
      (use a Timer_call in \<open>auto simp: proper_def fires_once_def is_repeated_def\<close>)
  have "looked_after u"
  proof (cases "latestTime m = latestTime (mgr s)")
    case True
    with t unmoved_nonempty[OF w(1) w' p] show ?thesis
      by (auto simp: m(3) rearmed_def tended_def looked_after_def)
  next
    case False
    with armed_proper[OF w' p] show ?thesis
      by (auto simp: m(3) rearmed_def settime_def looked_after_def)
  qed
  with w' p show ?thesis by (simp add: tended_def m(3))
next
  case Expiry
  with r t show ?thesis by (auto simp: tended_def looked_after_def split: if_splits)
next
  case (Wait_returns i)
  with r have i: "i < length (pollers s)" "pollers s ! i = Waiting" "edge (tfd s)"
    "u = move i (if ticked (tfd s) then Woken else Waiting) (s\<lparr>tfd := (tfd s)\<lparr>edge := False\<rparr>\<rparr>)"
    by (auto split: if_splits)
  show ?thesis
  proof (cases "ticked (tfd s)")
    case True
    with t i show ?thesis by (auto simp: tended_def looked_after_def move_def set_update_memI)
  next
    case False
    have "(pollers s)[i := Waiting] = pollers s" using i(1,2) by (metis list_update_id)
    with False t i show ?thesis by (auto simp: tended_def looked_after_def move_def)
  qed
next
  case (Next i)
  with r have i: "i < length (pollers s)" and st: "poller_step clk i (pollers s ! i) s = Some (Inr u)"
    by (auto split: if_splits)
  have other: "c \<in> set ((pollers s)[i := d])" if "c \<in> set (pollers s)" "pollers s ! i \<noteq> c" for c d
    using that i by (metis in_set_conv_nth length_list_update nth_list_update_neq)
  show ?thesis
  proof (cases "pollers s ! i")
    case Woken
    with st t i show ?thesis by (auto simp: tended_def looked_after_def move_def set_update_memI)
  next
    case Collecting
    with st obtain e m k where get: "get_all_expired_timers clk (clock_reads s) (mgr s) = Inr (e, m, k)"
      and u: "u = move i (Handing e) (s\<lparr>mgr := m, tfd := settime (armed m) (tfd s), clock_reads := k\<rparr>)"
      by (auto simp: res_bind_eq_Inr)
    have w: "timers_wf (mgr s)" and old: "\<forall>t\<in>set (timerList (mgr s)). proper t"
      using t by (simp_all add: tended_def)
    have "set (timerList m) \<subseteq> set (timerList (mgr s))"
      using get_all_once[OF get] old by (metis fires_once_def mset_subset_eq_add_right proper_def set_mset_mono set_mset_mset)
    then have p: "\<forall>t\<in>set (timerList m). proper t" using old by blast
    have w': "timers_wf m" by (rule get_all_expired_wf[OF w get])
    with armed_proper[OF w' p] p show ?thesis
      by (auto simp: u tended_def looked_after_def settime_def move_def)
  next
    case (Handing ts)
    with st t other show ?thesis
      by (cases ts) (auto simp: tended_def looked_after_def move_def)
  qed (use st in simp)
qed

lemma run_tended:
  "tended s \<Longrightarrow> along (timer_act clk) adds_proper as s \<Longrightarrow> interleave (timer_act clk) as s = Some (Inr t) \<Longrightarrow> tended t"
proof (induction as arbitrary: s)
  case (Cons a as)
  then obtain s1 where "timer_act clk a s = Some (Inr s1)" "interleave (timer_act clk) as s1 = Some (Inr t)"
    by (auto split: option.splits sum.splits)
  with Cons.prems act_tended[OF Cons.prems(1)] Cons.IH show ?case by auto
qed simp

section \<open>A thread that is not interrupted\<close>

text \<open>The calls of \<^verbatim>\<open>Co\<close>, and \<^verbatim>\<open>HandleExpiredTimers\<close> as a whole, which does what the sequential model says.\<close>

abbreviation expiry_task :: "timer \<Rightarrow> invocable" where
  "expiry_task t \<equiv> wrap_callback (timer_cb t) 0"

lemma handing_run:
  "i < length (pollers s) \<Longrightarrow> pollers s ! i = Handing ts \<Longrightarrow>
   interleave (timer_act clk) (replicate (Suc (length ts)) (Next i)) s =
     Some (Inr (move i Waiting (s\<lparr>queue := fold co (map expiry_task ts) (queue s)\<rparr>)))"
proof (induction ts arbitrary: s)
  case (Cons t ts)
  define s1 where "s1 = move i (Handing ts) (s\<lparr>queue := co (expiry_task t) (queue s)\<rparr>)"
  have "timer_act clk (Next i) s = Some (Inr s1)" using Cons.prems by (simp add: s1_def)
  moreover have "interleave (timer_act clk) (replicate (Suc (length ts)) (Next i)) s1 =
      Some (Inr (move i Waiting (s1\<lparr>queue := fold co (map expiry_task ts) (queue s1)\<rparr>)))"
    by (rule Cons.IH) (use Cons.prems in \<open>simp_all add: s1_def move_def\<close>)
  moreover have "move i Waiting (s1\<lparr>queue := fold co (map expiry_task ts) (queue s1)\<rparr>) =
      move i Waiting (s\<lparr>queue := fold co (map expiry_task (t # ts)) (queue s)\<rparr>)"
    by (simp add: s1_def move_def)
  ultimately show ?case by (simp del: timer_act.simps)
qed (simp add: move_def)

lemma handling_run:
  assumes i: "i < length (pollers s)" "pollers s ! i = Woken"
    and get: "get_all_expired_timers clk (clock_reads s) (mgr s) = Inr (e, m, k)"
  shows "interleave (timer_act clk) (replicate (length e + 3) (Next i)) s =
    Some (Inr (move i Waiting (s\<lparr>mgr := m, tfd := settime (armed m) (tfd s), clock_reads := k,
      queue := fold co (map expiry_task e) (queue s)\<rparr>)))"
proof -
  define s1 where "s1 = move i Collecting (s\<lparr>tfd := (tfd s)\<lparr>ticked := False\<rparr>\<rparr>)"
  define s2 where "s2 = move i (Handing e) (s1\<lparr>mgr := m, tfd := settime (armed m) (tfd s1), clock_reads := k\<rparr>)"
  have one: "timer_act clk (Next i) s = Some (Inr s1)" using i by (simp add: s1_def)
  have two: "timer_act clk (Next i) s1 = Some (Inr s2)"
    using i(1) get by (simp add: s1_def s2_def move_def)
  have "interleave (timer_act clk) (replicate (Suc (length e)) (Next i)) s2 =
      Some (Inr (move i Waiting (s2\<lparr>queue := fold co (map expiry_task e) (queue s2)\<rparr>)))"
    by (rule handing_run) (use i(1) in \<open>simp_all add: s2_def s1_def move_def\<close>)
  moreover have "move i Waiting (s2\<lparr>queue := fold co (map expiry_task e) (queue s2)\<rparr>) =
      move i Waiting (s\<lparr>mgr := m, tfd := settime (armed m) (tfd s), clock_reads := k,
        queue := fold co (map expiry_task e) (queue s)\<rparr>)"
    by (simp add: s2_def s1_def move_def settime_def)
  moreover have "replicate (length e + 3) (Next i) = Next i # Next i # replicate (Suc (length e)) (Next i)"
    by (simp add: numeral_3_eq_3)
  ultimately show ?thesis by (simp add: one two del: timer_act.simps replicate_Suc)
qed

section \<open>Properties\<close>

text \<open>
  C9: A single polling thread never fails. Let one thread poll while others add timers that fire
  once, take ids, and cancel pending timers at moments when no expiry is under way. In every
  interleaving, with a clock that does not run backwards, no assertion fails and every collection
  returns, and the manager's invariant holds at the end.
\<close>

theorem one_poller_never_aborts:
  assumes "mono clk" "\<forall>k. clk k < tp_max"
    and "along (timer_act clk) careful as (timers_of_pool 1)"
    and "interleave (timer_act clk) as (timers_of_pool 1) = Some r"
  shows "\<exists>t. r = Inr t \<and> timers_wf (mgr t)"
  using single_poller.run_inv[OF timers_of_pool_one assms(3,4)] assms(1,2) by (auto simp: one_poller_def)

definition one_poller_run :: "timer_action list" where
  "one_poller_run = [Timer_call (T_add (one_shot 1 50)), Timer_call (T_add (one_shot 2 20)),
     Timer_call (T_cancel 1), Timer_call (T_add (one_shot 3 90)), Expiry, Wait_returns 0,
     Timer_call (T_add (one_shot 4 5)), Next 0, Next 0, Next 0]"

lemma expire_loop_none: "expire_loop clk k [] acc = Some (Inr (rev acc, [], k))"
  by (simp add: expire_loop.simps)

lemma expire_loop_one: "expire_loop clk k (t # ts) acc =
   (if timeout_tp t \<le> clk k then
      (if is_repeated t then
         (case tp_add (interval t) (clk (Suc k)) of
            Inl e \<Rightarrow> Some (Inl e)
          | Inr next_expiration \<Rightarrow>
              expire_loop clk (Suc (Suc k)) (set_insert (set_expiration next_expiration t) ts) (t # acc))
       else expire_loop clk (Suc k) ts (t # acc))
    else Some (Inr (rev acc, t # ts, Suc k)))"
  by (subst expire_loop.simps) simp

lemmas race_demo_defs = timer_demo_defs timers_of_pool_def one_poller_run_def move_def rearmed_def
  settime_def get_all_expired_timers_def expire_loop_none expire_loop_one co_def add_task_no_lock_def
  empty_sched_def sylar_assert_def

theorem one_poller_never_aborts_witness:
  "\<exists>t. interleave (timer_act (\<lambda>_. 30)) one_poller_run (timers_of_pool 1) = Some (Inr t) \<and>
     timers_wf (mgr t) \<and> pollers t = [Handing [one_shot 2 20]] \<and> timerList (mgr t) = [one_shot 3 90]"
proof -
  let ?f = "timer_act (\<lambda>_. 30)"
  have c: "along ?f careful one_poller_run (timers_of_pool 1)"
    by (simp add: race_demo_defs has_timer_def under_way_def fires_once_def)
  obtain t where t: "interleave ?f one_poller_run (timers_of_pool 1) = Some (Inr t)"
    "pollers t = [Handing [one_shot 2 20]]" "timerList (mgr t) = [one_shot 3 90]"
    by (simp add: race_demo_defs)
  with one_poller_never_aborts[OF _ _ c t(1)] show ?thesis by (simp add: mono_def tp_max_def)
qed








definition late_run :: "timer_action list" where
  "late_run = [Timer_call (T_add (one_shot 1 20)), Timer_call (T_add (one_shot 2 90)), Expiry, Wait_returns 0]"

text \<open>
  \<^verbatim>\<open>CancelTimer\<close> is not safe against the expiry of its timer. If the timer has been collected
  already, the cancellation is undefined behaviour, where the caller cannot know it; if the expiry
  has only woken the polling thread, the collection that follows aborts the process.
\<close>

theorem late_cancel_fails:
  "interleave (timer_act (\<lambda>_. 30)) (late_run @ [Next 0, Next 0, Timer_call (T_cancel 1)]) (timers_of_pool 1) =
     Some (Inl Undefined_behaviour) \<and>
   interleave (timer_act (\<lambda>_. 30)) (late_run @ [Timer_call (T_cancel 1), Next 0, Next 0]) (timers_of_pool 1) =
     Some (Inl Assert_failed)"
  by (simp add: race_demo_defs late_run_def)

end
