(* ===== verification/Handoff.thy ===== *)
theory Handoff
  imports Coroutine
begin

text \<open>
  One coroutine and the threads of a scheduler (\<^verbatim>\<open>concurrency/coroutine.cpp\<close> and the loop of
  \<^verbatim>\<open>concurrency/scheduler.cpp\<close>), at the grain of the single reads and writes of the coroutine's
  state and of the two \<^verbatim>\<open>swapcontext\<close> calls that load and save its context. The state is an
  ordinary member without lock or atomic; the steps here are sequentially consistent.
  \<open>armed\<close> counts the events and timers that hold the coroutine and will hand it to the
  scheduler when they fire. Entering a context that has not been saved since it was last
  entered puts two threads on one stack, which is undefined behaviour.
\<close>

section \<open>Threads and the coroutine\<close>

text \<open>
  Where a thread is with respect to the coroutine: not dealing with it; it has taken it from
  the task list; it has passed the assertion of \<^verbatim>\<open>SwapIn\<close>; it has set the state; it runs the
  coroutine; it has set the state the coroutine gives up control in; it is back in the loop;
  it has decided to queue it again, or to set it to held.
\<close>

datatype place = Elsewhere | Took | Passed | Marked | Running | Leaving | Back | Requeue | Rehold

record handoff =
  cstate :: co_state
  saved :: bool
  ended :: bool
  queued :: nat
  armed_wakes :: nat
  place_of :: "place list"

datatype handoff_action =
    Take nat
  | Check nat
  | Mark nat
  | Enter nat
  | Arm nat
  | Yield nat co_state
  | Finish_with nat co_state
  | Leave nat
  | Judge nat
  | Put_back nat
  | Hold_back nat
  | Fire nat

definition moves :: "nat \<Rightarrow> place \<Rightarrow> handoff \<Rightarrow> handoff" where
  "moves i p s = s\<lparr>place_of := (place_of s)[i := p]\<rparr>"

definition at :: "nat \<Rightarrow> place \<Rightarrow> handoff \<Rightarrow> bool" where
  "at i p s \<longleftrightarrow> i < length (place_of s) \<and> place_of s ! i = p"

definition enabled :: "bool \<Rightarrow> 's res \<Rightarrow> 's res option" where
  "enabled b r = (if b then Some r else None)"

section \<open>Steps\<close>

text \<open>The scan takes the coroutine, under the lock of the list, after its assertion.\<close>

definition take_step :: "nat \<Rightarrow> handoff \<Rightarrow> handoff res" where
  "take_step i s =
     res_bind (sylar_assert (cstate s \<noteq> kExec)) (\<lambda>_. Inr (moves i Took (s\<lparr>queued := queued s - 1\<rparr>)))"

text \<open>\<^verbatim>\<open>SwapIn\<close>: the assertion, the write of the state, the switch.\<close>

definition check_step :: "nat \<Rightarrow> handoff \<Rightarrow> handoff res" where
  "check_step i s = res_bind (sylar_assert (cstate s \<noteq> kExec)) (\<lambda>_. Inr (moves i Passed s))"

definition mark_step :: "nat \<Rightarrow> handoff \<Rightarrow> handoff res" where
  "mark_step i s = Inr (moves i Marked (s\<lparr>cstate := kExec\<rparr>))"

definition enter_step :: "nat \<Rightarrow> handoff \<Rightarrow> handoff res" where
  "enter_step i s =
     (if \<not> saved s then Inl Undefined_behaviour
      else if ended s then Inl Thread_exit
      else Inr (moves i Running (s\<lparr>saved := False\<rparr>)))"

text \<open>A hooked call or a timer takes the running coroutine as what it will wake.\<close>

definition arm_step :: "nat \<Rightarrow> handoff \<Rightarrow> handoff res" where
  "arm_step i s = Inr (s\<lparr>armed_wakes := armed_wakes s + 1\<rparr>)"

text \<open>The two yields up to \<^verbatim>\<open>SwapOut\<close>, and the ends of \<^verbatim>\<open>CoroutineFunc\<close>.\<close>

definition yield_step :: "nat \<Rightarrow> co_state \<Rightarrow> handoff \<Rightarrow> handoff res" where
  "yield_step i c s =
     res_bind (sylar_assert (cstate s = kExec)) (\<lambda>_. Inr (moves i Leaving (s\<lparr>cstate := c\<rparr>)))"

definition finish_step :: "nat \<Rightarrow> co_state \<Rightarrow> handoff \<Rightarrow> handoff res" where
  "finish_step i c s = Inr (moves i Leaving (s\<lparr>cstate := c, ended := True\<rparr>))"

text \<open>The \<^verbatim>\<open>swapcontext\<close> of \<^verbatim>\<open>SwapOut\<close>.\<close>

definition leave_step :: "nat \<Rightarrow> handoff \<Rightarrow> handoff res" where
  "leave_step i s = Inr (moves i Back (s\<lparr>saved := True\<rparr>))"

text \<open>The loop after \<^verbatim>\<open>SwapIn\<close>: the reads of the state, taken as one, and what follows.\<close>

definition judge_step :: "nat \<Rightarrow> handoff \<Rightarrow> handoff res" where
  "judge_step i s =
     Inr (moves i
       (if cstate s = kReady then Requeue
        else if cstate s \<noteq> kTerminal \<and> cstate s \<noteq> kExcept then Rehold
        else Elsewhere) s)"

definition put_back_step :: "nat \<Rightarrow> handoff \<Rightarrow> handoff res" where
  "put_back_step i s = Inr (moves i Elsewhere (s\<lparr>queued := queued s + 1\<rparr>))"

definition hold_back_step :: "nat \<Rightarrow> handoff \<Rightarrow> handoff res" where
  "hold_back_step i s = Inr (moves i Elsewhere (s\<lparr>cstate := kHold\<rparr>))"

text \<open>A thread in its poll finds the event ready and hands the coroutine to the scheduler.\<close>

definition fire_step :: "nat \<Rightarrow> handoff \<Rightarrow> handoff res" where
  "fire_step i s = Inr (s\<lparr>armed_wakes := armed_wakes s - 1, queued := queued s + 1\<rparr>)"

fun handoff_act :: "handoff_action \<Rightarrow> handoff \<Rightarrow> handoff res option" where
  "handoff_act (Take i) s = enabled (at i Elsewhere s \<and> queued s > 0) (take_step i s)"
| "handoff_act (Check i) s = enabled (at i Took s) (check_step i s)"
| "handoff_act (Mark i) s = enabled (at i Passed s) (mark_step i s)"
| "handoff_act (Enter i) s = enabled (at i Marked s) (enter_step i s)"
| "handoff_act (Arm i) s = enabled (at i Running s) (arm_step i s)"
| "handoff_act (Yield i c) s = enabled (at i Running s \<and> (c = kHold \<or> c = kReady)) (yield_step i c s)"
| "handoff_act (Finish_with i c) s =
     enabled (at i Running s \<and> (c = kTerminal \<or> c = kExcept)) (finish_step i c s)"
| "handoff_act (Leave i) s = enabled (at i Leaving s) (leave_step i s)"
| "handoff_act (Judge i) s = enabled (at i Back s) (judge_step i s)"
| "handoff_act (Put_back i) s = enabled (at i Requeue s) (put_back_step i s)"
| "handoff_act (Hold_back i) s = enabled (at i Rehold s) (hold_back_step i s)"
| "handoff_act (Fire i) s = enabled (at i Elsewhere s \<and> armed_wakes s > 0) (fire_step i s)"

text \<open>A new coroutine in the list of a scheduler of \<open>n\<close> threads.\<close>

definition fresh_handoff :: "nat \<Rightarrow> handoff" where
  "fresh_handoff n = \<lparr>cstate = kInit, saved = True, ended = False, queued = 1, armed_wakes = 0,
     place_of = replicate n Elsewhere\<rparr>"

lemmas step_defs = take_step_def check_step_def mark_step_def enter_step_def arm_step_def
  yield_step_def finish_step_def leave_step_def judge_step_def put_back_step_def
  hold_back_step_def fire_step_def

lemma enabled_Some [simp]: "enabled b r = Some x \<longleftrightarrow> b \<and> r = x"
  by (auto simp: enabled_def)

section \<open>One owner\<close>

text \<open>
  The discipline: one wake-up is armed at a time, the coroutine holds itself after arming it,
  and it fires only while no thread is dealing with the coroutine.
\<close>

fun one_wake :: "handoff_action \<Rightarrow> handoff \<Rightarrow> bool" where
  "one_wake (Arm i) s \<longleftrightarrow> armed_wakes s = 0"
| "one_wake (Yield i c) s \<longleftrightarrow> c = kHold \<or> armed_wakes s = 0"
| "one_wake (Finish_with i c) s \<longleftrightarrow> armed_wakes s = 0"
| "one_wake _ s \<longleftrightarrow> True"

fun late_wake :: "handoff_action \<Rightarrow> handoff \<Rightarrow> bool" where
  "late_wake (Fire i) s \<longleftrightarrow> list_all ((=) Elsewhere) (place_of s)"
| "late_wake _ s \<longleftrightarrow> True"

definition orderly :: "handoff_action \<Rightarrow> handoff \<Rightarrow> bool" where
  "orderly a s \<longleftrightarrow> one_wake a s \<and> late_wake a s"

text \<open>What holds of the coroutine, given the place of the only thread that deals with it.\<close>

definition given_up :: "handoff \<Rightarrow> bool" where
  "given_up s \<longleftrightarrow> cstate s \<noteq> kExec \<and> cstate s \<noteq> kInit \<and>
     (ended s \<longleftrightarrow> cstate s = kTerminal \<or> cstate s = kExcept) \<and> (armed_wakes s = 1 \<longrightarrow> cstate s = kHold)"

definition enterable :: "handoff \<Rightarrow> bool" where
  "enterable s \<longleftrightarrow> saved s \<and> \<not> ended s"

fun fits :: "place \<Rightarrow> handoff \<Rightarrow> bool" where
  "fits Elsewhere s \<longleftrightarrow> queued s + armed_wakes s \<le> 1 \<and>
     (queued s + armed_wakes s = 1 \<longrightarrow> enterable s \<and> cstate s \<noteq> kExec)"
| "fits Took s \<longleftrightarrow> armed_wakes s = 0 \<and> queued s = 0 \<and> enterable s \<and> cstate s \<noteq> kExec"
| "fits Passed s \<longleftrightarrow> armed_wakes s = 0 \<and> queued s = 0 \<and> enterable s \<and> cstate s \<noteq> kExec"
| "fits Marked s \<longleftrightarrow> armed_wakes s = 0 \<and> queued s = 0 \<and> enterable s \<and> cstate s = kExec"
| "fits Running s \<longleftrightarrow> armed_wakes s \<le> 1 \<and> queued s = 0 \<and> \<not> ended s \<and> cstate s = kExec"
| "fits Leaving s \<longleftrightarrow> armed_wakes s \<le> 1 \<and> queued s = 0 \<and> given_up s"
| "fits Back s \<longleftrightarrow> armed_wakes s \<le> 1 \<and> queued s = 0 \<and> saved s \<and> given_up s"
| "fits Requeue s \<longleftrightarrow> armed_wakes s = 0 \<and> queued s = 0 \<and> enterable s \<and> cstate s = kReady"
| "fits Rehold s \<longleftrightarrow> armed_wakes s \<le> 1 \<and> queued s = 0 \<and> enterable s \<and> cstate s = kHold"

definition only_at :: "nat \<Rightarrow> nat \<Rightarrow> place \<Rightarrow> handoff \<Rightarrow> bool" where
  "only_at n i p s \<longleftrightarrow> i < n \<and> place_of s = (replicate n Elsewhere)[i := p]"

definition handoff_inv :: "nat \<Rightarrow> handoff \<Rightarrow> bool" where
  "handoff_inv n s \<longleftrightarrow> (\<exists>i p. only_at n i p s \<and> fits p s)"

lemma replicate_update_same: "(replicate n x)[i := x] = replicate n x"
  by (metis length_replicate list_update_beyond list_update_id not_le nth_replicate)

lemma only_at_at: "only_at n i p s \<Longrightarrow> at j q s \<Longrightarrow> j < n \<and> (if j = i then q = p else q = Elsewhere)"
  by (auto simp: only_at_def at_def nth_list_update split: if_splits)

lemma only_at_Elsewhere: "only_at n i Elsewhere s \<Longrightarrow> j < n \<Longrightarrow> only_at n j Elsewhere s"
  by (simp add: only_at_def replicate_update_same)

text \<open>The thread of an action is the one that deals with the coroutine, or becomes it.\<close>

lemma acting:
  assumes "handoff_inv n s" "at j q s" "q = Elsewhere \<Longrightarrow> queued s > 0 \<or> list_all ((=) Elsewhere) (place_of s)"
  shows "only_at n j q s \<and> fits q s"
proof -
  obtain i p where ip: "only_at n i p s" "fits p s"
    using assms(1) by (auto simp: handoff_inv_def)
  note j = only_at_at[OF ip(1) assms(2)]
  show ?thesis
  proof (cases "j = i")
    case True
    with j ip show ?thesis by simp
  next
    case False
    with j have q: "q = Elsewhere" by simp
    have "p = Elsewhere"
    proof (cases "queued s > 0")
      case True
      with ip(2) show ?thesis by (cases p) auto
    next
      case False
      with assms(3) q have "list_all ((=) Elsewhere) (place_of s)" by simp
      with ip(1) show ?thesis by (auto simp: only_at_def list_all_length)
    qed
    with ip j q show ?thesis using only_at_Elsewhere by blast
  qed
qed

lemma step_inv:
  assumes "handoff_inv n s" "at j q s" "q = Elsewhere \<Longrightarrow> queued s > 0 \<or> list_all ((=) Elsewhere) (place_of s)"
    and "fits q s \<Longrightarrow> \<exists>t. r = Inr t \<and> place_of t = (place_of s)[j := p] \<and> fits p t"
  shows "\<exists>t. r = Inr t \<and> handoff_inv n t"
proof -
  from acting[OF assms(1-3)] have o: "only_at n j q s" "fits q s" by auto
  from assms(4)[OF o(2)] obtain t where t: "r = Inr t" "place_of t = (place_of s)[j := p]" "fits p t"
    by auto
  with o(1) have "only_at n j p t" by (simp add: only_at_def)
  with t show ?thesis by (auto simp: handoff_inv_def)
qed

lemma place_at: "at i p s \<Longrightarrow> (place_of s)[i := p] = place_of s"
  by (auto simp: at_def)

lemmas step_simps = step_defs moves_def given_up_def enterable_def

lemma handoff_act_inv:
  assumes "handoff_inv n s" "orderly a s" "handoff_act a s = Some r"
  shows "\<exists>t. r = Inr t \<and> handoff_inv n t"
proof (cases a)
  case (Take i)
  with assms(3) have e: "at i Elsewhere s" "r = take_step i s" "queued s > 0" by auto
  show ?thesis
    by (rule step_inv[OF assms(1) e(1), of _ Took]) (use e in \<open>auto simp: step_simps\<close>)
next
  case (Check i)
  with assms(3) have e: "at i Took s" "r = check_step i s" by auto
  show ?thesis
    by (rule step_inv[OF assms(1) e(1), of _ Passed]) (use e in \<open>auto simp: step_simps\<close>)
next
  case (Mark i)
  with assms(3) have e: "at i Passed s" "r = mark_step i s" by auto
  show ?thesis
    by (rule step_inv[OF assms(1) e(1), of _ Marked]) (use e in \<open>auto simp: step_simps\<close>)
next
  case (Enter i)
  with assms(3) have e: "at i Marked s" "r = enter_step i s" by auto
  show ?thesis
    by (rule step_inv[OF assms(1) e(1), of _ Running]) (use e in \<open>auto simp: step_simps\<close>)
next
  case (Arm i)
  with assms(3) have e: "at i Running s" "r = arm_step i s" by auto
  show ?thesis
    by (rule step_inv[OF assms(1) e(1), of _ Running]) (use e Arm assms(2) in \<open>auto simp: step_simps orderly_def place_at[OF e(1)]\<close>)
next
  case (Yield i c)
  with assms(3) have e: "at i Running s" "r = yield_step i c s" "c = kHold \<or> c = kReady" by auto
  show ?thesis
    by (rule step_inv[OF assms(1) e(1), of _ Leaving]) (use e Yield assms(2) in \<open>auto simp: step_simps orderly_def\<close>)
next
  case (Finish_with i c)
  with assms(3) have e: "at i Running s" "r = finish_step i c s" "c = kTerminal \<or> c = kExcept" by auto
  show ?thesis
    by (rule step_inv[OF assms(1) e(1), of _ Leaving]) (use e Finish_with assms(2) in \<open>auto simp: step_simps orderly_def\<close>)
next
  case (Leave i)
  with assms(3) have e: "at i Leaving s" "r = leave_step i s" by auto
  show ?thesis
    by (rule step_inv[OF assms(1) e(1), of _ Back]) (use e in \<open>auto simp: step_simps\<close>)
next
  case (Judge i)
  with assms(3) have e: "at i Back s" "r = judge_step i s" by auto
  let ?q = "if cstate s = kReady then Requeue
    else if cstate s \<noteq> kTerminal \<and> cstate s \<noteq> kExcept then Rehold else Elsewhere"
  show ?thesis
    by (rule step_inv[OF assms(1) e(1), of _ ?q])
       (use e(2) in \<open>cases "cstate s"; simp add: step_simps\<close>)+
next
  case (Put_back i)
  with assms(3) have e: "at i Requeue s" "r = put_back_step i s" by auto
  show ?thesis
    by (rule step_inv[OF assms(1) e(1), of _ Elsewhere]) (use e in \<open>auto simp: step_simps\<close>)
next
  case (Hold_back i)
  with assms(3) have e: "at i Rehold s" "r = hold_back_step i s" by auto
  show ?thesis
    by (rule step_inv[OF assms(1) e(1), of _ Elsewhere]) (use e in \<open>auto simp: step_simps\<close>)
next
  case (Fire i)
  with assms(2,3) have e: "at i Elsewhere s" "r = fire_step i s" "armed_wakes s > 0" "list_all ((=) Elsewhere) (place_of s)"
    by (auto simp: orderly_def)
  show ?thesis
    by (rule step_inv[OF assms(1) e(1), of _ Elsewhere]) (use e in \<open>auto simp: step_simps place_at[OF e(1)]\<close>)
qed

text \<open>With one thread a wake-up can only fire while that thread polls.\<close>

lemma single_late:
  assumes "handoff_inv 1 s" "handoff_act a s = Some r"
  shows "late_wake a s"
proof (cases a)
  case (Fire i)
  with assms(2) have "at i Elsewhere s" by auto
  moreover have "length (place_of s) = 1"
    using assms(1) by (auto simp: handoff_inv_def only_at_def)
  ultimately show ?thesis using Fire by (cases "place_of s") (auto simp: at_def)
qed auto

interpretation orderly_threads: guarded_interleaving handoff_act "handoff_inv n" orderly for n
  by unfold_locales (rule handoff_act_inv)

interpretation one_thread: guarded_interleaving handoff_act "handoff_inv 1" one_wake
proof unfold_locales
  fix s a r
  assume a: "handoff_inv 1 s" "one_wake a s" "handoff_act a s = Some r"
  with single_late show "\<exists>t. r = Inr t \<and> handoff_inv 1 t"
    by (intro handoff_act_inv) (auto simp: orderly_def)
qed

lemma fresh_handoff_inv: "0 < n \<Longrightarrow> handoff_inv n (fresh_handoff n)"
  unfolding handoff_inv_def only_at_def
  by (rule exI[of _ 0], rule exI[of _ Elsewhere])
     (simp add: fresh_handoff_def replicate_update_same enterable_def)

text \<open>How many threads deal with the coroutine.\<close>

definition dealing :: "handoff \<Rightarrow> nat" where
  "dealing s = length (filter (\<lambda>p. p \<noteq> Elsewhere) (place_of s))"

lemma dealing_replicate: "i < n \<Longrightarrow>
  length (filter (\<lambda>p. p \<noteq> Elsewhere) ((replicate n Elsewhere)[i := p])) = (if p = Elsewhere then 0 else 1)"
proof (induction n arbitrary: i)
  case (Suc n)
  show ?case
  proof (cases i)
    case (Suc j)
    with Suc.IH[of j] Suc.prems show ?thesis by simp
  qed simp
qed simp

lemma one_owner: "handoff_inv n s \<Longrightarrow> queued s + dealing s \<le> 1"
  unfolding handoff_inv_def only_at_def dealing_def
proof (elim exE conjE)
  fix i p
  assume "fits p s" "i < n" "place_of s = (replicate n Elsewhere)[i := p]"
  then show "queued s + length (filter (\<lambda>p. p \<noteq> Elsewhere) (place_of s)) \<le> 1"
    by (cases p) (auto simp: dealing_replicate)
qed

section \<open>The sequential switch as a run\<close>

fun switch_run :: "nat \<Rightarrow> stop \<Rightarrow> handoff_action list" where
  "switch_run i Returned = [Check i, Mark i, Enter i, Finish_with i kTerminal, Leave i]"
| "switch_run i Threw = [Check i, Mark i, Enter i, Finish_with i kExcept, Leave i]"
| "switch_run i (Held _) = [Check i, Mark i, Enter i, Yield i kHold, Leave i]"
| "switch_run i (Readied _) = [Check i, Mark i, Enter i, Yield i kReady, Leave i]"
| "switch_run i _ = []"

text \<open>The coroutine of the one model and of the other.\<close>

definition same_coroutine :: "handoff \<Rightarrow> coroutine \<Rightarrow> bool" where
  "same_coroutine s c \<longleftrightarrow> cstate s = co_st c \<and> saved s \<and> (ended s \<longleftrightarrow> co_ctx c = Finished)"

lemma at_moves [simp]: "at i p (moves i q s) \<longleftrightarrow> i < length (place_of s) \<and> p = q"
  by (auto simp: at_def moves_def)

lemma switch_run_same:
  assumes "at i Took s" "same_coroutine s c" "co_st c \<noteq> kExec" "co_ctx c \<noteq> Finished"
    "\<not> is_Stuck st" "\<forall>k. st \<noteq> Swapped k"
  shows "\<exists>t. interleave handoff_act (switch_run i st) s = Some (Inr t) \<and> at i Back t \<and>
    same_coroutine t (after st c)"
proof -
  have "i < length (place_of s)" "place_of s ! i = Took" using assms(1) by (auto simp: at_def)
  with assms(2-6) show ?thesis
    by (cases st) (auto simp: step_defs same_coroutine_def enabled_def at_def moves_def)
qed

section \<open>Properties\<close>

text \<open>
  C4: A coroutine that a wake-up hands back only after its thread has let go of it, and that
  arms one wake-up at a time and then holds itself, is never shared: in every interleaving of
  any number of threads no assertion of the scan, of \<^verbatim>\<open>SwapIn\<close> or of a yield fails, no context
  is entered before it has been saved or after the coroutine has ended, and it is in the list
  once or with one thread.
\<close>

theorem late_wakes_are_exclusive:
  assumes "0 < n" "along handoff_act orderly as (fresh_handoff n)"
    "interleave handoff_act as (fresh_handoff n) = Some r"
  shows "\<exists>s. r = Inr s \<and> queued s + dealing s \<le> 1"
  using orderly_threads.run_inv[OF fresh_handoff_inv[OF assms(1)] assms(2,3)] one_owner by blast

text \<open>
  With one scheduling thread this needs no condition on the wake-ups: however early an
  event or timer is ready, the only thread that can hand the coroutine over is the one that
  runs it.
\<close>

theorem one_thread_is_exclusive:
  assumes "along handoff_act one_wake as (fresh_handoff 1)"
    "interleave handoff_act as (fresh_handoff 1) = Some r"
  shows "\<exists>s. r = Inr s \<and> queued s + dealing s \<le> 1"
proof -
  have "handoff_inv 1 (fresh_handoff 1)" by (rule fresh_handoff_inv) simp
  from one_thread.run_inv[OF this assms] one_owner show ?thesis by blast
qed

text \<open>A coroutine that sleeps once, on thread 0 of two or on the only thread.\<close>

definition sleeping_run :: "handoff_action list" where
  "sleeping_run = [Take 0, Check 0, Mark 0, Enter 0, Arm 0, Yield 0 kHold, Leave 0, Judge 0,
     Hold_back 0, Fire 0, Take 0, Check 0, Mark 0, Enter 0, Finish_with 0 kTerminal, Leave 0, Judge 0]"

lemmas run_handoff = fresh_handoff_def step_defs moves_def at_def enabled_def orderly_def
  numeral_2_eq_2

theorem late_wakes_are_exclusive_witness:
  "\<exists>s. interleave handoff_act sleeping_run (fresh_handoff 2) = Some (Inr s) \<and> ended s \<and>
     queued s + dealing s \<le> 1"
proof -
  have a: "along handoff_act orderly sleeping_run (fresh_handoff 2)"
    by (simp add: sleeping_run_def run_handoff)
  obtain s where s: "interleave handoff_act sleeping_run (fresh_handoff 2) = Some (Inr s)" "ended s"
    by (simp add: sleeping_run_def run_handoff)
  with late_wakes_are_exclusive[OF _ a s(1)] show ?thesis by auto
qed

theorem one_thread_is_exclusive_witness:
  "\<exists>s. interleave handoff_act sleeping_run (fresh_handoff 1) = Some (Inr s) \<and> ended s \<and>
     queued s + dealing s \<le> 1"
proof -
  have a: "along handoff_act one_wake sleeping_run (fresh_handoff 1)"
    by (simp add: sleeping_run_def run_handoff)
  obtain s where s: "interleave handoff_act sleeping_run (fresh_handoff 1) = Some (Inr s)" "ended s"
    by (simp add: sleeping_run_def run_handoff)
  with one_thread_is_exclusive[OF a s(1)] show ?thesis by auto
qed


text \<open>
  C20: The sequential model of a switch refines to a run of single steps: where \<open>swap_in\<close> runs
  the coroutine to its next return, exception or yield, the thread that took the coroutine
  checks, marks, enters, gives up and saves, no step fails, and the coroutine ends up in the
  same state, saved, and ended exactly if it has ended there.
\<close>

theorem switch_is_a_run:
  assumes "swap_ready E a c p w" "stretch alive c = Inr (rs, st)" "\<not> is_Stuck st"
    "\<forall>k. st \<noteq> Swapped k" "at i Took s" "same_coroutine s c"
  shows "\<exists>w' c' t. swap_in E alive a w = Inr (rs, w') \<and> heap w' a = Some c' \<and>
    interleave handoff_act (switch_run i st) s = Some (Inr t) \<and> at i Back t \<and> same_coroutine t c'"
proof -
  have "swap_in E alive a w = Inr (rs, switched p a st w)" "heap (switched p a st w) a = Some (after st c)"
    "co_st c \<noteq> kExec"
    using assms(1-3) by (auto simp: swap_in_spec[OF assms(1)] swap_ready_def switched_def)
  moreover have "co_ctx c \<noteq> Finished" using assms(2) by (auto simp: stretch_def)
  ultimately show ?thesis using switch_run_same[OF assms(5,6) _ _ assms(3,4)] by blast
qed

theorem switch_is_a_run_witness:
  "\<exists>w' c' t. swap_in sunny_env (\<lambda>_. True) 1 (demo_world (Yield_to_hold Return)) = Inr ([], w') \<and>
     heap w' 1 = Some c' \<and> interleave handoff_act (switch_run 0 (Held Return))
       ((fresh_handoff 1)\<lparr>queued := 0, place_of := [Took]\<rparr>) = Some (Inr t) \<and>
     same_coroutine t c' \<and> co_st c' = kHold"
proof -
  let ?s = "(fresh_handoff 1)\<lparr>queued := 0, place_of := [Took]\<rparr>"
  have s: "at 0 Took ?s" "same_coroutine ?s (demo_task (Yield_to_hold Return))"
    by (simp_all add: at_def same_coroutine_def fresh_handoff_def demo_task_def)
  have st: "stretch (\<lambda>_. True) (demo_task (Yield_to_hold Return)) = Inr ([], Held Return)"
    by (simp add: demo_stretch)
  obtain w' c' t where r: "swap_in sunny_env (\<lambda>_. True) 1 (demo_world (Yield_to_hold Return)) = Inr ([], w')"
    "heap w' 1 = Some c'" "interleave handoff_act (switch_run 0 (Held Return)) ?s = Some (Inr t)"
    "same_coroutine t c'"
    using switch_is_a_run[OF demo_ready st _ _ s] by auto
  then have "co_st c' = kHold"
    by (auto simp: same_coroutine_def run_handoff)
  with r show ?thesis by blast
qed

end
