(* ===== verification/Yaml_Casts.thy ===== *)
theory Yaml_Casts
  imports Prelude
begin

text \<open>
  The conversions between values and YAML texts of \<^verbatim>\<open>base/config.h\<close>: the functors
  \<^verbatim>\<open>LexicalCast<T, std::string, YamlTag>\<close> and \<^verbatim>\<open>LexicalCast<std::string, T, YamlTag>\<close> for
  scalars, vectors, lists, sets and maps. The library \<^verbatim>\<open>yaml-cpp\<close> is a parameter: a record of
  what \<^verbatim>\<open>YAML::Load\<close> makes of a text and what \<^verbatim>\<open>operator<<\<close> writes for a node. So is
  \<^verbatim>\<open>boost::lexical_cast\<close>, the conversion of scalars. The hash containers are sets and maps
  whose order of iteration is a parameter.
\<close>

section \<open>Documents\<close>

datatype ynode =
    Y_null
  | Y_scalar string
  | Y_seq "ynode list"
  | Y_map "(ynode \<times> ynode) list"

text \<open>\<^verbatim>\<open>Scalar()\<close> of a node that is no scalar is the empty string.\<close>

fun scalar_of :: "ynode \<Rightarrow> string" where
  "scalar_of (Y_scalar s) = s"
| "scalar_of _ = []"

fun is_scalar :: "ynode \<Rightarrow> bool" where
  "is_scalar (Y_scalar _) = True"
| "is_scalar _ = False"

record yaml =
  load :: "string \<Rightarrow> ynode res"
  emit :: "ynode \<Rightarrow> string"

record 'a cast =
  from_str :: "string \<Rightarrow> 'a res"
  to_str :: "'a \<Rightarrow> string res"

fun map_res :: "('a \<Rightarrow> 'b res) \<Rightarrow> 'a list \<Rightarrow> 'b list res" where
  "map_res f [] = Inr []"
| "map_res f (x # xs) = res_bind (f x) (\<lambda>y. res_bind (map_res f xs) (\<lambda>ys. Inr (y # ys)))"

section \<open>Sequences\<close>

definition item_node :: "yaml \<Rightarrow> 'a cast \<Rightarrow> 'a \<Rightarrow> ynode res" where
  "item_node Y c x = res_bind (to_str c x) (load Y)"

definition sequence_items :: "yaml \<Rightarrow> string \<Rightarrow> ynode list res" where
  "sequence_items Y s =
     res_bind (load Y s) (\<lambda>n. case n of Y_seq ns \<Rightarrow> Inr ns | _ \<Rightarrow> Inl (Thrown Logic_error))"

definition vector_to_str :: "yaml \<Rightarrow> 'a cast \<Rightarrow> 'a list \<Rightarrow> string res" where
  "vector_to_str Y c xs = res_bind (map_res (item_node Y c) xs) (\<lambda>ns. Inr (emit Y (Y_seq ns)))"

definition vector_from_str :: "yaml \<Rightarrow> 'a cast \<Rightarrow> string \<Rightarrow> 'a list res" where
  "vector_from_str Y c s =
     res_bind (sequence_items Y s) (map_res (\<lambda>n. from_str c (emit Y n)))"

definition vector_cast :: "yaml \<Rightarrow> 'a cast \<Rightarrow> 'a list cast" where
  "vector_cast Y c = \<lparr>from_str = vector_from_str Y c, to_str = vector_to_str Y c\<rparr>"

text \<open>\<^verbatim>\<open>std::list\<close> has a conversion of its own, with the same steps.\<close>

definition list_cast :: "yaml \<Rightarrow> 'a cast \<Rightarrow> 'a list cast" where
  "list_cast Y c =
     \<lparr>from_str = (\<lambda>s. res_bind (sequence_items Y s) (map_res (\<lambda>n. from_str c (emit Y n)))),
      to_str = (\<lambda>xs. res_bind (map_res (item_node Y c) xs) (\<lambda>ns. Inr (emit Y (Y_seq ns))))\<rparr>"

section \<open>Sets\<close>

text \<open>\<^verbatim>\<open>emplace\<close> of every item; a \<^verbatim>\<open>std::set\<close> is iterated in ascending order.\<close>

definition set_from_str :: "yaml \<Rightarrow> 'a cast \<Rightarrow> string \<Rightarrow> 'a set res" where
  "set_from_str Y c s =
     res_bind (sequence_items Y s) (\<lambda>ns.
     res_bind (map_res (\<lambda>n. from_str c (emit Y n)) ns) (\<lambda>xs. Inr (set xs)))"

definition set_to_str :: "yaml \<Rightarrow> ('a set \<Rightarrow> 'a list) \<Rightarrow> 'a cast \<Rightarrow> 'a set \<Rightarrow> string res" where
  "set_to_str Y order c A =
     res_bind (map_res (item_node Y c) (order A)) (\<lambda>ns. Inr (emit Y (Y_seq ns)))"

definition set_cast :: "yaml \<Rightarrow> 'a::linorder cast \<Rightarrow> 'a set cast" where
  "set_cast Y c = \<lparr>from_str = set_from_str Y c, to_str = set_to_str Y sorted_list_of_set c\<rparr>"

definition unordered_set_cast :: "yaml \<Rightarrow> ('a set \<Rightarrow> 'a list) \<Rightarrow> 'a cast \<Rightarrow> 'a set cast" where
  "unordered_set_cast Y order c = \<lparr>from_str = set_from_str Y c, to_str = set_to_str Y order c\<rparr>"

section \<open>Maps\<close>

text \<open>
  The pairs of a mapping node are put in by \<^verbatim>\<open>emplace\<close>, which keeps the first value of a key.
  The two conversions are arguments of one call, so which of two exceptions is thrown is
  unspecified; here it is the key's.
\<close>

fun pairs_from :: "yaml \<Rightarrow> 'k cast \<Rightarrow> 'v cast \<Rightarrow> (ynode \<times> ynode) list \<Rightarrow> ('k \<Rightarrow> 'v option) \<Rightarrow>
    ('k \<Rightarrow> 'v option) res" where
  "pairs_from Y kc vc [] r = Inr r"
| "pairs_from Y kc vc ((k, v) # ps) r =
     res_bind (from_str kc (scalar_of k)) (\<lambda>k'.
     res_bind (from_str vc (emit Y v)) (\<lambda>v'.
     pairs_from Y kc vc ps (if r k' = None then r(k' \<mapsto> v') else r)))"

definition map_from_str ::
  "yaml \<Rightarrow> 'k cast \<Rightarrow> 'v cast \<Rightarrow> string \<Rightarrow> ('k \<Rightarrow> 'v option) res" where
  "map_from_str Y kc vc s =
     res_bind (load Y s) (\<lambda>n. case n of
       Y_map ps \<Rightarrow> pairs_from Y kc vc ps Map.empty
     | _ \<Rightarrow> Inl (Thrown Logic_error))"

text \<open>
  For \<^verbatim>\<open>std::unordered_map\<close> the exception for a document that is no mapping is built but not
  thrown. Iterating over a scalar or null node gives nothing; the elements of a sequence have
  no key, and \<^verbatim>\<open>Scalar()\<close> of the missing key throws.
\<close>

definition unordered_map_from_str ::
  "yaml \<Rightarrow> 'k cast \<Rightarrow> 'v cast \<Rightarrow> string \<Rightarrow> ('k \<Rightarrow> 'v option) res" where
  "unordered_map_from_str Y kc vc s =
     res_bind (load Y s) (\<lambda>n. case n of
       Y_map ps \<Rightarrow> pairs_from Y kc vc ps Map.empty
     | Y_seq (_ # _) \<Rightarrow> Inl (Thrown Yaml_exception)
     | _ \<Rightarrow> Inr Map.empty)"

text \<open>\<^verbatim>\<open>node[key] = value\<close>.\<close>

fun node_put :: "string \<Rightarrow> ynode \<Rightarrow> (ynode \<times> ynode) list \<Rightarrow> (ynode \<times> ynode) list" where
  "node_put k n [] = [(Y_scalar k, n)]"
| "node_put k n ((j, m) # ps) =
     (if j = Y_scalar k then (j, n) # ps else (j, m) # node_put k n ps)"

text \<open>\<^verbatim>\<open>node[key]\<close>; \<open>None\<close> is a node that is not defined.\<close>

fun node_get :: "string \<Rightarrow> (ynode \<times> ynode) list \<Rightarrow> ynode option" where
  "node_get k [] = None"
| "node_get k ((j, m) # ps) = (if j = Y_scalar k then Some m else node_get k ps)"

fun pairs_to :: "yaml \<Rightarrow> 'k cast \<Rightarrow> 'v cast \<Rightarrow> ('k \<times> 'v) list \<Rightarrow> (ynode \<times> ynode) list \<Rightarrow>
    (ynode \<times> ynode) list res" where
  "pairs_to Y kc vc [] ps = Inr ps"
| "pairs_to Y kc vc ((k, v) # kvs) ps =
     res_bind (to_str kc k) (\<lambda>ks.
     res_bind (item_node Y vc v) (\<lambda>n. pairs_to Y kc vc kvs (node_put ks n ps)))"

definition map_to_str ::
  "yaml \<Rightarrow> ('k set \<Rightarrow> 'k list) \<Rightarrow> 'k cast \<Rightarrow> 'v cast \<Rightarrow> ('k \<Rightarrow> 'v option) \<Rightarrow> string res" where
  "map_to_str Y order kc vc m =
     res_bind (pairs_to Y kc vc (map (\<lambda>k. (k, the (m k))) (order (dom m))) [])
       (\<lambda>ps. Inr (emit Y (Y_map ps)))"

definition map_cast :: "yaml \<Rightarrow> 'k::linorder cast \<Rightarrow> 'v cast \<Rightarrow> ('k \<Rightarrow> 'v option) cast" where
  "map_cast Y kc vc =
     \<lparr>from_str = map_from_str Y kc vc, to_str = map_to_str Y sorted_list_of_set kc vc\<rparr>"

definition unordered_map_cast ::
  "yaml \<Rightarrow> ('k set \<Rightarrow> 'k list) \<Rightarrow> 'k cast \<Rightarrow> 'v cast \<Rightarrow> ('k \<Rightarrow> 'v option) cast" where
  "unordered_map_cast Y order kc vc =
     \<lparr>from_str = unordered_map_from_str Y kc vc, to_str = map_to_str Y order kc vc\<rparr>"

section \<open>What a conversion writes and reads back\<close>

text \<open>
  \<open>writes Y c x n\<close>: the value \<open>x\<close> is written as a text of the node \<open>n\<close>, and what \<open>emit\<close> writes
  for \<open>n\<close> is read as \<open>x\<close>. This is what a container asks of the conversion of its items, and
  what it gives to the container around it.
\<close>

definition writes :: "yaml \<Rightarrow> 'a cast \<Rightarrow> 'a \<Rightarrow> ynode \<Rightarrow> bool" where
  "writes Y c x n \<longleftrightarrow> item_node Y c x = Inr n \<and> from_str c (emit Y n) = Inr x"

definition reloads :: "yaml \<Rightarrow> ynode \<Rightarrow> bool" where
  "reloads Y n \<longleftrightarrow> load Y (emit Y n) = Inr n"

lemma map_res_eq_Inr:
  "map_res f xs = Inr ys \<longleftrightarrow> list_all2 (\<lambda>x y. f x = Inr y) xs ys"
proof (induction xs arbitrary: ys)
  case Nil
  then show ?case by auto
next
  case (Cons x xs)
  then show ?case by (cases ys) (auto simp: res_bind_eq_Inr)
qed

lemma writes_all:
  assumes "list_all2 (writes Y c) xs ns"
  shows "map_res (item_node Y c) xs = Inr ns" "map_res (\<lambda>n. from_str c (emit Y n)) ns = Inr xs"
  using assms unfolding map_res_eq_Inr
  by (auto simp: writes_def list_all2_conv_all_nth)

lemma sequence_items_emit:
  "reloads Y (Y_seq ns) \<Longrightarrow> sequence_items Y (emit Y (Y_seq ns)) = Inr ns"
  by (simp add: sequence_items_def reloads_def)

lemma vector_writes:
  assumes "list_all2 (writes Y c) xs ns" "reloads Y (Y_seq ns)"
  shows "writes Y (vector_cast Y c) xs (Y_seq ns)" "to_str (vector_cast Y c) xs = Inr (emit Y (Y_seq ns))"
  using assms writes_all[OF assms(1)]
  by (simp_all add: writes_def item_node_def vector_cast_def vector_from_str_def vector_to_str_def
      sequence_items_emit reloads_def)

lemma list_cast_vector: "list_cast Y c = vector_cast Y c"
  by (simp add: list_cast_def vector_cast_def fun_eq_iff vector_to_str_def vector_from_str_def)

lemma set_writes:
  assumes "list_all2 (writes Y c) (order A) ns" "reloads Y (Y_seq ns)" "set (order A) = A"
  shows "writes Y (unordered_set_cast Y order c) A (Y_seq ns)"
  using assms writes_all[OF assms(1)]
  by (simp add: writes_def item_node_def unordered_set_cast_def set_from_str_def set_to_str_def
      sequence_items_emit reloads_def)

text \<open>A pair of a map and the pair of its key's text and its value's node.\<close>

definition writes_pair ::
  "yaml \<Rightarrow> 'k cast \<Rightarrow> 'v cast \<Rightarrow> 'k \<times> 'v \<Rightarrow> string \<times> ynode \<Rightarrow> bool" where
  "writes_pair Y kc vc p q \<longleftrightarrow>
     to_str kc (fst p) = Inr (fst q) \<and> from_str kc (fst q) = Inr (fst p) \<and>
     writes Y vc (snd p) (snd q)"

definition key_nodes :: "(string \<times> ynode) list \<Rightarrow> (ynode \<times> ynode) list" where
  "key_nodes qs = map (\<lambda>(j, n). (Y_scalar j, n)) qs"

lemma node_put_new: "j \<notin> fst ` set qs \<Longrightarrow> node_put j n (key_nodes qs) = key_nodes (qs @ [(j, n)])"
  by (induction qs) (auto simp: key_nodes_def)

lemma pairs_to_writes:
  assumes "list_all2 (writes_pair Y kc vc) kvs qs" "distinct (map fst (rs @ qs))"
  shows "pairs_to Y kc vc kvs (key_nodes rs) = Inr (key_nodes (rs @ qs))"
  using assms
proof (induction kvs qs arbitrary: rs rule: list_all2_induct)
  case Nil
  then show ?case by simp
next
  case (Cons p kvs q qs)
  obtain k v j n where pq: "p = (k, v)" "q = (j, n)" by fastforce
  have "j \<notin> fst ` set rs" using Cons.prems pq by auto
  moreover have "pairs_to Y kc vc kvs (key_nodes (rs @ [q])) = Inr (key_nodes ((rs @ [q]) @ qs))"
    by (rule Cons.IH) (use Cons.prems in auto)
  ultimately show ?case
    using Cons.hyps(1) pq by (simp add: writes_pair_def writes_def node_put_new)
qed

lemma pairs_from_writes:
  assumes "list_all2 (writes_pair Y kc vc) kvs qs" "distinct (map fst kvs)"
    "dom r \<inter> fst ` set kvs = {}"
  shows "pairs_from Y kc vc (key_nodes qs) r = Inr (r ++ map_of kvs)"
  using assms
proof (induction kvs qs arbitrary: r rule: list_all2_induct)
  case Nil
  then show ?case by (simp add: key_nodes_def)
next
  case (Cons p kvs q qs)
  obtain k v j n where pq: "p = (k, v)" "q = (j, n)" by fastforce
  have d: "dom (r(k \<mapsto> v)) \<inter> fst ` set kvs = {}"
    using Cons.prems pq unfolding dom_fun_upd by simp
  have "pairs_from Y kc vc (key_nodes qs) (r(k \<mapsto> v)) = Inr (r(k \<mapsto> v) ++ map_of kvs)"
    by (rule Cons.IH[OF _ d]) (use Cons.prems in simp)
  moreover have "r k = None" using Cons.prems pq by auto
  moreover have "map_of kvs k = None" using Cons.prems pq by (auto simp: map_of_eq_None_iff)
  then have "r(k \<mapsto> v) ++ map_of kvs = r ++ map_of (p # kvs)"
    by (auto simp: fun_eq_iff map_add_def pq(1) split: option.splits)
  ultimately show ?case
    using Cons.hyps(1) by (simp add: pq key_nodes_def writes_pair_def writes_def del: map_of.simps)
qed

lemma distinct_key_texts:
  assumes "list_all2 (writes_pair Y kc vc) kvs qs" "distinct (map fst kvs)"
  shows "distinct (map fst qs)"
  using assms
proof (induction kvs qs rule: list_all2_induct)
  case Nil
  then show ?case by simp
next
  case (Cons p kvs q qs)
  have "fst q \<notin> fst ` set qs"
  proof
    assume "fst q \<in> fst ` set qs"
    then obtain q' where q': "q' \<in> set qs" "fst q' = fst q" by force
    with Cons.hyps(2) obtain p' where "p' \<in> set kvs" "writes_pair Y kc vc p' q'"
      by (metis in_set_conv_nth list_all2_conv_all_nth)
    with Cons.hyps(1) Cons.prems q' show False
      by (auto simp: writes_pair_def intro: rev_image_eqI)
  qed
  with Cons show ?case by simp
qed

definition map_pairs :: "('k set \<Rightarrow> 'k list) \<Rightarrow> ('k \<Rightarrow> 'v option) \<Rightarrow> ('k \<times> 'v) list" where
  "map_pairs order m = map (\<lambda>k. (k, the (m k))) (order (dom m))"

lemma map_of_map_pairs:
  assumes "set (order (dom m)) = dom m"
  shows "map_of (map_pairs order m) = m"
proof
  fix k
  show "map_of (map_pairs order m) k = m k"
  proof (cases "k \<in> dom m")
    case True
    with assms show ?thesis
      by (force simp: map_pairs_def map_of_map_keys map_of_eq_Some_iff comp_def
          map_of_map restrict_map_def dest: map_of_SomeD)
  next
    case False
    with assms have "map_of (map_pairs order m) k = None"
      by (simp add: map_of_eq_None_iff map_pairs_def image_image)
    with False show ?thesis by (simp add: domIff)
  qed
qed

lemma map_writes:
  assumes q: "list_all2 (writes_pair Y kc vc) (map_pairs order m) qs"
    and o: "set (order (dom m)) = dom m" "distinct (order (dom m))"
    and r: "reloads Y (Y_map (key_nodes qs))"
  shows "map_to_str Y order kc vc m = Inr (emit Y (Y_map (key_nodes qs)))"
    "map_from_str Y kc vc (emit Y (Y_map (key_nodes qs))) = Inr m"
    "unordered_map_from_str Y kc vc (emit Y (Y_map (key_nodes qs))) = Inr m"
proof -
  have d: "distinct (map fst (map_pairs order m))"
    using o(2) by (simp add: map_pairs_def comp_def)
  have "pairs_to Y kc vc (map_pairs order m) (key_nodes []) = Inr (key_nodes ([] @ qs))"
    by (rule pairs_to_writes[OF q]) (simp add: distinct_key_texts[OF q d])
  then show "map_to_str Y order kc vc m = Inr (emit Y (Y_map (key_nodes qs)))"
    by (simp add: map_to_str_def map_pairs_def key_nodes_def)
  have "pairs_from Y kc vc (key_nodes qs) Map.empty = Inr m"
    using pairs_from_writes[OF q d, of Map.empty] map_of_map_pairs[of order m] o(1) by simp
  with r show "map_from_str Y kc vc (emit Y (Y_map (key_nodes qs))) = Inr m"
    "unordered_map_from_str Y kc vc (emit Y (Y_map (key_nodes qs))) = Inr m"
    by (simp_all add: map_from_str_def unordered_map_from_str_def reloads_def)
qed

section \<open>Properties\<close>


definition newline :: string where "newline = [CHR 0x0A]"

fun block_lines :: "ynode list \<Rightarrow> string" where
  "block_lines [] = []"
| "block_lines [n] = ''- '' @ scalar_of n"
| "block_lines (n # ns) = ''- '' @ scalar_of n @ newline @ block_lines ns"

text \<open>The nodes of two texts of \<^verbatim>\<open>test/config_test.cpp\<close>; every other text is a scalar.\<close>

definition mail_nodes :: "ynode list" where
  "mail_nodes = [Y_scalar ''test@163.com'', Y_scalar ''test@gmail.com'']"

definition demo_yaml :: yaml where
  "demo_yaml =
     \<lparr>load = (\<lambda>s. if s = block_lines mail_nodes then Inr (Y_seq mail_nodes)
                  else if s = ''1: X'' then Inr (Y_map [(Y_scalar ''1'', Y_scalar ''X'')])
                  else Inr (Y_scalar s)),
      emit = (\<lambda>n. case n of Y_seq ns \<Rightarrow> block_lines ns
                  | Y_map [(k, v)] \<Rightarrow> scalar_of k @ '': '' @ scalar_of v | _ \<Rightarrow> scalar_of n)\<rparr>"

definition text_cast :: "string cast" where
  "text_cast = \<lparr>from_str = Inr, to_str = Inr\<rparr>"

lemma mail_writes:
  "list_all2 (writes demo_yaml text_cast) [''test@163.com'', ''test@gmail.com''] mail_nodes"
  by (simp add: mail_nodes_def writes_def item_node_def demo_yaml_def text_cast_def newline_def)

lemma mail_reloads: "reloads demo_yaml (Y_seq mail_nodes)"
  by (simp add: reloads_def demo_yaml_def)


text \<open>
  The text a map is written as is read back as the same map, by the conversions of
  ordered and of unordered maps, if each key's text is read back as the key, each value is
  written as a node from which it is read back, and the YAML library reads the mapping of
  these pairs as it wrote it.
\<close>

theorem map_text_roundtrip:
  assumes "list_all2 (writes_pair Y kc vc) (map_pairs sorted_list_of_set m) qs" "finite (dom m)"
    "reloads Y (Y_map (key_nodes qs))"
  shows "\<exists>s. to_str (map_cast Y kc vc) m = Inr s \<and> from_str (map_cast Y kc vc) s = Inr m \<and>
    from_str (unordered_map_cast Y order kc vc) s = Inr m"
  using map_writes[OF assms(1) _ _ assms(3)] assms(2)
  by (simp add: map_cast_def unordered_map_cast_def)

definition one_key :: "nat cast" where
  "one_key = \<lparr>from_str = (\<lambda>s. if s = ''1'' then Inr 1 else Inl (Thrown Bad_lexical_cast)),
              to_str = (\<lambda>n. Inr ''1'')\<rparr>"

theorem map_text_roundtrip_witness:
  "\<exists>s. to_str (map_cast demo_yaml one_key text_cast) [1 \<mapsto> ''X''] = Inr s \<and>
     from_str (map_cast demo_yaml one_key text_cast) s = Inr [1 \<mapsto> ''X'']"
  using map_text_roundtrip[of demo_yaml one_key text_cast "[1 \<mapsto> ''X'']" "[(''1'', Y_scalar ''X'')]"]
  by (auto simp: map_pairs_def writes_pair_def one_key_def writes_def item_node_def demo_yaml_def
      text_cast_def mail_nodes_def newline_def reloads_def key_nodes_def)

end
