(* ===== verification/Config.thy ===== *)
theory Config
  imports Yaml_Casts Interfaces "HOL-Library.Char_ord"
begin

text \<open>
  Configuration variables and their manager (\<^verbatim>\<open>base/config.h\<close>, \<^verbatim>\<open>base/config.cpp\<close>).
  Variables are shared objects, so they live in a store of addresses. Values of all types are
  one HOL type; a variable carries the number of its C++ type, which is what
  \<^verbatim>\<open>dynamic_pointer_cast\<close> looks at. The conversions of a type, what a monitor does to the
  state outside, and the YAML library are parameters. Calls are sequential: the mutexes are
  not in the model.
\<close>

section \<open>Variables\<close>

record ('v, 'm) config_var =
  var_name :: string
  var_desc :: string
  var_type :: nat
  var_val :: 'v
  monitors :: "u64 \<Rightarrow> 'm option"

record ('v, 'm, 's) conf_world =
  vars :: "nat \<Rightarrow> ('v, 'm) config_var option"
  configs :: "string \<Rightarrow> nat option"
  next_var :: nat
  next_monitor :: "nat \<Rightarrow> u16"
  outside :: 's

text \<open>
  A monitor or an assignment may fail after it has changed the state, so the outcome is the
  failure, if any, together with the state.
\<close>

type_synonym 's outcome = "cpp_error option \<times> 's"

record ('v, 'm, 's) conf_env =
  casts :: "nat \<Rightarrow> 'v cast"
  on_change :: "'m \<Rightarrow> 'v \<Rightarrow> 'v \<Rightarrow> 's \<Rightarrow> 's outcome"
  yam :: yaml

definition put_var :: "nat \<Rightarrow> ('v, 'm) config_var \<Rightarrow> ('v, 'm, 's) conf_world \<Rightarrow>
    ('v, 'm, 's) conf_world" where
  "put_var a v w = w\<lparr>vars := (vars w)(a \<mapsto> v)\<rparr>"

definition put_config :: "string \<Rightarrow> nat \<Rightarrow> ('v, 'm, 's) conf_world \<Rightarrow> ('v, 'm, 's) conf_world" where
  "put_config n a w = w\<lparr>configs := (configs w)(n \<mapsto> a)\<rparr>"

interpretation variable_store: store vars put_var
  by unfold_locales (simp add: put_var_def)

interpretation config_names: store configs put_config
  by unfold_locales (simp add: put_config_def)

text \<open>\<^verbatim>\<open>IsValidName\<close>: a match of \<^verbatim>\<open>^[a-zA-Z0-9._]+$\<close>.\<close>

definition name_char :: "char \<Rightarrow> bool" where
  "name_char c \<longleftrightarrow>
     (CHR ''a'' \<le> c \<and> c \<le> CHR ''z'') \<or> (CHR ''A'' \<le> c \<and> c \<le> CHR ''Z'') \<or>
     (CHR ''0'' \<le> c \<and> c \<le> CHR ''9'') \<or> c = CHR ''.'' \<or> c = CHR ''_''"

definition valid_name :: "string \<Rightarrow> bool" where
  "valid_name n \<longleftrightarrow> n \<noteq> [] \<and> list_all name_char n"

definition new_config_var :: "string \<Rightarrow> nat \<Rightarrow> 'v \<Rightarrow> string \<Rightarrow> ('v, 'm) config_var res" where
  "new_config_var n t d desc =
     (if \<not> valid_name n then Inl (Thrown Invalid_argument)
      else Inr \<lparr>var_name = n, var_desc = desc, var_type = t, var_val = d, monitors = Map.empty\<rparr>)"

section \<open>Monitors\<close>

text \<open>The ids come from a static 16-bit counter, one for each type \<^verbatim>\<open>T\<close>.\<close>

definition add_monitor ::
  "nat \<Rightarrow> 'm \<Rightarrow> ('v, 'm, 's) conf_world \<Rightarrow> (u64 \<times> ('v, 'm, 's) conf_world) res" where
  "add_monitor a m w =
     res_bind (deref (vars w a)) (\<lambda>v.
     let next_id = next_monitor w (var_type v); mid = ucast next_id in
     Inr (mid, (put_var a (v\<lparr>monitors := (monitors v)(mid \<mapsto> m)\<rparr>) w)
            \<lparr>next_monitor := (next_monitor w)(var_type v := next_id + 1)\<rparr>))"

definition remove_monitor ::
  "nat \<Rightarrow> u64 \<Rightarrow> ('v, 'm, 's) conf_world \<Rightarrow> ('v, 'm, 's) conf_world res" where
  "remove_monitor a mid w =
     res_bind (deref (vars w a)) (\<lambda>v.
     Inr (put_var a (v\<lparr>monitors := (monitors v)(mid := None)\<rparr>) w))"

definition get_all_monitor :: "('v, 'm) config_var \<Rightarrow> 'm list" where
  "get_all_monitor v = map (\<lambda>mid. the (monitors v mid)) (sorted_list_of_set (dom (monitors v)))"

fun run_monitors ::
  "('m \<Rightarrow> 'v \<Rightarrow> 'v \<Rightarrow> 's \<Rightarrow> 's outcome) \<Rightarrow> 'm list \<Rightarrow> 'v \<Rightarrow> 'v \<Rightarrow> 's \<Rightarrow> 's outcome" where
  "run_monitors f [] old now s = (None, s)"
| "run_monitors f (m # ms) old now s =
     (case f m old now s of
        (None, s') \<Rightarrow> run_monitors f ms old now s'
      | (Some e, s') \<Rightarrow> (Some e, s'))"

section \<open>Assignment and conversion\<close>

definition get_value :: "nat \<Rightarrow> ('v, 'm, 's) conf_world \<Rightarrow> 'v res" where
  "get_value a w = res_bind (deref (vars w a)) (\<lambda>v. Inr (var_val v))"

definition set_val ::
  "('v, 'm, 's) conf_env \<Rightarrow> nat \<Rightarrow> 'v \<Rightarrow> ('v, 'm, 's) conf_world \<Rightarrow>
   ('v, 'm, 's) conf_world outcome" where
  "set_val E a x w =
     (case vars w a of
        None \<Rightarrow> (Some Undefined_behaviour, w)
      | Some v \<Rightarrow>
          if x = var_val v then (None, w)
          else
            (let w1 = put_var a (v\<lparr>var_val := x\<rparr>) w in
             case run_monitors (on_change E) (get_all_monitor v) (var_val v) x (outside w1) of
               (e, s) \<Rightarrow> (e, w1\<lparr>outside := s\<rparr>)))"

text \<open>The handlers of \<^verbatim>\<open>FromString\<close>: every exception is a \<^verbatim>\<open>std::exception\<close> and is logged.\<close>

fun caught :: "'s outcome \<Rightarrow> 's outcome" where
  "caught (Some (Thrown x), s) = (None, s)"
| "caught (e, s) = (e, s)"

definition from_string ::
  "('v, 'm, 's) conf_env \<Rightarrow> nat \<Rightarrow> string \<Rightarrow> ('v, 'm, 's) conf_world \<Rightarrow>
   ('v, 'm, 's) conf_world outcome" where
  "from_string E a str w =
     (case vars w a of
        None \<Rightarrow> (Some Undefined_behaviour, w)
      | Some v \<Rightarrow>
          caught (case from_str (casts E (var_type v)) str of
                    Inl e \<Rightarrow> (Some e, w)
                  | Inr x \<Rightarrow> set_val E a x w))"

definition to_string :: "('v, 'm, 's) conf_env \<Rightarrow> nat \<Rightarrow> ('v, 'm, 's) conf_world \<Rightarrow> string res" where
  "to_string E a w =
     res_bind (deref (vars w a)) (\<lambda>v.
     case to_str (casts E (var_type v)) (var_val v) of
       Inl (Thrown _) \<Rightarrow> Inr []
     | r \<Rightarrow> r)"

section \<open>The manager\<close>

definition find_config_var_base :: "string \<Rightarrow> ('v, 'm, 's) conf_world \<Rightarrow> nat option" where
  "find_config_var_base n w = configs w n"

text \<open>\<^verbatim>\<open>Find<T>\<close>, with the number \<open>t\<close> of the type \<^verbatim>\<open>T\<close>.\<close>

definition find_config :: "nat \<Rightarrow> string \<Rightarrow> ('v, 'm, 's) conf_world \<Rightarrow> nat option" where
  "find_config t n w =
     (case configs w n of
        None \<Rightarrow> None
      | Some a \<Rightarrow> (case vars w a of
            Some v \<Rightarrow> if var_type v = t then Some a else None
          | None \<Rightarrow> None))"

definition add_or_update ::
  "nat \<Rightarrow> string \<Rightarrow> 'v \<Rightarrow> string \<Rightarrow> ('v, 'm, 's) conf_world \<Rightarrow>
   (nat option \<times> ('v, 'm, 's) conf_world) res" where
  "add_or_update t n d desc w =
     (if \<not> valid_name n then Inr (None, w)
      else
        res_bind (new_config_var n t d desc) (\<lambda>v.
        let a = next_var w in
        Inr (Some a, put_config n a ((put_var a v w)\<lparr>next_var := Suc a\<rparr>))))"

text \<open>The default argument of \<^verbatim>\<open>ListAllNode\<close> makes the name of the root the empty string.\<close>

definition child_name :: "string \<Rightarrow> string \<Rightarrow> string" where
  "child_name n k = (if n = [] then k else n @ ''.'' @ k)"

fun list_all_node :: "ynode \<Rightarrow> (string \<times> ynode) list \<Rightarrow> string \<Rightarrow> (string \<times> ynode) list res"
and list_children :: "(ynode \<times> ynode) list \<Rightarrow> (string \<times> ynode) list \<Rightarrow> string \<Rightarrow>
    (string \<times> ynode) list res" where
  "list_all_node root ns n =
     (if valid_name n \<or> n = [] then
        let ns1 = (if n \<noteq> [] then ns @ [(n, root)] else ns) in
        case root of Y_map ps \<Rightarrow> list_children ps ns1 n | _ \<Rightarrow> Inr ns1
      else Inl (Thrown Invalid_argument))"
| "list_children [] ns n = Inr ns"
| "list_children ((k, v) # ps) ns n =
     res_bind (list_all_node v ns (child_name n (scalar_of k))) (\<lambda>ns'. list_children ps ns' n)"

definition node_text :: "yaml \<Rightarrow> ynode \<Rightarrow> string" where
  "node_text Y n = (if is_scalar n then scalar_of n else emit Y n)"

fun apply_nodes ::
  "('v, 'm, 's) conf_env \<Rightarrow> (string \<times> ynode) list \<Rightarrow> ('v, 'm, 's) conf_world \<Rightarrow>
   ('v, 'm, 's) conf_world outcome" where
  "apply_nodes E [] w = (None, w)"
| "apply_nodes E ((n, node) # ns) w =
     (case find_config_var_base n w of
        None \<Rightarrow> apply_nodes E ns w
      | Some a \<Rightarrow>
          (case from_string E a (node_text (yam E) node) w of
             (None, w') \<Rightarrow> apply_nodes E ns w'
           | (Some e, w') \<Rightarrow> (Some e, w')))"

text \<open>\<open>doc\<close> is what \<^verbatim>\<open>YAML::LoadFile\<close> makes of the file.\<close>

definition load_from_file ::
  "('v, 'm, 's) conf_env \<Rightarrow> ynode res \<Rightarrow> ('v, 'm, 's) conf_world \<Rightarrow>
   ('v, 'm, 's) conf_world outcome" where
  "load_from_file E doc w =
     (case doc of
        Inl e \<Rightarrow> (Some e, w)
      | Inr root \<Rightarrow>
          (case list_all_node root [] [] of
             Inl e \<Rightarrow> caught (Some e, w)
           | Inr ns \<Rightarrow> apply_nodes E ns w))"

section \<open>The nodes of a document\<close>

text \<open>
  The specification of \<^verbatim>\<open>ListAllNode\<close>: every node below the root that is reached through
  mappings only, under the keys on the way joined by dots, a mapping before its values.
\<close>

fun named_nodes :: "string \<Rightarrow> ynode \<Rightarrow> (string \<times> ynode) list"
and named_children :: "string \<Rightarrow> (ynode \<times> ynode) list \<Rightarrow> (string \<times> ynode) list" where
  "named_nodes n root =
     (if n = [] then [] else [(n, root)]) @
     (case root of Y_map ps \<Rightarrow> named_children n ps | _ \<Rightarrow> [])"
| "named_children n [] = []"
| "named_children n ((k, v) # ps) =
     named_nodes (child_name n (scalar_of k)) v @ named_children n ps"

declare list_all_node.simps(1) [simp del] named_nodes.simps(1) [simp del]

definition all_valid :: "(string \<times> ynode) list \<Rightarrow> bool" where
  "all_valid ns \<longleftrightarrow> list_all (\<lambda>p. valid_name (fst p)) ns"

lemma all_valid_simps [simp]:
  "all_valid []" "all_valid (p # ns) \<longleftrightarrow> valid_name (fst p) \<and> all_valid ns"
  "all_valid (ms @ ns) \<longleftrightarrow> all_valid ms \<and> all_valid ns"
  by (simp_all add: all_valid_def)

lemma list_all_node_eq:
  "list_all_node root ns n =
     (if all_valid (named_nodes n root) then Inr (ns @ named_nodes n root)
      else Inl (Thrown Invalid_argument))"
  "list_children ps ns n =
     (if all_valid (named_children n ps) then Inr (ns @ named_children n ps)
      else Inl (Thrown Invalid_argument))"
proof (induction root ns n and ps ns n rule: list_all_node_list_children.induct)
  case (1 root ns n)
  then show ?case
    by (cases root) (auto simp: list_all_node.simps(1) named_nodes.simps(1) Let_def)
next
  case (2 ns n)
  then show ?case by simp
next
  case (3 k v ps ns n)
  then show ?case by (cases "all_valid (named_nodes (child_name n (scalar_of k)) v)") simp_all
qed

section \<open>Assignment\<close>

lemma set_val_eq:
  "vars w a = Some v \<Longrightarrow> x \<noteq> var_val v \<Longrightarrow>
   run_monitors (on_change E) (get_all_monitor v) (var_val v) x (outside w) = (e, s) \<Longrightarrow>
   set_val E a x w = (e, (put_var a (v\<lparr>var_val := x\<rparr>) w)\<lparr>outside := s\<rparr>)"
  by (simp add: set_val_def Let_def put_var_def)

text \<open>Conversions and monitors that may throw, but neither abort nor hang.\<close>

definition only_throws :: "cpp_error option \<Rightarrow> bool" where
  "only_throws e \<longleftrightarrow> (case e of None \<Rightarrow> True | Some (Thrown _) \<Rightarrow> True | _ \<Rightarrow> False)"

lemma only_throws_cases:
  assumes "only_throws e"
  obtains "e = None" | x where "e = Some (Thrown x)"
  using assms by (auto simp: only_throws_def split: option.splits cpp_error.splits)

definition tame :: "('v, 'm, 's) conf_env \<Rightarrow> bool" where
  "tame E \<longleftrightarrow> (\<forall>m old now s. only_throws (fst (on_change E m old now s))) \<and>
     (\<forall>t s e. from_str (casts E t) s = Inl e \<longrightarrow> only_throws (Some e))"

lemma run_monitors_tame: "tame E \<Longrightarrow> only_throws (fst (run_monitors (on_change E) ms old now s))"
proof (induction ms arbitrary: s)
  case Nil
  then show ?case by (simp add: only_throws_def)
next
  case (Cons m ms)
  obtain e s' where f: "on_change E m old now s = (e, s')" by fastforce
  then have "only_throws e" using Cons.prems unfolding tame_def by (metis fst_conv)
  with f Cons show ?case by (cases e) simp_all
qed

text \<open>What a text makes of a value: the converted value, or the old one if there is none.\<close>

definition assigned :: "'v cast \<Rightarrow> string \<Rightarrow> 'v \<Rightarrow> 'v" where
  "assigned c s v = (case from_str c s of Inr x \<Rightarrow> x | Inl _ \<Rightarrow> v)"

lemma from_string_tame:
  assumes "tame E" "vars w a = Some v"
  shows "\<exists>s'. from_string E a str w =
    (None, (put_var a (v\<lparr>var_val := assigned (casts E (var_type v)) str (var_val v)\<rparr>) w)\<lparr>outside := s'\<rparr>)"
proof (cases "from_str (casts E (var_type v)) str")
  case (Inl e)
  then have "only_throws (Some e)" using assms(1) by (auto simp: tame_def)
  then obtain x where "e = Thrown x" by (auto elim: only_throws_cases)
  with Inl assms(2) have "from_string E a str w = (None, w)" by (simp add: from_string_def)
  moreover have "w = (put_var a (v\<lparr>var_val := var_val v\<rparr>) w)\<lparr>outside := outside w\<rparr>"
    using assms(2) by (simp add: put_var_def fun_upd_idem)
  ultimately show ?thesis using Inl by (metis assigned_def sum.case(1))
next
  case (Inr x)
  show ?thesis
  proof (cases "x = var_val v")
    case True
    with Inr assms(2) have "from_string E a str w = (None, w)"
      by (simp add: from_string_def set_val_def)
    moreover have "w = (put_var a (v\<lparr>var_val := var_val v\<rparr>) w)\<lparr>outside := outside w\<rparr>"
      using assms(2) by (simp add: put_var_def fun_upd_idem)
    ultimately show ?thesis using Inr True by (metis assigned_def sum.case(2))
  next
    case False
    obtain e s where m: "run_monitors (on_change E) (get_all_monitor v) (var_val v) x (outside w) = (e, s)"
      by fastforce
    then have "only_throws e" using run_monitors_tame[OF assms(1)] by (metis fst_conv)
    then show ?thesis
      by (rule only_throws_cases)
        (use assms(2) Inr set_val_eq[OF assms(2) False m] in \<open>auto simp: from_string_def assigned_def\<close>)
  qed
qed

text \<open>The manager's names and variables agree.\<close>

definition conf_wf :: "('v, 'm, 's) conf_world \<Rightarrow> bool" where
  "conf_wf w \<longleftrightarrow>
     (\<forall>n a. configs w n = Some a \<longrightarrow>
        (\<exists>v. vars w a = Some v \<and> var_name v = n \<and> valid_name n)) \<and>
     (\<forall>a. next_var w \<le> a \<longrightarrow> vars w a = None)"

lemma conf_wfD:
  assumes "conf_wf w" "configs w n = Some a"
  obtains v where "vars w a = Some v" "var_name v = n" "valid_name n"
  using assms unfolding conf_wf_def by blast

text \<open>A world in which at most values and the state outside differ.\<close>

definition same_vars :: "('v, 'm, 's) conf_world \<Rightarrow> ('v, 'm, 's) conf_world \<Rightarrow> bool" where
  "same_vars w w' \<longleftrightarrow> configs w' = configs w \<and> next_var w' = next_var w \<and>
     next_monitor w' = next_monitor w \<and>
     (\<forall>a. case vars w a of
            None \<Rightarrow> vars w' a = None
          | Some v \<Rightarrow> \<exists>x. vars w' a = Some (v\<lparr>var_val := x\<rparr>))"

lemma same_vars_Some: "same_vars w w' \<Longrightarrow> vars w a = Some v \<Longrightarrow> \<exists>x. vars w' a = Some (v\<lparr>var_val := x\<rparr>)"
  by (auto simp: same_vars_def dest: spec[of _ a])

lemma same_vars_None: "same_vars w w' \<Longrightarrow> vars w a = None \<Longrightarrow> vars w' a = None"
  by (auto simp: same_vars_def dest: spec[of _ a])

lemma same_vars_refl: "same_vars w w"
proof -
  have "\<exists>x. v = v\<lparr>var_val := x\<rparr>" for v :: "('v, 'm) config_var"
    by (rule exI[of _ "var_val v"]) simp
  then show ?thesis by (auto simp: same_vars_def split: option.splits)
qed

lemma same_vars_trans:
  assumes "same_vars w1 w2" "same_vars w2 w3"
  shows "same_vars w1 w3"
proof -
  have "case vars w1 a of None \<Rightarrow> vars w3 a = None
      | Some v \<Rightarrow> \<exists>x. vars w3 a = Some (v\<lparr>var_val := x\<rparr>)" for a
  proof (cases "vars w1 a")
    case None
    with assms show ?thesis by (simp add: same_vars_None)
  next
    case (Some v)
    from same_vars_Some[OF assms(1) this] obtain x where "vars w2 a = Some (v\<lparr>var_val := x\<rparr>)" ..
    from same_vars_Some[OF assms(2) this] Some show ?thesis by simp
  qed
  with assms show ?thesis by (simp add: same_vars_def)
qed

lemma same_vars_put:
  assumes "vars w a = Some v"
  shows "same_vars w ((put_var a (v\<lparr>var_val := x\<rparr>) w)\<lparr>outside := s\<rparr>)"
  using assms same_vars_refl[of w] by (auto simp: same_vars_def put_var_def split: option.splits)

lemma same_vars_wf:
  assumes "same_vars w w'" "conf_wf w"
  shows "conf_wf w'"
proof -
  have c: "configs w' = configs w" "next_var w' = next_var w"
    using assms(1) by (simp_all add: same_vars_def)
  show ?thesis
    unfolding conf_wf_def c
  proof (intro conjI allI impI)
    fix n a
    assume "configs w n = Some a"
    with assms(2) obtain v where "vars w a = Some v" "var_name v = n" "valid_name n"
      by (rule conf_wfD)
    with same_vars_Some[OF assms(1)] show "\<exists>v. vars w' a = Some v \<and> var_name v = n \<and> valid_name n"
      by fastforce
  next
    fix a
    assume "next_var w \<le> a"
    with assms(2) have "vars w a = None" by (simp add: conf_wf_def)
    with same_vars_None[OF assms(1)] show "vars w' a = None" .
  qed
qed

lemma apply_nodes_tame:
  assumes "tame E" "conf_wf w"
  shows "\<exists>w'. apply_nodes E ns w = (None, w') \<and> same_vars w w' \<and>
    (\<forall>n a v. configs w n = Some a \<longrightarrow> vars w a = Some v \<longrightarrow>
       vars w' a = Some (v\<lparr>var_val :=
         fold (assigned (casts E (var_type v)))
           (map (\<lambda>p. node_text (yam E) (snd p)) (filter (\<lambda>p. fst p = n) ns)) (var_val v)\<rparr>))"
  using assms(2)
proof (induction ns arbitrary: w)
  case Nil
  then show ?case by (simp add: same_vars_refl)
next
  case (Cons p ns)
  obtain m node where p: "p = (m, node)" by fastforce
  show ?case
  proof (cases "configs w m")
    case None
    with Cons p show ?thesis by (fastforce simp: find_config_var_base_def)
  next
    case (Some a)
    with Cons.prems obtain v where v: "vars w a = Some v" "var_name v = m" by (rule conf_wfD)
    define w1 where "w1 = put_var a (v\<lparr>var_val := assigned (casts E (var_type v)) (node_text (yam E) node) (var_val v)\<rparr>) w"
    from from_string_tame[OF assms(1) v(1)] obtain s where
      f: "from_string E a (node_text (yam E) node) w = (None, w1\<lparr>outside := s\<rparr>)"
      unfolding w1_def by blast
    have sv: "same_vars w (w1\<lparr>outside := s\<rparr>)" unfolding w1_def by (rule same_vars_put[OF v(1)])
    have wf: "conf_wf (w1\<lparr>outside := s\<rparr>)" by (rule same_vars_wf[OF sv Cons.prems])
    from Cons.IH[OF this] obtain w2 where w2: "apply_nodes E ns (w1\<lparr>outside := s\<rparr>) = (None, w2)"
      "same_vars (w1\<lparr>outside := s\<rparr>) w2"
      "\<forall>n b u. configs (w1\<lparr>outside := s\<rparr>) n = Some b \<longrightarrow> vars (w1\<lparr>outside := s\<rparr>) b = Some u \<longrightarrow>
       vars w2 b = Some (u\<lparr>var_val :=
         fold (assigned (casts E (var_type u)))
           (map (\<lambda>p. node_text (yam E) (snd p)) (filter (\<lambda>p. fst p = n) ns)) (var_val u)\<rparr>)"
      by blast
    have "vars w2 b = Some (u\<lparr>var_val :=
         fold (assigned (casts E (var_type u)))
           (map (\<lambda>p. node_text (yam E) (snd p)) (filter (\<lambda>p. fst p = n) (p # ns))) (var_val u)\<rparr>)"
      if b: "configs w n = Some b" "vars w b = Some u" for n b u
    proof -
      have n: "var_name u = n" using conf_wfD[OF Cons.prems b(1)] b(2) by auto
      show ?thesis
      proof (cases "b = a")
        case True
        with b v n have "u = v" "n = m" by auto
        with w2(3)[rule_format, of n b] True b show ?thesis by (simp add: w1_def put_var_def p)
      next
        case False
        then have "n \<noteq> m" using b Some by auto
        with w2(3)[rule_format, of n b u] False b show ?thesis by (simp add: w1_def put_var_def p)
      qed
    qed
    with w2 f Some sv show ?thesis
      by (auto simp: p find_config_var_base_def intro: same_vars_trans)
  qed
qed

section \<open>Sequences of calls\<close>

text \<open>
  The calls a program makes. A caller that finds no variable makes no call on it, and goes on
  after an exception, with the state the call has left.
\<close>

datatype ('v, 'm) conf_op =
    C_add nat string 'v string
  | C_set nat string 'v
  | C_from_string string string
  | C_load "ynode res"
  | C_add_monitor nat string 'm
  | C_remove_monitor nat string u64

fun survived :: "'s outcome \<Rightarrow> 's res" where
  "survived (None, s) = Inr s"
| "survived (Some (Thrown x), s) = Inr s"
| "survived (Some e, s) = Inl e"

definition on_found :: "nat option \<Rightarrow> (nat \<Rightarrow> 'w \<Rightarrow> 'w res) \<Rightarrow> 'w \<Rightarrow> 'w res" where
  "on_found p f w = (case p of None \<Rightarrow> Inr w | Some a \<Rightarrow> f a w)"

fun conf_exec ::
  "('v, 'm, 's) conf_env \<Rightarrow> ('v, 'm) conf_op \<Rightarrow> ('v, 'm, 's) conf_world \<Rightarrow>
   ('v, 'm, 's) conf_world res" where
  "conf_exec E (C_add t n d desc) w = res_bind (add_or_update t n d desc w) (\<lambda>(_, w'). Inr w')"
| "conf_exec E (C_set t n x) w = on_found (find_config t n w) (\<lambda>a w. survived (set_val E a x w)) w"
| "conf_exec E (C_from_string n s) w =
     on_found (find_config_var_base n w) (\<lambda>a w. survived (from_string E a s w)) w"
| "conf_exec E (C_load d) w = survived (load_from_file E d w)"
| "conf_exec E (C_add_monitor t n m) w =
     on_found (find_config t n w) (\<lambda>a w. res_bind (add_monitor a m w) (\<lambda>(_, w'). Inr w')) w"
| "conf_exec E (C_remove_monitor t n i) w = on_found (find_config t n w) (\<lambda>a w. remove_monitor a i w) w"

definition empty_conf :: "'s \<Rightarrow> ('v, 'm, 's) conf_world" where
  "empty_conf s = \<lparr>vars = Map.empty, configs = Map.empty, next_var = 0, next_monitor = (\<lambda>_. 0),
     outside = s\<rparr>"

text \<open>\<open>ok t x\<close>: the value \<open>x\<close> is of the type number \<open>t\<close>.\<close>

definition well_typed :: "(nat \<Rightarrow> 'v \<Rightarrow> bool) \<Rightarrow> ('v, 'm, 's) conf_world \<Rightarrow> bool" where
  "well_typed ok w \<longleftrightarrow> (\<forall>a v. vars w a = Some v \<longrightarrow> ok (var_type v) (var_val v))"

definition typed_casts :: "(nat \<Rightarrow> 'v \<Rightarrow> bool) \<Rightarrow> ('v, 'm, 's) conf_env \<Rightarrow> bool" where
  "typed_casts ok E \<longleftrightarrow> (\<forall>t s x. from_str (casts E t) s = Inr x \<longrightarrow> ok t x)"

fun typed_call :: "(nat \<Rightarrow> 'v \<Rightarrow> bool) \<Rightarrow> ('v, 'm) conf_op \<Rightarrow> bool" where
  "typed_call ok (C_add t n d desc) \<longleftrightarrow> ok t d"
| "typed_call ok (C_set t n x) \<longleftrightarrow> ok t x"
| "typed_call ok _ \<longleftrightarrow> True"

definition conf_inv :: "(nat \<Rightarrow> 'v \<Rightarrow> bool) \<Rightarrow> ('v, 'm, 's) conf_world \<Rightarrow> bool" where
  "conf_inv ok w \<longleftrightarrow> conf_wf w \<and> well_typed ok w"

lemma conf_inv_put:
  assumes "conf_inv ok w" "vars w a = Some u" "var_name v = var_name u" "ok (var_type v) (var_val v)"
    "configs w' = configs w" "next_var w' = next_var w" "vars w' = (vars w)(a \<mapsto> v)"
  shows "conf_inv ok w'"
  using assms unfolding conf_inv_def conf_wf_def well_typed_def by (fastforce split: if_splits)

lemma set_val_inv:
  assumes "conf_inv ok w" "vars w a = Some v" "ok (var_type v) x" "set_val E a x w = (e, w')"
  shows "conf_inv ok w'"
proof (cases "x = var_val v")
  case True
  with assms show ?thesis by (simp add: set_val_def)
next
  case False
  obtain e1 s where m: "run_monitors (on_change E) (get_all_monitor v) (var_val v) x (outside w) = (e1, s)"
    by fastforce
  from set_val_eq[OF assms(2) False m] assms(4)
  have "w' = (put_var a (v\<lparr>var_val := x\<rparr>) w)\<lparr>outside := s\<rparr>" by simp
  then show ?thesis
    by (intro conf_inv_put[OF assms(1,2), of "v\<lparr>var_val := x\<rparr>"]) (simp_all add: put_var_def assms(3))
qed

lemma caught_snd [simp]: "snd (caught r) = snd r"
  by (induction r rule: caught.induct) simp_all

lemma from_string_inv:
  assumes "conf_inv ok w" "typed_casts ok E" "from_string E a str w = (e, w')"
  shows "conf_inv ok w'"
proof (cases "vars w a")
  case None
  with assms show ?thesis by (simp add: from_string_def)
next
  case (Some v)
  have w': "w' = snd (from_string E a str w)" by (simp add: assms(3))
  show ?thesis
  proof (cases "from_str (casts E (var_type v)) str")
    case (Inl x)
    with Some w' assms(1) show ?thesis by (simp add: from_string_def)
  next
    case (Inr x)
    then have "ok (var_type v) x" using assms(2) by (simp add: typed_casts_def)
    from set_val_inv[OF assms(1) Some this, of E "fst (set_val E a x w)" "snd (set_val E a x w)"]
    show ?thesis using w' Some Inr by (simp add: from_string_def)
  qed
qed

lemma apply_nodes_inv:
  "conf_inv ok w \<Longrightarrow> typed_casts ok E \<Longrightarrow> apply_nodes E ns w = (e, w') \<Longrightarrow> conf_inv ok w'"
proof (induction ns arbitrary: w)
  case Nil
  then show ?case by simp
next
  case (Cons p ns)
  obtain n node where p: "p = (n, node)" by fastforce
  show ?case
  proof (cases "find_config_var_base n w")
    case None
    with Cons p show ?thesis by simp
  next
    case (Some a)
    obtain e1 w1 where f: "from_string E a (node_text (yam E) node) w = (e1, w1)" by fastforce
    with from_string_inv[OF Cons.prems(1,2)] have "conf_inv ok w1" by blast
    with Cons f p Some show ?thesis by (cases e1) auto
  qed
qed

lemma load_inv:
  assumes "conf_inv ok w" "typed_casts ok E" "load_from_file E d w = (e, w')"
  shows "conf_inv ok w'"
proof (cases d)
  case (Inl x)
  with assms show ?thesis by (simp add: load_from_file_def)
next
  case (Inr root)
  have w': "w' = snd (load_from_file E d w)" by (simp add: assms(3))
  show ?thesis
  proof (cases "list_all_node root [] []")
    case (Inl x)
    with w' Inr assms(1) show ?thesis by (simp add: load_from_file_def)
  next
    case (Inr ns)
    with assms(3) \<open>d = Inr root\<close> have "apply_nodes E ns w = (e, w')" by (simp add: load_from_file_def)
    with apply_nodes_inv[OF assms(1,2)] show ?thesis by blast
  qed
qed

lemma add_or_update_inv:
  assumes "conf_inv ok w" "ok t d" "add_or_update t n d desc w = Inr (p, w')"
  shows "conf_inv ok w'"
proof (cases "valid_name n")
  case False
  with assms show ?thesis by (simp add: add_or_update_def)
next
  case True
  define v :: "('a, 'b) config_var" where
    "v = \<lparr>var_name = n, var_desc = desc, var_type = t, var_val = d, monitors = Map.empty\<rparr>"
  have w': "vars w' = (vars w)(next_var w \<mapsto> v)" "configs w' = (configs w)(n \<mapsto> next_var w)"
      "next_var w' = Suc (next_var w)"
    using assms(3) True
    by (auto simp: add_or_update_def new_config_var_def put_var_def put_config_def v_def Let_def)
  have free: "vars w (next_var w) = None" using assms(1) by (simp add: conf_inv_def conf_wf_def)
  have "conf_wf w'"
    unfolding conf_wf_def w'
  proof (intro conjI allI impI)
    fix m a
    assume a: "((configs w)(n \<mapsto> next_var w)) m = Some a"
    show "\<exists>u. ((vars w)(next_var w \<mapsto> v)) a = Some u \<and> var_name u = m \<and> valid_name m"
    proof (cases "m = n")
      case True
      with a \<open>valid_name n\<close> show ?thesis by (simp add: v_def)
    next
      case False
      with a have "configs w m = Some a" by simp
      with assms(1) obtain u where "vars w a = Some u" "var_name u = m" "valid_name m"
        unfolding conf_inv_def by (auto elim: conf_wfD)
      with free show ?thesis by auto
    qed
  next
    fix a
    assume "Suc (next_var w) \<le> a"
    with assms(1) show "((vars w)(next_var w \<mapsto> v)) a = None"
      by (auto simp: conf_inv_def conf_wf_def)
  qed
  moreover have "well_typed ok w'"
    using assms(1,2) by (auto simp: well_typed_def w' conf_inv_def v_def)
  ultimately show ?thesis by (simp add: conf_inv_def)
qed

lemma survived_eq_Inr: "survived r = Inr w' \<longleftrightarrow> only_throws (fst r) \<and> snd r = w'"
  by (induction r rule: survived.induct) (auto simp: only_throws_def)

lemma monitors_inv:
  assumes "conf_inv ok w" "vars w a = Some v" "vars w' = (vars w)(a \<mapsto> v\<lparr>monitors := ms\<rparr>)"
    "configs w' = configs w" "next_var w' = next_var w"
  shows "conf_inv ok w'"
proof -
  have "ok (var_type v) (var_val v)" using assms(1,2) by (simp add: conf_inv_def well_typed_def)
  with conf_inv_put[OF assms(1,2), of "v\<lparr>monitors := ms\<rparr>"] assms(3-5) show ?thesis by simp
qed

lemma add_monitor_inv:
  assumes "conf_inv ok w" "add_monitor a m w = Inr (i, w')"
  shows "conf_inv ok w'"
proof -
  from assms(2) obtain v where v: "vars w a = Some v"
    by (auto simp: add_monitor_def res_bind_eq_Inr)
  show ?thesis
    by (rule monitors_inv[OF assms(1) v]) (use assms(2) v in \<open>auto simp: add_monitor_def Let_def put_var_def\<close>)
qed

lemma remove_monitor_inv:
  assumes "conf_inv ok w" "remove_monitor a i w = Inr w'"
  shows "conf_inv ok w'"
proof -
  from assms(2) obtain v where v: "vars w a = Some v"
    by (auto simp: remove_monitor_def res_bind_eq_Inr)
  show ?thesis
    by (rule monitors_inv[OF assms(1) v]) (use assms(2) v in \<open>auto simp: remove_monitor_def put_var_def\<close>)
qed

lemma conf_exec_inv:
  assumes "typed_casts ok E" "typed_call ok c" "conf_inv ok w" "conf_exec E c w = Inr w'"
  shows "conf_inv ok w'"
proof (cases c)
  case (C_add t n d desc)
  with assms obtain p where "add_or_update t n d desc w = Inr (p, w')"
    by (auto simp: res_bind_eq_Inr)
  from add_or_update_inv[OF assms(3) _ this] C_add assms(2) show ?thesis by simp
next
  case (C_set t n x)
  show ?thesis
  proof (cases "find_config t n w")
    case None
    with C_set assms show ?thesis by (simp add: on_found_def)
  next
    case (Some a)
    then obtain v where v: "vars w a = Some v" "var_type v = t"
      by (auto simp: find_config_def split: option.splits if_splits)
    from C_set Some assms(4) have "snd (set_val E a x w) = w'"
      by (simp add: on_found_def survived_eq_Inr)
    then obtain e where "set_val E a x w = (e, w')" by (metis prod.collapse)
    from set_val_inv[OF assms(3) v(1) _ this] C_set assms(2) v(2) show ?thesis by simp
  qed
next
  case (C_from_string n str)
  show ?thesis
  proof (cases "find_config_var_base n w")
    case None
    with C_from_string assms show ?thesis by (simp add: on_found_def)
  next
    case (Some a)
    with C_from_string assms(4) have "snd (from_string E a str w) = w'"
      by (simp add: on_found_def survived_eq_Inr)
    then obtain e where "from_string E a str w = (e, w')" by (metis prod.collapse)
    from from_string_inv[OF assms(3,1) this] show ?thesis .
  qed
next
  case (C_load d)
  with assms(4) have "snd (load_from_file E d w) = w'" by (simp add: survived_eq_Inr)
  then obtain e where "load_from_file E d w = (e, w')" by (metis prod.collapse)
  from load_inv[OF assms(3,1) this] show ?thesis .
next
  case (C_add_monitor t n m)
  show ?thesis
  proof (cases "find_config t n w")
    case None
    with C_add_monitor assms show ?thesis by (simp add: on_found_def)
  next
    case (Some a)
    with C_add_monitor assms(4) obtain i where "add_monitor a m w = Inr (i, w')"
      by (auto simp: on_found_def res_bind_eq_Inr)
    with assms(3) show ?thesis by (rule add_monitor_inv)
  qed
next
  case (C_remove_monitor t n i)
  show ?thesis
  proof (cases "find_config t n w")
    case None
    with C_remove_monitor assms show ?thesis by (simp add: on_found_def)
  next
    case (Some a)
    with C_remove_monitor assms(4) have "remove_monitor a i w = Inr w'" by (simp add: on_found_def)
    with assms(3) show ?thesis by (rule remove_monitor_inv)
  qed
qed

interpretation conf_calls: guarded_calls "conf_exec E" "conf_inv ok"
    "\<lambda>c. typed_casts ok E \<and> typed_call ok c" for ok E
  by unfold_locales (blast intro: conf_exec_inv)

lemma empty_conf_inv: "conf_inv ok (empty_conf s)"
  by (simp add: conf_inv_def conf_wf_def well_typed_def empty_conf_def)

section \<open>Properties\<close>

text \<open>
  Loading a document is all or nothing in its names: if every node reached through
  mappings has a valid dotted name, the named nodes are applied in the order of the document;
  otherwise the error is logged and no variable changes.
\<close>

theorem load_all_or_nothing:
  "load_from_file E (Inr root) w =
     (if all_valid (named_nodes [] root) then apply_nodes E (named_nodes [] root) w else (None, w))"
  by (simp add: load_from_file_def list_all_node_eq)

text \<open>
  C29: Loading a document with valid names assigns every registered variable the converted
  text of its node (of its nodes in order, if a name occurs more than once); a variable whose
  text does not convert, or that is not named, keeps its value, and no exception of a
  conversion or a monitor stops the rest.
\<close>

theorem load_assigns_variables:
  assumes "conf_wf w" "tame E" "all_valid (named_nodes [] root)"
    "configs w n = Some a" "vars w a = Some v"
  shows "\<exists>w'. load_from_file E (Inr root) w = (None, w') \<and> configs w' = configs w \<and>
    vars w' a = Some (v\<lparr>var_val := fold (assigned (casts E (var_type v)))
      (map (\<lambda>p. node_text (yam E) (snd p)) (filter (\<lambda>p. fst p = n) (named_nodes [] root))) (var_val v)\<rparr>)"
  using apply_nodes_tame[OF assms(2,1), of "named_nodes [] root"] assms(3-5)
  by (fastforce simp: load_from_file_def list_all_node_eq same_vars_def)

text \<open>The first mapping of \<^verbatim>\<open>conf/config.yml\<close>, and variables of a string and a number type.\<close>

definition person_doc :: ynode where
  "person_doc = Y_map [(Y_scalar ''person'', Y_map
     [(Y_scalar ''name'', Y_scalar ''CXX''), (Y_scalar ''age'', Y_scalar ''22'')])]"

definition demo_env :: "(string + nat, nat, nat list) conf_env" where
  "demo_env = \<lparr>casts = (\<lambda>t. if t = 0 then \<lparr>from_str = (\<lambda>s. Inr (Inl s)), to_str = (\<lambda>_. Inr [])\<rparr>
       else \<lparr>from_str = (\<lambda>s. if s = ''22'' then Inr (Inr 22) else Inl (Thrown Bad_lexical_cast)),
             to_str = (\<lambda>_. Inr [])\<rparr>),
     on_change = (\<lambda>m old now s. (None, s @ [m])), yam = demo_yaml\<rparr>"

definition demo_ok :: "nat \<Rightarrow> string + nat \<Rightarrow> bool" where
  "demo_ok t x \<longleftrightarrow> isl x = (t = 0)"

lemma demo_typed: "typed_casts demo_ok demo_env"
  by (auto simp: typed_casts_def demo_env_def demo_ok_def split: if_splits)

lemma demo_tame: "tame demo_env"
  by (auto simp: tame_def demo_env_def only_throws_def split: if_splits)

definition demo_conf :: "(string + nat, nat, nat list) conf_world" where
  "demo_conf = \<lparr>vars = [0 \<mapsto> \<lparr>var_name = ''person.age'', var_desc = [], var_type = 1,
       var_val = Inr 0, monitors = [3 \<mapsto> 8, 2 \<mapsto> 9]\<rparr>], configs = [''person.age'' \<mapsto> 0], next_var = 1,
     next_monitor = (\<lambda>_. 4), outside = []\<rparr>"

lemma demo_valid_name: "valid_name ''person.age''" "valid_name ''person''" "valid_name ''person.name''"
  by (simp_all add: valid_name_def name_char_def less_eq_char_def)

lemma person_nodes: "named_nodes [] person_doc =
    [(''person'', Y_map [(Y_scalar ''name'', Y_scalar ''CXX''), (Y_scalar ''age'', Y_scalar ''22'')]),
     (''person.name'', Y_scalar ''CXX''), (''person.age'', Y_scalar ''22'')]"
  by (simp add: person_doc_def named_nodes.simps(1) child_name_def)

lemma demo_conf_wf: "conf_wf demo_conf"
  by (auto simp: conf_wf_def demo_conf_def demo_valid_name)

theorem load_assigns_variables_witness:
  "\<exists>w'. load_from_file demo_env (Inr person_doc) demo_conf = (None, w') \<and>
     map_option var_val (vars w' 0) = Some (Inr 22)"
  using load_assigns_variables[OF demo_conf_wf demo_tame, of person_doc "''person.age''" 0]
  by (fastforce simp: person_nodes demo_valid_name demo_conf_def demo_env_def assigned_def node_text_def)

text \<open>
  C30: Whatever is done with the configuration (adding, assigning, converting, loading,
  monitoring), in any order, a variable that \<^verbatim>\<open>Find<T>\<close> returns exists, has the name it was
  looked up by and the type asked for, and its value is of that type.
\<close>

theorem found_variable_is_typed:
  assumes "typed_casts ok E" "\<forall>c\<in>set ops. typed_call ok c"
    "run_ops (conf_exec E) ops (empty_conf s) = Inr w" "find_config t n w = Some a"
  shows "\<exists>v. vars w a = Some v \<and> var_name v = n \<and> var_type v = t \<and> ok t (var_val v)"
proof -
  have "conf_inv ok w"
    using conf_calls.run_legal_inv[OF _ empty_conf_inv assms(3)] assms(1,2) by blast
  then show ?thesis
    using assms(4) unfolding conf_inv_def conf_wf_def well_typed_def find_config_def
    by (fastforce split: option.splits if_splits)
qed

theorem found_variable_is_typed_witness:
  "\<exists>w v. run_ops (conf_exec demo_env) [C_add 1 ''person.age'' (Inr 0) [], C_load (Inr person_doc)]
      (empty_conf []) = Inr w \<and> vars w 0 = Some v \<and> \<not> isl (var_val v)"
proof -
  let ?ops = "[C_add 1 ''person.age'' (Inr 0) [], C_load (Inr person_doc)]"
  let ?w1 = "\<lparr>vars = [0 \<mapsto> \<lparr>var_name = ''person.age'', var_desc = [], var_type = 1, var_val = Inr 0,
      monitors = Map.empty\<rparr>], configs = [''person.age'' \<mapsto> 0], next_var = 1,
      next_monitor = (\<lambda>_. 0), outside = []\<rparr> :: (string + nat, nat, nat list) conf_world"
  have 1: "conf_exec demo_env (C_add 1 ''person.age'' (Inr 0) []) (empty_conf []) = Inr ?w1"
    by (simp add: add_or_update_def new_config_var_def demo_valid_name empty_conf_def Let_def
        put_var_def put_config_def)
  have "conf_wf ?w1" by (auto simp: conf_wf_def demo_valid_name)
  from apply_nodes_tame[OF demo_tame this, of "named_nodes [] person_doc"] obtain w where
    w: "apply_nodes demo_env (named_nodes [] person_doc) ?w1 = (None, w)" "configs w = configs ?w1"
      "\<exists>x. vars w 0 = Some ((the (vars ?w1 0))\<lparr>var_val := x\<rparr>)"
    by (fastforce simp: same_vars_def dest: spec[of _ 0])
  then have "run_ops (conf_exec demo_env) ?ops (empty_conf []) = Inr w"
    using 1 by (simp add: load_from_file_def list_all_node_eq person_nodes demo_valid_name)
  moreover have "find_config 1 ''person.age'' w = Some 0"
    using w(2,3) by (auto simp: find_config_def)
  moreover have "\<forall>c\<in>set ?ops. typed_call demo_ok c" by (simp add: demo_ok_def)
  ultimately show ?thesis
    using found_variable_is_typed[OF demo_typed, of ?ops "[]" w 1 "''person.age''" 0]
    by (auto simp: demo_ok_def)
qed

text \<open>
  C31: Assigning a different value stores it and then calls each registered monitor exactly
  once, in the order of the ids, with the old and the new value; assigning an equal value calls
  none and changes nothing.
\<close>

theorem change_calls_each_monitor_once:
  assumes "vars w a = Some v" "\<forall>m old now s. on_change E m old now s = (None, s @ [(m, old, now)])"
  shows "set_val E a x w =
    (None, if x = var_val v then w
       else (put_var a (v\<lparr>var_val := x\<rparr>) w)\<lparr>outside := outside w @
         map (\<lambda>i. (the (monitors v i), var_val v, x)) (sorted_list_of_set (dom (monitors v)))\<rparr>)"
proof -
  have "run_monitors (on_change E) ms old now s = (None, s @ map (\<lambda>m. (m, old, now)) ms)" for ms old now s
    using assms(2) by (induction ms arbitrary: s) simp_all
  then have "run_monitors (on_change E) (get_all_monitor v) (var_val v) x (outside w) =
      (None, outside w @ map (\<lambda>m. (m, var_val v, x)) (get_all_monitor v))" .
  with assms(1) show ?thesis
    by (simp add: set_val_def put_var_def get_all_monitor_def comp_def)
qed

definition recorder :: "(nat, nat, (nat \<times> nat \<times> nat) list) conf_env" where
  "recorder = \<lparr>casts = (\<lambda>_. \<lparr>from_str = (\<lambda>_. Inr 0), to_str = (\<lambda>_. Inr [])\<rparr>),
     on_change = (\<lambda>m old now s. (None, s @ [(m, old, now)])), yam = demo_yaml\<rparr>"

definition watched :: "(nat, nat, (nat \<times> nat \<times> nat) list) conf_world" where
  "watched = \<lparr>vars = [0 \<mapsto> \<lparr>var_name = ''a'', var_desc = [], var_type = 0, var_val = 5,
      monitors = [3 \<mapsto> 8, 2 \<mapsto> 9]\<rparr>], configs = [''a'' \<mapsto> 0], next_var = 1,
      next_monitor = (\<lambda>_. 4), outside = []\<rparr>"

theorem change_calls_each_monitor_once_witness:
  "outside (snd (set_val recorder 0 6 watched)) = [(9, 5, 6), (8, 5, 6)]"
  using change_calls_each_monitor_once[of watched 0 _ recorder 6]
  by (simp add: recorder_def watched_def)

section \<open>Monitor ids\<close>

fun add_monitors :: "nat \<Rightarrow> 'm list \<Rightarrow> ('v, 'm, 's) conf_world \<Rightarrow>
    (u64 list \<times> ('v, 'm, 's) conf_world) res" where
  "add_monitors a [] w = Inr ([], w)"
| "add_monitors a (m # ms) w =
     res_bind (add_monitor a m w) (\<lambda>(i, w1).
     res_bind (add_monitors a ms w1) (\<lambda>(is, w2). Inr (i # is, w2)))"

lemma add_monitors_eq:
  assumes "vars w a = Some v"
  shows "\<exists>w' v'. add_monitors a ms w =
      Inr (map (\<lambda>j. ucast (next_monitor w (var_type v) + of_nat j)) [0..<length ms], w') \<and>
    vars w' a = Some v' \<and> var_type v' = var_type v \<and>
    next_monitor w' (var_type v) = next_monitor w (var_type v) + of_nat (length ms)"
  using assms
proof (induction ms arbitrary: w v)
  case Nil
  then show ?case by simp
next
  case (Cons m ms)
  define w1 where "w1 = snd (projr (add_monitor a m w))"
  have w1: "add_monitor a m w = Inr (ucast (next_monitor w (var_type v)), w1)"
    using Cons.prems by (simp add: add_monitor_def Let_def w1_def)
  obtain u where u: "vars w1 a = Some u" "var_type u = var_type v"
      "next_monitor w1 (var_type v) = next_monitor w (var_type v) + 1"
    using Cons.prems w1 by (auto simp: add_monitor_def Let_def put_var_def)
  have r: "[0..<length (m # ms)] = 0 # map Suc [0..<length ms]"
    by (simp add: map_Suc_upt upt_conv_Cons del: upt_Suc)
  from Cons.IH[OF u(1)] u(2,3) w1 show ?case
    unfolding r by (fastforce simp: comp_def add.assoc)
qed

text \<open>
  C32: Monitor ids come from a 16-bit counter: 65536 monitors of one type get pairwise
  different ids, and the next one is given the first id again, so on the same variable it
  takes the place of the first monitor.
\<close>

theorem monitor_ids_wrap:
  assumes "vars w a = Some v" "length ms = 2 ^ 16" "add_monitors a ms w = Inr (is, w1)"
  shows "distinct is \<and> (\<exists>w2 u. add_monitor a m w1 = Inr (hd is, w2) \<and>
    vars w2 a = Some u \<and> monitors u (hd is) = Some m)"
proof -
  let ?n = "next_monitor w (var_type v)"
  from add_monitors_eq[OF assms(1), of ms] assms(3) obtain u where
    is': "is = map (\<lambda>j. ucast (?n + of_nat j)) [0..<2 ^ 16]" and
    u: "vars w1 a = Some u" "var_type u = var_type v"
      "next_monitor w1 (var_type v) = ?n + of_nat (2 ^ 16)"
    unfolding assms(2) by auto
  have "inj_on (\<lambda>j. ucast (?n + of_nat j) :: u64) {0..<2 ^ 16}"
  proof (rule inj_onI)
    fix i j :: nat
    assume "i \<in> {0..<2 ^ 16}" "j \<in> {0..<2 ^ 16}" "(ucast (?n + of_nat i) :: u64) = ucast (?n + of_nat j)"
    then have "(of_nat i :: u16) = of_nat j" "i < 2 ^ 16" "j < 2 ^ 16"
      by (simp_all add: ucast_u16_u64_inj)
    then show "i = j" using of_nat_word_inj[where 'a=16, of i j] by simp
  qed
  then have "distinct is" unfolding is' by (simp add: distinct_map)
  moreover have "hd is = ucast ?n" unfolding is' by (simp add: hd_map)
  moreover have z: "(65536 :: u16) = 0" by simp
  have "next_monitor w1 (var_type v) = ?n" using u(3) by (simp add: z)
  ultimately show ?thesis using u(1,2) by (simp add: add_monitor_def Let_def put_var_def)
qed

theorem monitor_ids_wrap_witness:
  "\<exists>is w1 w2 u. add_monitors 0 (replicate 65536 1) watched = Inr (is, w1) \<and>
     add_monitor 0 2 w1 = Inr (hd is, w2) \<and> vars w2 0 = Some u \<and> monitors u (hd is) = Some 2"
proof -
  obtain v where v: "vars watched 0 = Some v" by (simp add: watched_def)
  from add_monitors_eq[OF this, of "replicate 65536 1"] obtain "is" w1
    where r: "add_monitors 0 (replicate 65536 1) watched = Inr (is, w1)" by blast
  from monitor_ids_wrap[OF v _ r, of 2] show ?thesis using r by auto
qed

section \<open>A conversion that does not fail\<close>

text \<open>
  A text that is a scalar, given to a variable of a \<^verbatim>\<open>std::map\<close>, is refused and leaves the
  variable as it is; given to a variable of a \<^verbatim>\<open>std::unordered_map\<close>, it empties it, because the
  exception for a document of the wrong kind is built but not thrown.
\<close>

theorem scalar_empties_unordered_map:
  assumes "load (yam E) str = Inr (Y_scalar t)" "tame E" "vars w a = Some u" "vars w b = Some v"
    "casts E (var_type u) = map_cast (yam E) kc vc"
    "casts E (var_type v) = unordered_map_cast (yam E) order kc vc"
  shows "from_string E a str w = (None, w) \<and>
    (\<exists>s. from_string E b str w = (None, (put_var b (v\<lparr>var_val := Map.empty\<rparr>) w)\<lparr>outside := s\<rparr>))"
proof -
  have "from_str (casts E (var_type u)) str = Inl (Thrown Logic_error)"
    using assms(1,5) by (simp add: map_cast_def map_from_str_def)
  moreover have "assigned (casts E (var_type v)) str (var_val v) = Map.empty"
    using assms(1,6) by (simp add: assigned_def unordered_map_cast_def unordered_map_from_str_def)
  ultimately show ?thesis
    using from_string_tame[OF assms(2,4), of str] assms(3) by (simp add: from_string_def)
qed

definition map_env :: "(nat \<Rightarrow> string option, nat, nat) conf_env" where
  "map_env = \<lparr>casts = (\<lambda>t. if t = 0 then map_cast demo_yaml one_key text_cast
       else unordered_map_cast demo_yaml sorted_list_of_set one_key text_cast),
     on_change = (\<lambda>m old now s. (None, Suc s)), yam = demo_yaml\<rparr>"

lemma demo_pairs_throw:
  "pairs_from demo_yaml one_key text_cast ps r = Inl e \<Longrightarrow> \<exists>x. e = Thrown x"
proof (induction demo_yaml one_key text_cast ps r rule: pairs_from.induct)
  case (1 r)
  then show ?case by simp
next
  case (2 k v ps r)
  then show ?case by (auto simp: one_key_def text_cast_def split: if_splits)
qed

definition map_var :: "nat \<Rightarrow> (nat \<Rightarrow> string option, nat) config_var" where
  "map_var t = \<lparr>var_name = ''m'', var_desc = [], var_type = t, var_val = [1 \<mapsto> ''X''],
     monitors = Map.empty\<rparr>"

lemma map_env_tame: "tame map_env"
proof -
  have "from_str (casts map_env t) str = Inl e \<Longrightarrow> \<exists>x. e = Thrown x" for t str e
    by (auto simp: map_env_def map_cast_def unordered_map_cast_def map_from_str_def
        unordered_map_from_str_def res_bind_def dest!: demo_pairs_throw
        split: if_splits ynode.splits list.splits sum.splits)
       (auto simp: demo_yaml_def split: if_splits)
  then have "only_throws (Some e)" if "from_str (casts map_env t) str = Inl e" for t str e
    using that by (fastforce simp: only_throws_def)
  moreover have "only_throws (fst (on_change map_env m old now s))" for m old now s
    by (simp add: map_env_def only_throws_def)
  ultimately show ?thesis unfolding tame_def by blast
qed

theorem scalar_empties_unordered_map_witness:
  "\<exists>w. vars w 1 = Some (map_var 1) \<and> (\<exists>w'. from_string map_env 1 ''X'' w = (None, w') \<and>
     vars w' 1 = Some ((map_var 1)\<lparr>var_val := Map.empty\<rparr>) \<and> vars w' 0 = Some (map_var 0))"
proof -
  define w :: "(nat \<Rightarrow> string option, nat, nat) conf_world" where
    "w = \<lparr>vars = [0 \<mapsto> map_var 0, 1 \<mapsto> map_var 1], configs = Map.empty, next_var = 2,
       next_monitor = (\<lambda>_. 0), outside = 0\<rparr>"
  have "load (yam map_env) ''X'' = Inr (Y_scalar ''X'')"
    by (simp add: map_env_def demo_yaml_def mail_nodes_def newline_def)
  from scalar_empties_unordered_map[OF this map_env_tame, of w 0 "map_var 0" 1 "map_var 1"
      one_key text_cast sorted_list_of_set]
  show ?thesis
    by (intro exI[of _ w]) (auto simp: w_def map_var_def map_env_def put_var_def)
qed

end
