(* ===== verification/Config_Race.thy ===== *)
theory Config_Race
  imports Config "HOL-Library.Multiset"
begin

text \<open>
  Assignments to one configuration variable by several threads (\<^verbatim>\<open>ConfigVar::SetVal\<close>,
  \<^verbatim>\<open>AddMonitor\<close> and \<^verbatim>\<open>RemoveMonitor\<close> of \<^verbatim>\<open>base/config.h\<close>). The mutex of the variable is held while the
  value is compared and replaced and the monitors are copied; the copies are called after it has
  been released. A step is one locked section or one call of a monitor.
\<close>

section \<open>Steps\<close>

text \<open>
  A change is the old value, the new value and the monitors to be told. \<open>announcing\<close> has the
  change each thread is telling the monitors about, with those not told yet; \<open>changes\<close> and
  \<open>announced\<close> are the history of the run.
\<close>

type_synonym ('v, 'm) change = "'v \<times> 'v \<times> 'm list"

record ('v, 'm, 's) conf_race =
  conf :: "('v, 'm, 's) conf_world"
  announcing :: "('v, 'm) change option list"
  changes :: "('v, 'm) change list"
  announced :: "('m \<times> 'v \<times> 'v) list"

datatype ('v, 'm) conf_action = Assign nat 'v | Announce nat | Register nat 'm | Unregister nat u64

definition assign_step ::
  "nat \<Rightarrow> nat \<Rightarrow> 'v \<Rightarrow> ('v, 'm, 's) conf_race \<Rightarrow> ('v, 'm, 's) conf_race res" where
  "assign_step a i val s =
     res_bind (deref (vars (conf s) a)) (\<lambda>v.
     if val = var_val v then Inr s
     else
       (let c = (var_val v, val, get_all_monitor v) in
        Inr (s\<lparr>conf := put_var a (v\<lparr>var_val := val\<rparr>) (conf s),
          announcing := (announcing s)[i := Some c], changes := changes s @ [c]\<rparr>)))"

text \<open>A monitor that throws ends the assignment.\<close>

definition announce_step ::
  "('v, 'm, 's) conf_env \<Rightarrow> nat \<Rightarrow> ('v, 'm) change \<Rightarrow> ('v, 'm, 's) conf_race \<Rightarrow> ('v, 'm, 's) conf_race res" where
  "announce_step E i c s =
     (case c of
        (old, now, []) \<Rightarrow> Inr (s\<lparr>announcing := (announcing s)[i := None]\<rparr>)
      | (old, now, m # ms) \<Rightarrow>
          (case on_change E m old now (outside (conf s)) of
             (None, t) \<Rightarrow>
               Inr (s\<lparr>conf := (conf s)\<lparr>outside := t\<rparr>, announcing := (announcing s)[i := Some (old, now, ms)],
                 announced := announced s @ [(m, old, now)]\<rparr>)
           | (Some (Thrown x), t) \<Rightarrow>
               Inr (s\<lparr>conf := (conf s)\<lparr>outside := t\<rparr>, announcing := (announcing s)[i := None]\<rparr>)
           | (Some e, t) \<Rightarrow> Inl e))"

fun conf_act ::
  "('v, 'm, 's) conf_env \<Rightarrow> nat \<Rightarrow> ('v, 'm) conf_action \<Rightarrow> ('v, 'm, 's) conf_race \<Rightarrow>
   ('v, 'm, 's) conf_race res option" where
  "conf_act E a (Assign i x) s =
     (if i < length (announcing s) \<and> announcing s ! i = None then Some (assign_step a i x s) else None)"
| "conf_act E a (Announce i) s =
     (if i < length (announcing s) then map_option (\<lambda>c. announce_step E i c s) (announcing s ! i) else None)"
| "conf_act E a (Register i m) s =
     (if i < length (announcing s) \<and> announcing s ! i = None
      then Some (res_bind (add_monitor a m (conf s)) (\<lambda>(_, w). Inr (s\<lparr>conf := w\<rparr>))) else None)"
| "conf_act E a (Unregister i mid) s =
     (if i < length (announcing s) \<and> announcing s ! i = None
      then Some (res_bind (remove_monitor a mid (conf s)) (\<lambda>w. Inr (s\<lparr>conf := w\<rparr>))) else None)"

section \<open>What is announced\<close>

text \<open>The changes follow one another, from the first value to the last.\<close>

fun chained :: "'v \<Rightarrow> ('v, 'm) change list \<Rightarrow> 'v \<Rightarrow> bool" where
  "chained x [] y \<longleftrightarrow> x = y"
| "chained x ((old, now, ms) # cs) y \<longleftrightarrow> old = x \<and> now \<noteq> old \<and> chained now cs y"

lemma chained_snoc: "chained x (cs @ [(old, now, ms)]) y \<longleftrightarrow> chained x cs old \<and> now \<noteq> old \<and> y = now"
  by (induction x cs y rule: chained.induct) auto

text \<open>The calls a change owes to the monitors, and those that are still to be made.\<close>

fun owed :: "('v, 'm) change \<Rightarrow> ('m \<times> 'v \<times> 'v) multiset" where
  "owed (old, now, ms) = mset (map (\<lambda>m. (m, old, now)) ms)"

definition still_owed :: "('v, 'm) change option \<Rightarrow> ('m \<times> 'v \<times> 'v) multiset" where
  "still_owed p = (case p of None \<Rightarrow> {#} | Some c \<Rightarrow> owed c)"

definition race_inv :: "nat \<Rightarrow> 'v \<Rightarrow> ('v, 'm, 's) conf_race \<Rightarrow> bool" where
  "race_inv a x s \<longleftrightarrow>
     (\<exists>v. vars (conf s) a = Some v \<and> chained x (changes s) (var_val v)) \<and>
     mset (announced s) + sum_list (map still_owed (announcing s)) = sum_list (map owed (changes s))"

text \<open>Monitors that return.\<close>

definition quiet :: "('v, 'm, 's) conf_env \<Rightarrow> bool" where
  "quiet E \<longleftrightarrow> (\<forall>m old now t. fst (on_change E m old now t) = None)"

text \<open>A step of thread \<open>i\<close> that replaces what it still owes by \<open>p\<close> and makes the calls \<open>d\<close>.\<close>

lemma owed_step:
  assumes "i < length xs" "D + sum_list (map still_owed xs) = T"
    and "d + still_owed p = still_owed (xs ! i) + e"
  shows "(D + d) + sum_list (map still_owed (xs[i := p])) = T + e"
proof -
  have "sum_list (map still_owed (xs[i := p])) + still_owed (xs ! i) = sum_list (map still_owed xs) + still_owed p"
    by (rule sum_list_map_update[OF assms(1)])
  then have "(D + d) + sum_list (map still_owed (xs[i := p])) + still_owed (xs ! i) =
      D + sum_list (map still_owed xs) + (d + still_owed p)"
    by (simp add: ac_simps)
  also have "\<dots> = (T + e) + still_owed (xs ! i)"
    unfolding assms(2,3) by (simp add: ac_simps)
  finally show ?thesis by simp
qed

lemma assign_step_inv:
  assumes "race_inv a x s" "i < length (announcing s)" "announcing s ! i = None"
  shows "\<exists>t. assign_step a i val s = Inr t \<and> race_inv a x t"
proof -
  from assms(1) obtain v where v: "vars (conf s) a = Some v" "chained x (changes s) (var_val v)"
    and o: "mset (announced s) + sum_list (map still_owed (announcing s)) = sum_list (map owed (changes s))"
    by (auto simp: race_inv_def)
  show ?thesis
  proof (cases "val = var_val v")
    case True
    with v(1) assms(1) show ?thesis by (simp add: assign_step_def)
  next
    case False
    let ?c = "(var_val v, val, get_all_monitor v)"
    from owed_step[OF assms(2) o, of "{#}" "Some ?c" "owed ?c"] assms(3)
    have "mset (announced s) + sum_list (map still_owed ((announcing s)[i := Some ?c])) =
        sum_list (map owed (changes s)) + owed ?c"
      by (simp add: still_owed_def)
    with v False show ?thesis
      by (auto simp: assign_step_def race_inv_def put_var_def chained_snoc Let_def)
  qed
qed

lemma announce_step_inv:
  assumes "quiet E" "race_inv a x s" "i < length (announcing s)" "announcing s ! i = Some c"
  shows "\<exists>t. announce_step E i c s = Inr t \<and> race_inv a x t"
proof -
  obtain old now ms where c: "c = (old, now, ms)" by (cases c)
  from assms(2) have w: "\<exists>v. vars (conf s) a = Some v \<and> chained x (changes s) (var_val v)"
    and o: "mset (announced s) + sum_list (map still_owed (announcing s)) = sum_list (map owed (changes s))"
    by (auto simp: race_inv_def)
  show ?thesis
  proof (cases ms)
    case Nil
    from owed_step[OF assms(3) o, of "{#}" None "{#}"] assms(4) c Nil w show ?thesis
      by (auto simp: announce_step_def race_inv_def still_owed_def)
  next
    case (Cons m ns)
    obtain t where t: "on_change E m old now (outside (conf s)) = (None, t)"
      using assms(1) by (metis quiet_def prod.collapse)
    from owed_step[OF assms(3) o, of "{#(m, old, now)#}" "Some (old, now, ns)" "{#}"] assms(4) c Cons w t
    show ?thesis
      by (auto simp: announce_step_def race_inv_def still_owed_def)
  qed
qed

lemma register_inv:
  assumes "race_inv a x s"
  shows "\<exists>mid w. add_monitor a m (conf s) = Inr (mid, w) \<and> race_inv a x (s\<lparr>conf := w\<rparr>)"
    and "\<exists>w. remove_monitor a mid (conf s) = Inr w \<and> race_inv a x (s\<lparr>conf := w\<rparr>)"
  using assms by (auto simp: race_inv_def add_monitor_def remove_monitor_def put_var_def Let_def)

lemma conf_act_inv:
  assumes q: "quiet E" and i: "race_inv a x s" and r: "conf_act E a act s = Some r"
  shows "\<exists>t. r = Inr t \<and> race_inv a x t"
proof (cases act)
  case (Assign i val)
  with r show ?thesis using assign_step_inv[OF assms(2)] by (auto split: if_splits)
next
  case (Announce i)
  with r show ?thesis using announce_step_inv[OF q i] by (auto split: if_splits)
next
  case (Register i m)
  with r register_inv(1)[OF i, of m] show ?thesis by (auto split: if_splits)
next
  case (Unregister i mid)
  with r register_inv(2)[OF i, of mid] show ?thesis by (auto split: if_splits)
qed


interpretation conf_threads: guarded_interleaving "conf_act E a" "race_inv a x" "\<lambda>_ _. quiet E" for E a x
  by unfold_locales (rule conf_act_inv)

section \<open>An assignment that is not interrupted\<close>

lemma announce_alone:
  assumes q: "quiet E"
  shows "i < length (announcing s) \<Longrightarrow> announcing s ! i = Some (old, now, ms) \<Longrightarrow>
    \<exists>t. interleave (conf_act E a) (replicate (Suc (length ms)) (Announce i)) s = Some (Inr t) \<and>
      run_monitors (on_change E) ms old now (outside (conf s)) = (None, outside (conf t)) \<and>
      conf t = (conf s)\<lparr>outside := outside (conf t)\<rparr> \<and> announcing t = (announcing s)[i := None]"
proof (induction ms arbitrary: s)
  case Nil
  then show ?case by (simp add: announce_step_def)
next
  case (Cons m ms)
  obtain u where u: "on_change E m old now (outside (conf s)) = (None, u)"
    using q by (metis quiet_def prod.collapse)
  define s1 where "s1 = s\<lparr>conf := (conf s)\<lparr>outside := u\<rparr>, announcing := (announcing s)[i := Some (old, now, ms)],
    announced := announced s @ [(m, old, now)]\<rparr>"
  have one: "conf_act E a (Announce i) s = Some (Inr s1)"
    using Cons.prems u by (simp add: announce_step_def s1_def)
  have "i < length (announcing s1)" "announcing s1 ! i = Some (old, now, ms)"
    using Cons.prems(1) by (simp_all add: s1_def)
  from Cons.IH[OF this] obtain t where
    t: "interleave (conf_act E a) (replicate (Suc (length ms)) (Announce i)) s1 = Some (Inr t)"
    "run_monitors (on_change E) ms old now u = (None, outside (conf t))"
    "conf t = (conf s)\<lparr>outside := outside (conf t)\<rparr>" "announcing t = (announcing s)[i := None]"
    by (auto simp: s1_def)
  have "interleave (conf_act E a) (replicate (Suc (length (m # ms))) (Announce i)) s = Some (Inr t)"
    using one t(1) by (simp del: conf_act.simps)
  with t(2-4) u show ?case by (intro exI[of _ t]) simp
qed

section \<open>Properties\<close>

text \<open>A variable that no thread is assigning, seen from the start of a run of \<open>n\<close> threads.\<close>

definition at_rest :: "nat \<Rightarrow> ('v, 'm, 's) conf_world \<Rightarrow> ('v, 'm, 's) conf_race" where
  "at_rest n w = \<lparr>conf = w, announcing = replicate n None, changes = [], announced = []\<rparr>"


text \<open>
  An assignment that no other thread interrupts does what the sequential model says: it takes
  finitely many steps and leaves the variable, its monitors and the outside world as \<open>set_val\<close> does.
\<close>

theorem uninterrupted_set_val:
  assumes "quiet E" "vars (conf s) a = Some v" "i < length (announcing s)" "announcing s ! i = None"
  shows "\<exists>n t. interleave (conf_act E a) (Assign i x # replicate n (Announce i)) s = Some (Inr t) \<and>
    set_val E a x (conf s) = (None, conf t) \<and> announcing t = announcing s"
proof (cases "x = var_val v")
  case True
  with assms show ?thesis by (intro exI[of _ 0]) (simp add: assign_step_def set_val_def)
next
  case False
  define s1 where "s1 = s\<lparr>conf := put_var a (v\<lparr>var_val := x\<rparr>) (conf s),
    announcing := (announcing s)[i := Some (var_val v, x, get_all_monitor v)],
    changes := changes s @ [(var_val v, x, get_all_monitor v)]\<rparr>"
  have one: "conf_act E a (Assign i x) s = Some (Inr s1)"
    using assms(2-4) False by (simp add: assign_step_def Let_def s1_def)
  have "i < length (announcing s1)" "announcing s1 ! i = Some (var_val v, x, get_all_monitor v)"
    using assms(3) by (simp_all add: s1_def)
  from announce_alone[OF assms(1) this, of a] obtain t where
    t: "interleave (conf_act E a) (replicate (Suc (length (get_all_monitor v))) (Announce i)) s1 = Some (Inr t)"
    "run_monitors (on_change E) (get_all_monitor v) (var_val v) x (outside (conf s1)) = (None, outside (conf t))"
    "conf t = (conf s1)\<lparr>outside := outside (conf t)\<rparr>" "announcing t = (announcing s1)[i := None]"
    by blast
  have "announcing t = announcing s"
    using t(4) assms(4) by (simp add: s1_def) (metis list_update_id)
  moreover have "set_val E a x (conf s) = (None, conf t)"
    using assms(2) False t(2,3) by (simp add: set_val_def s1_def Let_def put_var_def)
  ultimately show ?thesis
    using one t(1) by (intro exI[of _ "Suc (length (get_all_monitor v))"] exI[of _ t]) (simp del: conf_act.simps)
qed

text \<open>A number that is 0 at first, and a monitor that stores the value it is told.\<close>

definition mirror_env :: "(nat, unit, nat) conf_env" where
  "mirror_env = \<lparr>casts = (\<lambda>_. \<lparr>from_str = (\<lambda>_. Inr 0), to_str = (\<lambda>_. Inr [])\<rparr>),
     on_change = (\<lambda>_ _ now _. (None, now)), yam = yam demo_env\<rparr>"

definition mirrored :: "(nat, unit, nat) conf_world" where
  "mirrored = put_var 0 \<lparr>var_name = ''n'', var_desc = [], var_type = 0, var_val = 0, monitors = [0 \<mapsto> ()]\<rparr>
     (empty_conf 0)"

definition crossed :: "(nat, unit) conf_action list" where
  "crossed = [Assign 0 1, Assign 1 2, Announce 1, Announce 0, Announce 0, Announce 1]"

text \<open>
  Two threads that assign a variable one after the other can tell its monitor in the opposite
  order: the variable ends with the value 2, and the monitor has last been told that it is now 1.
\<close>

theorem announcements_out_of_order:
  "\<exists>t v. interleave (conf_act mirror_env 0)
      crossed (at_rest 2 mirrored) = Some (Inr t) \<and>
    announcing t = [None, None] \<and> vars (conf t) 0 = Some v \<and> var_val v = 2 \<and>
    announced t = [((), 1, 2), ((), 0, 1)] \<and> outside (conf t) = 1"
  by (simp add: crossed_def at_rest_def mirrored_def mirror_env_def put_var_def empty_conf_def assign_step_def Let_def
      announce_step_def get_all_monitor_def numeral_2_eq_2)


theorem uninterrupted_set_val_witness:
  "\<exists>n t. interleave (conf_act mirror_env 0) (Assign 1 5 # replicate n (Announce 1)) (at_rest 2 mirrored) =
      Some (Inr t) \<and> outside (conf t) = 5"
proof -
  have q: "quiet mirror_env" by (simp add: quiet_def mirror_env_def)
  have v: "vars mirrored 0 = Some \<lparr>var_name = ''n'', var_desc = [], var_type = 0, var_val = 0,
      monitors = [0 \<mapsto> ()]\<rparr>"
    by (simp add: mirrored_def put_var_def)
  have "outside (snd (set_val mirror_env 0 5 mirrored)) = 5"
    by (simp add: set_val_def v Let_def get_all_monitor_def mirror_env_def)
  with uninterrupted_set_val[OF q, of "at_rest 2 mirrored" 0 _ 1 5] v show ?thesis
    by (fastforce simp: at_rest_def simp del: interleave.simps)
qed

end
