(* ===== verification/Log_Format.thy ===== *)
theory Log_Format
  imports Prelude "HOL-Library.Char_ord"
begin

text \<open>
  Log levels and the log formatter (\<^verbatim>\<open>base/log.h\<close>, \<^verbatim>\<open>base/log.cpp\<close>): the pattern is read by
  the table-driven machine of \<^verbatim>\<open>LogFormatter::Init\<close> into formatter items, which \<^verbatim>\<open>Format\<close>
  applies to an event. \<open>parse\<close> is the grammar of patterns the machine implements. Calendar
  formatting (\<^verbatim>\<open>localtime_r\<close> and \<^verbatim>\<open>std::put_time\<close>) is a parameter.
\<close>

section \<open>Levels\<close>

datatype level = kUnKnown | kDebug | kInfo | kWarn | kError | kFatal

fun level_num :: "level \<Rightarrow> nat" where
  "level_num kUnKnown = 0"
| "level_num kDebug = 1"
| "level_num kInfo = 2"
| "level_num kWarn = 3"
| "level_num kError = 4"
| "level_num kFatal = 5"

lemma level_num_inject [simp]: "level_num a = level_num b \<longleftrightarrow> a = b"
  by (cases a; cases b) simp_all

instantiation level :: linorder
begin

definition less_eq_level :: "level \<Rightarrow> level \<Rightarrow> bool" where
  "less_eq_level a b \<longleftrightarrow> level_num a \<le> level_num b"

definition less_level :: "level \<Rightarrow> level \<Rightarrow> bool" where
  "less_level a b \<longleftrightarrow> level_num a < level_num b"

instance
proof
  fix a b :: level
  show "a \<le> b \<Longrightarrow> b \<le> a \<Longrightarrow> a = b" by (simp add: less_eq_level_def)
qed (auto simp: less_eq_level_def less_level_def)

end

lemma level_bot [simp]: "kUnKnown \<le> l"
  by (simp add: less_eq_level_def)

definition level_to_string :: "level \<Rightarrow> string" where
  "level_to_string l =
     (case l of
        kDebug \<Rightarrow> ''DEBUG''
      | kInfo \<Rightarrow> ''INFO''
      | kWarn \<Rightarrow> ''WARN''
      | kError \<Rightarrow> ''ERROR''
      | kFatal \<Rightarrow> ''FATAL''
      | _ \<Rightarrow> ''UNKNOWN'')"

definition level_from_string :: "string \<Rightarrow> level" where
  "level_from_string s =
     (if s = ''DEBUG'' then kDebug
      else if s = ''INFO'' then kInfo
      else if s = ''WARN'' then kWarn
      else if s = ''ERROR'' then kError
      else if s = ''FATAL'' then kFatal
      else kUnKnown)"

lemma level_roundtrip: "level_from_string (level_to_string l) = l"
  by (cases l) (simp_all add: level_to_string_def level_from_string_def)

section \<open>Formatter items\<close>

datatype item =
    Msg_item | Text_item string | DateTime_item string | NewLine_item | LineNum_item | Tab_item
  | FileName_item | ThreadId_item | LoggerName_item | Level_item | RoutineId_item

type_synonym formatter = "item list"

text \<open>\<^verbatim>\<open>s_formatter_item_set\<close>.\<close>

definition item_set :: "char \<Rightarrow> item option" where
  "item_set c =
     (if c = CHR ''m'' then Some Msg_item
      else if c = CHR ''c'' then Some LoggerName_item
      else if c = CHR ''L'' then Some Level_item
      else if c = CHR ''l'' then Some LineNum_item
      else if c = CHR ''t'' then Some Tab_item
      else if c = CHR ''n'' then Some NewLine_item
      else if c = CHR ''f'' then Some FileName_item
      else if c = CHR ''T'' then Some ThreadId_item
      else if c = CHR ''R'' then Some RoutineId_item
      else if c = CHR ''%'' then Some (Text_item ''%'')
      else None)"

section \<open>The machine of LogFormatter::Init\<close>

datatype fevent = kPercent | kAlphaD | kBrace | kBackBrace | kOther

datatype fstate =
    kStart | kTextBegin | kTextKeep | kPercentAfterText | kSinglePercent | kTryAddItem
  | kDoublePercent | kWaitBrace | kTimeFormatBegin | kTimeFormatKeep | kTimeFormatEnd | kInvalid

definition get_event :: "char \<Rightarrow> fevent" where
  "get_event c =
     (if c = CHR ''%'' then kPercent
      else if c = CHR ''d'' then kAlphaD
      else if c = CHR ''{'' then kBrace
      else if c = CHR ''}'' then kBackBrace
      else kOther)"

text \<open>The rows of \<^verbatim>\<open>transform_table\<close>; rows that are equal in the code share a definition.\<close>

fun text_row :: "fevent \<Rightarrow> fstate" where
  "text_row kPercent = kSinglePercent"
| "text_row _ = kTextBegin"

fun keep_row :: "fevent \<Rightarrow> fstate" where
  "keep_row kPercent = kPercentAfterText"
| "keep_row _ = kTextKeep"

fun percent_row :: "fevent \<Rightarrow> fstate" where
  "percent_row kPercent = kDoublePercent"
| "percent_row kAlphaD = kWaitBrace"
| "percent_row kBrace = kInvalid"
| "percent_row kBackBrace = kInvalid"
| "percent_row kOther = kTryAddItem"

fun time_row :: "fevent \<Rightarrow> fstate" where
  "time_row kBackBrace = kTimeFormatEnd"
| "time_row _ = kTimeFormatKeep"

fun transform_table :: "fstate \<Rightarrow> fevent \<Rightarrow> fstate" where
  "transform_table kStart e = text_row e"
| "transform_table kTextBegin e = keep_row e"
| "transform_table kTextKeep e = keep_row e"
| "transform_table kPercentAfterText e = percent_row e"
| "transform_table kSinglePercent e = percent_row e"
| "transform_table kTryAddItem e = text_row e"
| "transform_table kDoublePercent e = text_row e"
| "transform_table kWaitBrace e = (if e = kBrace then kTimeFormatBegin else kInvalid)"
| "transform_table kTimeFormatBegin e = time_row e"
| "transform_table kTimeFormatKeep e = time_row e"
| "transform_table kTimeFormatEnd e = text_row e"
| "transform_table kInvalid e = kInvalid"

record finit =
  current_state :: fstate
  range_first :: nat
  range_second :: nat
  items :: "item list"

text \<open>\<^verbatim>\<open>std::string::substr(pos, n)\<close> for \<open>pos\<close> inside the string.\<close>

definition substr :: "nat \<Rightarrow> nat \<Rightarrow> string \<Rightarrow> string" where
  "substr pos n s = take n (drop pos s)"

definition add_item :: "item \<Rightarrow> finit \<Rightarrow> finit" where
  "add_item it st = st\<lparr>items := items st @ [it]\<rparr>"

text \<open>The handlers, each of which appends at most one item.\<close>

definition handle_double_percent :: "finit \<Rightarrow> finit res" where
  "handle_double_percent st = res_bind (deref (item_set (CHR ''%''))) (\<lambda>it. Inr (add_item it st))"

definition handle_percent_after_text :: "string \<Rightarrow> nat \<Rightarrow> nat \<Rightarrow> finit \<Rightarrow> finit" where
  "handle_percent_after_text pattern i j st =
     add_item (Text_item (substr i (j - i) pattern)) st"

definition handle_ending_with_text :: "string \<Rightarrow> nat \<Rightarrow> finit \<Rightarrow> finit" where
  "handle_ending_with_text pattern i st = add_item (Text_item (drop i pattern)) st"

definition handle_try_add_item :: "char \<Rightarrow> finit \<Rightarrow> bool \<times> finit" where
  "handle_try_add_item c st =
     (case item_set c of
        Some it \<Rightarrow> (True, add_item it st)
      | None \<Rightarrow> (False, st))"

definition handle_time_format_end :: "string \<Rightarrow> nat \<Rightarrow> nat \<Rightarrow> finit \<Rightarrow> finit" where
  "handle_time_format_end pattern i j st =
     add_item (DateTime_item (substr (i + 1) (j - i - 1) pattern)) st"

lemmas handler_defs = handle_double_percent_def handle_percent_after_text_def
  handle_ending_with_text_def handle_try_add_item_def handle_time_format_end_def

text \<open>
  One iteration of the loop: the transition on \<open>pattern ! i\<close> and its action. The error that is
  logged for an unknown item is left out.
\<close>

definition finit_step :: "string \<Rightarrow> nat \<Rightarrow> finit \<Rightarrow> finit res" where
  "finit_step pattern i st0 =
     (let st = st0\<lparr>current_state :=
        transform_table (current_state st0) (get_event (pattern ! i))\<rparr> in
      case current_state st of
        kTextBegin \<Rightarrow> Inr (st\<lparr>range_first := i\<rparr>)
      | kTimeFormatBegin \<Rightarrow> Inr (st\<lparr>range_first := i\<rparr>)
      | kPercentAfterText \<Rightarrow>
          Inr ((handle_percent_after_text pattern (range_first st) i st)\<lparr>range_first := 0, range_second := 0\<rparr>)
      | kTryAddItem \<Rightarrow> Inr (snd (handle_try_add_item (pattern ! i) st))
      | kDoublePercent \<Rightarrow> handle_double_percent st
      | kTimeFormatEnd \<Rightarrow>
          Inr ((handle_time_format_end pattern (range_first st) i st)\<lparr>range_first := 0, range_second := 0\<rparr>)
      | kInvalid \<Rightarrow> Inl (Thrown Invalid_argument)
      | _ \<Rightarrow> Inr st)"

function finit_loop :: "string \<Rightarrow> nat \<Rightarrow> finit \<Rightarrow> finit res" where
  "finit_loop pattern i st =
     (if i < length pattern
      then res_bind (finit_step pattern i st) (finit_loop pattern (i + 1))
      else Inr st)"
  by pat_completeness auto
termination by (relation "measure (\<lambda>(pattern, i, _). length pattern - i)") auto

declare finit_loop.simps [simp del]

definition finit_end :: "string \<Rightarrow> finit \<Rightarrow> formatter res" where
  "finit_end pattern st =
     (if current_state st = kTextBegin \<or> current_state st = kTextKeep then
        Inr (items (handle_ending_with_text pattern (range_first st) st))
      else if current_state st \<in> {kPercentAfterText, kSinglePercent, kWaitBrace,
          kTimeFormatBegin, kTimeFormatKeep} then
        Inl (Thrown Invalid_argument)
      else Inr (items st))"

definition new_formatter :: "string \<Rightarrow> formatter res" where
  "new_formatter pattern =
     res_bind (finit_loop pattern 0
       \<lparr>current_state = kStart, range_first = 0, range_second = 0, items = []\<rparr>)
       (finit_end pattern)"

section \<open>Formatting an event\<close>

record log_event =
  trigger :: "nat option"
  message :: string
  time :: int
  line_num :: u32
  file_name :: "string option"
  thread_id :: int
  routine_id :: u64
  ev_level :: level

text \<open>\<^verbatim>\<open>std::to_string\<close>.\<close>

fun nat_to_string :: "nat \<Rightarrow> string" where
  "nat_to_string n =
     (if n < 10 then [char_of (48 + n)] else nat_to_string (n div 10) @ [char_of (48 + n mod 10)])"

declare nat_to_string.simps [simp del]

definition int_to_string :: "int \<Rightarrow> string" where
  "int_to_string i = (if i < 0 then ''-'' @ nat_to_string (nat (- i)) else nat_to_string (nat i))"

text \<open>
  \<open>put_time fmt t\<close> is the local time \<open>t\<close> in the format \<open>fmt\<close>, \<open>None\<close> when \<^verbatim>\<open>localtime_r\<close>
  fails; \<open>name_of\<close> reads the name of the logger that triggered the event.
\<close>

fun do_format ::
  "(string \<Rightarrow> int \<Rightarrow> string option) \<Rightarrow> (nat \<Rightarrow> string) \<Rightarrow> log_event \<Rightarrow> item \<Rightarrow> string res" where
  "do_format put_time name_of e Msg_item = Inr (message e)"
| "do_format put_time name_of e (Text_item s) = Inr s"
| "do_format put_time name_of e (DateTime_item fmt) =
     Inr (case put_time fmt (time e) of None \<Rightarrow> ''error time'' | Some s \<Rightarrow> s)"
| "do_format put_time name_of e NewLine_item = Inr [char_of (13 :: nat), char_of (10 :: nat)]"
| "do_format put_time name_of e LineNum_item = Inr (nat_to_string (unat (line_num e)))"
| "do_format put_time name_of e Tab_item = Inr [char_of (9 :: nat)]"
| "do_format put_time name_of e FileName_item =
     (case file_name e of None \<Rightarrow> Inl Assert_failed | Some f \<Rightarrow> Inr f)"
| "do_format put_time name_of e ThreadId_item = Inr (int_to_string (thread_id e))"
| "do_format put_time name_of e LoggerName_item =
     (case trigger e of None \<Rightarrow> Inl Assert_failed | Some l \<Rightarrow> Inr (name_of l))"
| "do_format put_time name_of e Level_item = Inr (level_to_string (ev_level e))"
| "do_format put_time name_of e RoutineId_item = Inr (nat_to_string (unat (routine_id e)))"

fun format_event ::
  "(string \<Rightarrow> int \<Rightarrow> string option) \<Rightarrow> (nat \<Rightarrow> string) \<Rightarrow> log_event \<Rightarrow> formatter \<Rightarrow> string res" where
  "format_event put_time name_of e [] = Inr []"
| "format_event put_time name_of e (it # its) =
     res_bind (do_format put_time name_of e it) (\<lambda>s.
     res_bind (format_event put_time name_of e its) (\<lambda>r. Inr (s @ r)))"

section \<open>The grammar of patterns\<close>

text \<open>
  A pattern is a sequence of texts without \<^verbatim>\<open>%\<close>, \<^verbatim>\<open>%%\<close>, \<^verbatim>\<open>%d{...}\<close> and \<^verbatim>\<open>%c\<close> with another
  character, which is ignored if it names no item.
\<close>

lemma dropWhile_shorter [termination_simp]:
  "length (dropWhile P xs) < Suc (length xs)"
  "dropWhile P xs = y # ys \<Longrightarrow> length ys < Suc (Suc (Suc (length xs)))"
  using length_dropWhile_le[of P xs] by (auto simp: less_Suc_eq_le)

fun parse :: "string \<Rightarrow> item list option" where
  "parse [] = Some []"
| "parse (c # cs) =
     (if c \<noteq> CHR ''%'' then
        (let text = c # takeWhile (\<lambda>x. x \<noteq> CHR ''%'') cs
         in map_option ((#) (Text_item text)) (parse (dropWhile (\<lambda>x. x \<noteq> CHR ''%'') cs)))
      else
        (case cs of
           [] \<Rightarrow> None
         | d # ds \<Rightarrow>
             if d = CHR ''%'' then map_option ((#) (Text_item ''%'')) (parse ds)
             else if d = CHR ''{'' \<or> d = CHR ''}'' then None
             else if d = CHR ''d'' then
               (case ds of
                  [] \<Rightarrow> None
                | b # bs \<Rightarrow>
                    if b \<noteq> CHR ''{'' then None
                    else
                      (case dropWhile (\<lambda>x. x \<noteq> CHR ''}'') bs of
                         [] \<Rightarrow> None
                       | _ # rest \<Rightarrow>
                           map_option ((#) (DateTime_item (takeWhile (\<lambda>x. x \<noteq> CHR ''}'') bs)))
                             (parse rest)))
             else
               (case item_set d of
                  Some it \<Rightarrow> map_option ((#) it) (parse ds)
                | None \<Rightarrow> parse ds)))"

declare parse.simps [simp del]

lemma parse_text:
  "c \<noteq> CHR ''%'' \<Longrightarrow> parse (c # cs) =
     map_option ((#) (Text_item (c # takeWhile (\<lambda>x. x \<noteq> CHR ''%'') cs)))
       (parse (dropWhile (\<lambda>x. x \<noteq> CHR ''%'') cs))"
  by (simp add: parse.simps(2) Let_def)

section \<open>The machine implements the grammar\<close>

definition run_from :: "string \<Rightarrow> nat \<Rightarrow> finit \<Rightarrow> formatter res" where
  "run_from p i st = res_bind (finit_loop p i st) (finit_end p)"

lemma run_from_end: "length p \<le> i \<Longrightarrow> run_from p i st = finit_end p st"
  by (simp add: run_from_def finit_loop.simps)

lemma run_from_step:
  "i < length p \<Longrightarrow> run_from p i st = res_bind (finit_step p i st) (run_from p (Suc i))"
  by (simp add: run_from_def[abs_def] finit_loop.simps[of p i] res_bind_assoc)

lemma run_from_start: "new_formatter p = run_from p 0
    \<lparr>current_state = kStart, range_first = 0, range_second = 0, items = []\<rparr>"
  by (simp add: new_formatter_def run_from_def)

lemma take_takeWhile: "take (length (takeWhile P xs)) xs = takeWhile P xs"
  by (induction xs) auto

lemma drop_takeWhile: "drop (length (takeWhile P xs)) xs = dropWhile P xs"
  by (induction xs) auto

lemma drop_nth_Cons: "i < length p \<Longrightarrow> drop i p = p ! i # drop (Suc i) p"
  by (rule Cons_nth_drop_Suc[symmetric])

text \<open>A text is read up to the next percent sign or the end.\<close>

lemma run_text:
  assumes "current_state st \<in> {kTextBegin, kTextKeep}" "i \<le> length p"
    and "n = length (takeWhile (\<lambda>x. x \<noteq> CHR ''%'') (drop i p))"
  shows "run_from p i st =
    (if i + n = length p then Inr (items st @ [Text_item (drop (range_first st) p)])
     else run_from p (Suc (i + n)) (st\<lparr>current_state := kPercentAfterText, range_first := 0,
       range_second := 0,
       items := items st @ [Text_item (substr (range_first st) (i + n - range_first st) p)]\<rparr>))"
  using assms
proof (induction "length p - i" arbitrary: i st n)
  case 0
  then have "i = length p" by simp
  with 0 show ?case by (auto simp: run_from_end finit_end_def handler_defs add_item_def)
next
  case (Suc m)
  then have i: "i < length p" by simp
  note d = drop_nth_Cons[OF i]
  show ?case
  proof (cases "p ! i = CHR ''%''")
    case True
    with Suc.prems(3) have n: "n = 0" by (simp add: d)
    have "finit_step p i st = Inr (st\<lparr>current_state := kPercentAfterText, range_first := 0,
       range_second := 0,
       items := items st @ [Text_item (substr (range_first st) (i - range_first st) p)]\<rparr>)"
      using True Suc.prems(1) by (auto simp: finit_step_def handler_defs get_event_def Let_def add_item_def)
    with i n show ?thesis by (simp add: run_from_step)
  next
    case False
    then have ev: "get_event (p ! i) \<noteq> kPercent" by (simp add: get_event_def)
    have step: "finit_step p i st = Inr (st\<lparr>current_state := kTextKeep\<rparr>)"
      using ev Suc.prems(1)
      by (cases "get_event (p ! i)") (auto simp: finit_step_def handler_defs Let_def)
    define n' where "n' = length (takeWhile (\<lambda>x. x \<noteq> CHR ''%'') (drop (Suc i) p))"
    have n: "n = Suc n'" using Suc.prems(3) False by (simp add: d n'_def)
    have "m = length p - Suc i" using Suc.hyps(2) by simp
    from Suc.hyps(1)[OF this _ _ n'_def, of "st\<lparr>current_state := kTextKeep\<rparr>"] i step n
    show ?thesis by (simp add: run_from_step)
  qed
qed

text \<open>A time format is read up to the next closing brace.\<close>

lemma run_time:
  assumes "current_state st \<in> {kTimeFormatBegin, kTimeFormatKeep}" "i \<le> length p"
    and "n = length (takeWhile (\<lambda>x. x \<noteq> CHR ''}'') (drop i p))"
  shows "run_from p i st =
    (if i + n = length p then Inl (Thrown Invalid_argument)
     else run_from p (Suc (i + n)) (st\<lparr>current_state := kTimeFormatEnd, range_first := 0,
       range_second := 0, items := items st @
         [DateTime_item (substr (range_first st + 1) (i + n - range_first st - 1) p)]\<rparr>))"
  using assms
proof (induction "length p - i" arbitrary: i st n)
  case 0
  then have "i = length p" by simp
  with 0 show ?case by (auto simp: run_from_end finit_end_def handler_defs)
next
  case (Suc m)
  then have i: "i < length p" by simp
  note d = drop_nth_Cons[OF i]
  show ?case
  proof (cases "p ! i = CHR ''}''")
    case True
    with Suc.prems(3) have n: "n = 0" by (simp add: d)
    have "finit_step p i st = Inr (st\<lparr>current_state := kTimeFormatEnd, range_first := 0,
       range_second := 0, items := items st @
         [DateTime_item (substr (range_first st + 1) (i - range_first st - 1) p)]\<rparr>)"
      using True Suc.prems(1) by (auto simp: finit_step_def handler_defs get_event_def Let_def add_item_def)
    with i n show ?thesis by (simp add: run_from_step)
  next
    case False
    then have ev: "get_event (p ! i) \<noteq> kBackBrace" by (simp add: get_event_def)
    have step: "finit_step p i st = Inr (st\<lparr>current_state := kTimeFormatKeep\<rparr>)"
      using ev Suc.prems(1)
      by (cases "get_event (p ! i)") (auto simp: finit_step_def handler_defs Let_def)
    define n' where "n' = length (takeWhile (\<lambda>x. x \<noteq> CHR ''}'') (drop (Suc i) p))"
    have n: "n = Suc n'" using Suc.prems(3) False by (simp add: d n'_def)
    have "m = length p - Suc i" using Suc.hyps(2) by simp
    from Suc.hyps(1)[OF this _ _ n'_def, of "st\<lparr>current_state := kTimeFormatKeep\<rparr>"] i step n
    show ?thesis by (simp add: run_from_step)
  qed
qed

definition outcome :: "item list \<Rightarrow> item list option \<Rightarrow> formatter res" where
  "outcome xs r = (case r of None \<Rightarrow> Inl (Thrown Invalid_argument) | Some ys \<Rightarrow> Inr (xs @ ys))"

lemma outcome_simps [simp]:
  "outcome xs None = Inl (Thrown Invalid_argument)" "outcome xs (Some ys) = Inr (xs @ ys)"
  "outcome xs (map_option ((#) y) r) = outcome (xs @ [y]) r"
  by (simp_all add: outcome_def split: option.split)

abbreviation boundary :: "fstate set" where
  "boundary \<equiv> {kStart, kTryAddItem, kDoublePercent, kTimeFormatEnd}"

abbreviation after_percent :: "fstate set" where
  "after_percent \<equiv> {kSinglePercent, kPercentAfterText}"

lemma drop_drop_takeWhile:
  "drop (i + length (takeWhile P (drop i p))) p = dropWhile P (drop i p)"
proof -
  have "drop (i + length (takeWhile P (drop i p))) p = drop (length (takeWhile P (drop i p))) (drop i p)"
    by (simp add: add.commute)
  then show ?thesis by (simp only: drop_takeWhile)
qed

lemma dropWhile_hd: "dropWhile (\<lambda>x. x \<noteq> c) xs = y # ys \<Longrightarrow> y = c"
  using hd_dropWhile[of "\<lambda>x. x \<noteq> c" xs] by simp

text \<open>The end of a run of characters is the end of the string, or its stop character.\<close>

lemma run_stop:
  assumes "i \<le> length p" "n = length (takeWhile (\<lambda>x. x \<noteq> c) (drop i p))"
  shows "dropWhile (\<lambda>x. x \<noteq> c) (drop i p) = (if i + n = length p then [] else c # drop (Suc (i + n)) p)"
    and "i + n \<le> length p"
proof -
  have d: "drop (i + n) p = dropWhile (\<lambda>x. x \<noteq> c) (drop i p)"
    using assms(2) drop_drop_takeWhile by metis
  have "n \<le> length (drop i p)" unfolding assms(2) by (rule length_takeWhile_le)
  with assms(1) show le: "i + n \<le> length p" by simp
  show "dropWhile (\<lambda>x. x \<noteq> c) (drop i p) = (if i + n = length p then [] else c # drop (Suc (i + n)) p)"
  proof (cases "i + n = length p")
    case True
    with d show ?thesis by simp
  next
    case False
    with le have "drop (i + n) p = p ! (i + n) # drop (Suc (i + n)) p" by (intro drop_nth_Cons) simp
    with d have e: "dropWhile (\<lambda>x. x \<noteq> c) (drop i p) = p ! (i + n) # drop (Suc (i + n)) p"
      by (rule trans[OF sym])
    show ?thesis unfolding e using dropWhile_hd[OF e] False by simp
  qed
qed

lemma run_parse:
  "i \<le> length p \<Longrightarrow>
   (current_state st \<in> boundary \<longrightarrow> run_from p i st = outcome (items st) (parse (drop i p))) \<and>
   (current_state st \<in> after_percent \<longrightarrow>
      run_from p i st = outcome (items st) (parse (CHR ''%'' # drop i p)))"
proof (induction "length p - i" arbitrary: i st rule: less_induct)
  case less
  have IH1: "run_from p j st' = outcome (items st') (parse (drop j p))"
    if "i < j" "j \<le> length p" "current_state st' \<in> boundary" for j st'
    using less.hyps[of j st'] that less.prems by auto
  have IH2: "run_from p j st' = outcome (items st') (parse (CHR ''%'' # drop j p))"
    if "i < j" "j \<le> length p" "current_state st' \<in> after_percent" for j st'
    using less.hyps[of j st'] that less.prems by auto
  show ?case
  proof (cases "i = length p")
    case True
    then show ?thesis by (auto simp: run_from_end finit_end_def handler_defs parse.simps)
  next
    case False
    with less.prems have i: "i < length p" by simp
    note d = drop_nth_Cons[OF i] and step = run_from_step[OF i]
    have one: "run_from p i st = outcome (items st) (parse (drop i p))"
      if b: "current_state st \<in> boundary"
    proof (cases "p ! i = CHR ''%''")
      case True
      then have "finit_step p i st = Inr (st\<lparr>current_state := kSinglePercent\<rparr>)"
        using b by (auto simp: finit_step_def handler_defs get_event_def Let_def)
      with True i show ?thesis by (simp add: step IH2 d)
    next
      case False
      then have "get_event (p ! i) \<noteq> kPercent" by (simp add: get_event_def)
      then have s: "finit_step p i st = Inr (st\<lparr>current_state := kTextBegin, range_first := i\<rparr>)"
        using b by (cases "get_event (p ! i)") (auto simp: finit_step_def handler_defs Let_def)
      define n where "n = length (takeWhile (\<lambda>x. x \<noteq> CHR ''%'') (drop (Suc i) p))"
      note stop = run_stop[OF Suc_leI[OF i] n_def]
      have sub: "substr i (Suc n) p = p ! i # takeWhile (\<lambda>x. x \<noteq> CHR ''%'') (drop (Suc i) p)"
        by (simp add: substr_def d n_def take_takeWhile)
      note run = run_text[OF _ Suc_leI[OF i] n_def]
      show ?thesis
      proof (cases "Suc i + n = length p")
        case True
        have "takeWhile (\<lambda>x. x \<noteq> CHR ''%'') (drop (Suc i) p) @
            dropWhile (\<lambda>x. x \<noteq> CHR ''%'') (drop (Suc i) p) = drop (Suc i) p"
          by (rule takeWhile_dropWhile_id)
        then have tw: "takeWhile (\<lambda>x. x \<noteq> CHR ''%'') (drop (Suc i) p) = drop (Suc i) p"
          by (simp only: stop(1) True simp_thms if_True append_Nil2)
        have "run_from p i st = Inr (items st @ [Text_item (drop i p)])"
          using True s by (simp add: step run)
        moreover have "parse (drop i p) = Some [Text_item (drop i p)]"
          using False stop(1) True by (simp only: d parse.simps(2) tw Let_def) (simp add: parse.simps(1))
        ultimately show ?thesis by simp
      next
        case False
        with stop have "Suc (Suc (i + n)) \<le> length p" by simp
        then have "run_from p i st = outcome (items st @ [Text_item (substr i (Suc n) p)])
            (parse (CHR ''%'' # drop (Suc (Suc (i + n))) p))"
          using False s by (simp add: step run IH2)
        moreover have "parse (drop i p) = map_option ((#) (Text_item (substr i (Suc n) p)))
            (parse (CHR ''%'' # drop (Suc (Suc (i + n))) p))"
          using \<open>p ! i \<noteq> CHR ''%''\<close> stop(1) False
          by (simp add: d parse_text sub)
        ultimately show ?thesis by simp
      qed
    qed
    have two: "run_from p i st = outcome (items st) (parse (CHR ''%'' # drop i p))"
      if b: "current_state st \<in> after_percent"
    proof -
      consider "p ! i = CHR ''%''" | "p ! i = CHR ''{'' \<or> p ! i = CHR ''}''" | "p ! i = CHR ''d''"
        | "get_event (p ! i) = kOther" "p ! i \<notin> {CHR ''%'', CHR ''d'', CHR ''{'', CHR ''}''}"
        by (auto simp: get_event_def)
      then show ?thesis
      proof cases
        case 1
        then have "finit_step p i st = Inr (add_item (Text_item ''%'') (st\<lparr>current_state := kDoublePercent\<rparr>))"
          using b by (auto simp: finit_step_def handler_defs get_event_def Let_def item_set_def)
        with 1 i show ?thesis by (simp add: step d parse.simps IH1 add_item_def)
      next
        case 2
        then have "finit_step p i st = Inl (Thrown Invalid_argument)"
          using b by (auto simp: finit_step_def handler_defs get_event_def Let_def)
        with 2 show ?thesis by (auto simp: step d parse.simps)
      next
        case 4
        then have "finit_step p i st = Inr (case item_set (p ! i) of
            Some it \<Rightarrow> add_item it (st\<lparr>current_state := kTryAddItem\<rparr>)
          | None \<Rightarrow> st\<lparr>current_state := kTryAddItem\<rparr>)"
          using b by (auto simp: finit_step_def handler_defs Let_def split: option.split)
        with 4 i show ?thesis
          by (auto simp: step d parse.simps IH1 add_item_def split: option.split)
      next
        case 3
        then have s: "finit_step p i st = Inr (st\<lparr>current_state := kWaitBrace\<rparr>)"
          using b by (auto simp: finit_step_def handler_defs get_event_def Let_def)
        show ?thesis
        proof (cases "Suc i = length p")
          case True
          with 3 show ?thesis by (simp add: step s d parse.simps run_from_end finit_end_def handler_defs)
        next
          case False
          with i have j: "Suc i < length p" by simp
          note dj = drop_nth_Cons[OF j] and stepj = run_from_step[OF j]
          show ?thesis
          proof (cases "p ! Suc i = CHR ''{''")
            case False
            then have "finit_step p (Suc i) (st\<lparr>current_state := kWaitBrace\<rparr>) =
                Inl (Thrown Invalid_argument)"
              by (auto simp: finit_step_def handler_defs get_event_def Let_def)
            with 3 False show ?thesis by (simp add: step s stepj d dj parse.simps)
          next
            case True
            then have sj: "finit_step p (Suc i) (st\<lparr>current_state := kWaitBrace\<rparr>) =
                Inr (st\<lparr>current_state := kTimeFormatBegin, range_first := Suc i\<rparr>)"
              by (auto simp: finit_step_def handler_defs get_event_def Let_def)
            define n where "n = length (takeWhile (\<lambda>x. x \<noteq> CHR ''}'') (drop (Suc (Suc i)) p))"
            note stop = run_stop[OF Suc_leI[OF j] n_def]
            have "substr (Suc (Suc i)) n p = takeWhile (\<lambda>x. x \<noteq> CHR ''}'') (drop (Suc (Suc i)) p)"
              by (simp add: substr_def n_def take_takeWhile)
            with 3 True j s sj stop show ?thesis
              by (simp add: step stepj run_time[OF _ _ n_def] d dj parse.simps IH1)
          qed
        qed
      qed
    qed
    from one two show ?thesis by blast
  qed
qed

lemma new_formatter_parse: "new_formatter p = outcome [] (parse p)"
  using run_parse[of 0 p "\<lparr>current_state = kStart, range_first = 0, range_second = 0, items = []\<rparr>"]
  by (simp add: run_from_start)

section \<open>Writing patterns\<close>

text \<open>The pattern of an item list, and the lists that a pattern can denote.\<close>

fun item_char :: "item \<Rightarrow> char" where
  "item_char Msg_item = CHR ''m''"
| "item_char NewLine_item = CHR ''n''"
| "item_char LineNum_item = CHR ''l''"
| "item_char Tab_item = CHR ''t''"
| "item_char FileName_item = CHR ''f''"
| "item_char ThreadId_item = CHR ''T''"
| "item_char LoggerName_item = CHR ''c''"
| "item_char Level_item = CHR ''L''"
| "item_char RoutineId_item = CHR ''R''"
| "item_char _ = CHR ''%''"

fun render :: "item \<Rightarrow> string" where
  "render (Text_item t) = (if t = ''%'' then ''%%'' else t)"
| "render (DateTime_item f) = ''%d{'' @ f @ ''}''"
| "render it = [CHR ''%'', item_char it]"

fun plain_text :: "item \<Rightarrow> bool" where
  "plain_text (Text_item t) = (t \<noteq> ''%'')"
| "plain_text _ = False"

fun writable_item :: "item \<Rightarrow> bool" where
  "writable_item (Text_item t) = (t = ''%'' \<or> t \<noteq> [] \<and> CHR ''%'' \<notin> set t)"
| "writable_item (DateTime_item f) = (CHR ''}'' \<notin> set f)"
| "writable_item _ = True"

fun canonical :: "item list \<Rightarrow> bool" where
  "canonical [] = True"
| "canonical [x] = writable_item x"
| "canonical (x # y # its) =
     (writable_item x \<and> \<not> (plain_text x \<and> plain_text y) \<and> canonical (y # its))"

lemma takeWhile_stop:
  "c \<notin> set xs \<Longrightarrow> takeWhile (\<lambda>x. x \<noteq> c) (xs @ c # ys) = xs"
  "c \<notin> set xs \<Longrightarrow> dropWhile (\<lambda>x. x \<noteq> c) (xs @ c # ys) = c # ys"
  by (induction xs) auto

lemma takeWhile_all:
  "c \<notin> set xs \<Longrightarrow> takeWhile (\<lambda>x. x \<noteq> c) xs = xs"
  "c \<notin> set xs \<Longrightarrow> dropWhile (\<lambda>x. x \<noteq> c) xs = []"
  by (induction xs) auto

lemma render_not_plain: "\<not> plain_text it \<Longrightarrow> \<exists>r. render it = CHR ''%'' # r"
  by (cases it) auto

lemma parse_render_item:
  assumes "\<not> plain_text it" "writable_item it"
  shows "parse (render it @ ps) = map_option ((#) it) (parse ps)"
proof (cases it)
  case (Text_item t)
  with assms show ?thesis by (simp add: parse.simps(2))
next
  case (DateTime_item f)
  with assms have "CHR ''}'' \<notin> set f" by simp
  then show ?thesis by (simp add: DateTime_item parse.simps(2) takeWhile_stop)
qed (simp_all add: parse.simps(2) item_set_def)

lemma parse_render_text:
  assumes "t \<noteq> []" "CHR ''%'' \<notin> set t" "ps = [] \<or> (\<exists>r. ps = CHR ''%'' # r)"
  shows "parse (t @ ps) = map_option ((#) (Text_item t)) (parse ps)"
proof -
  obtain c cs where t: "t = c # cs" using assms(1) by (cases t) auto
  with assms(2) have c: "c \<noteq> CHR ''%''" "CHR ''%'' \<notin> set cs" by auto
  have "takeWhile (\<lambda>x. x \<noteq> CHR ''%'') (cs @ ps) = cs \<and> dropWhile (\<lambda>x. x \<noteq> CHR ''%'') (cs @ ps) = ps"
    using assms(3)
  proof
    assume "ps = []"
    then show ?thesis by (simp only: append_Nil2 takeWhile_all[OF c(2)] simp_thms)
  next
    assume "\<exists>r. ps = CHR ''%'' # r"
    then obtain r where "ps = CHR ''%'' # r" ..
    then show ?thesis by (simp only: takeWhile_stop[OF c(2)] simp_thms)
  qed
  then show ?thesis by (simp only: t append_Cons parse_text[OF c(1)])
qed

lemma parse_render: "canonical its \<Longrightarrow> parse (concat (map render its)) = Some its"
proof (induction its rule: canonical.induct)
  case 1
  then show ?case by (simp add: parse.simps)
next
  case (2 x)
  then show ?case
  proof (cases "plain_text x")
    case True
    then obtain t where x: "x = Text_item t" "t \<noteq> ''%''" by (cases x) auto
    with 2 show ?thesis using parse_render_text[of t "[]"] by (simp add: parse.simps(1))
  next
    case False
    with 2 show ?thesis using parse_render_item[of x "[]"] by (simp add: parse.simps(1))
  qed
next
  case (3 x y its)
  define ps where "ps = concat (map render (y # its))"
  have IH: "parse ps = Some (y # its)" using 3 by (simp add: ps_def)
  show ?case
  proof (cases "plain_text x")
    case True
    then obtain t where x: "x = Text_item t" "t \<noteq> ''%''" by (cases x) auto
    have "\<not> plain_text y" using 3(2) True by simp
    then have "\<exists>r. ps = CHR ''%'' # r" using render_not_plain[of y] by (auto simp: ps_def)
    moreover have "concat (map render (x # y # its)) = t @ ps" using x by (simp add: ps_def)
    ultimately show ?thesis using 3(2) x IH parse_render_text[of t ps] by simp
  next
    case False
    with 3(2) IH show ?thesis
      using parse_render_item[of x ps] by (simp add: ps_def)
  qed
qed

section \<open>Formatted events\<close>

definition shown :: "(string \<Rightarrow> int \<Rightarrow> string option) \<Rightarrow> (nat \<Rightarrow> string) \<Rightarrow> log_event \<Rightarrow> item \<Rightarrow> string" where
  "shown put_time name_of e it =
     (case do_format put_time name_of e it of Inr s \<Rightarrow> s | Inl _ \<Rightarrow> [])"

definition complete_for :: "log_event \<Rightarrow> item list \<Rightarrow> bool" where
  "complete_for e its \<longleftrightarrow> (LoggerName_item \<in> set its \<longrightarrow> trigger e \<noteq> None) \<and>
     (FileName_item \<in> set its \<longrightarrow> file_name e \<noteq> None)"

lemma do_format_cases:
  "do_format put_time name_of e it =
     (if complete_for e [it] then Inr (shown put_time name_of e it) else Inl Assert_failed)"
  by (cases it) (auto simp: complete_for_def shown_def split: option.splits)

lemma format_event_eq:
  "format_event put_time name_of e its =
     (if complete_for e its then Inr (concat (map (shown put_time name_of e) its))
      else Inl Assert_failed)"
proof (induction its)
  case Nil
  then show ?case by (simp add: complete_for_def)
next
  case (Cons it its)
  have "complete_for e (it # its) \<longleftrightarrow> complete_for e [it] \<and> complete_for e its"
    by (auto simp: complete_for_def)
  with Cons show ?case by (simp add: do_format_cases)
qed

section \<open>Properties\<close>

text \<open>
  C24: The table-driven machine of \<^verbatim>\<open>LogFormatter::Init\<close> implements the grammar of patterns:
  for every pattern it builds exactly the items the grammar gives, in order, and throws
  \<^verbatim>\<open>std::invalid_argument\<close> exactly for the patterns the grammar rejects.
\<close>

theorem formatter_implements_grammar:
  "new_formatter p =
     (case parse p of None \<Rightarrow> Inl (Thrown Invalid_argument) | Some its \<Rightarrow> Inr its)"
  by (simp add: new_formatter_parse outcome_def split: option.split)

text \<open>
  C25: Writing a list of formatter items as a pattern and constructing a formatter from the
  pattern gives the list back, whenever its texts are not empty, hold no percent sign (but a
  text that is just one) and are not adjacent, and its time formats hold no closing brace.
\<close>

theorem pattern_roundtrip:
  assumes "canonical its"
  shows "new_formatter (concat (map render its)) = Inr its"
  by (simp add: new_formatter_parse parse_render[OF assms])

definition root_pattern :: string where
  "root_pattern = ''%d{%Y-%m-%d %H:%M:%S}%t%T%t%R%t[%L]%t[%c]%t%f:%l%t%m''"

definition root_items :: "item list" where
  "root_items = [DateTime_item ''%Y-%m-%d %H:%M:%S'', Tab_item, ThreadId_item, Tab_item,
     RoutineId_item, Tab_item, Text_item ''['', Level_item, Text_item '']'', Tab_item,
     Text_item ''['', LoggerName_item, Text_item '']'', Tab_item, FileName_item, Text_item '':'',
     LineNum_item, Tab_item, Msg_item]"

theorem pattern_roundtrip_witness: "new_formatter root_pattern = Inr root_items"
  using pattern_roundtrip[of root_items] by (simp add: root_items_def root_pattern_def)

text \<open>
  Formatting an event concatenates what the items show, in order, and fails exactly when
  the pattern asks for the logger of an event without one or for the file of an event without
  a file name, on the items' assertions.
\<close>

theorem format_concatenates:
  "format_event put_time name_of e its =
     (if (LoggerName_item \<in> set its \<longrightarrow> trigger e \<noteq> None) \<and>
         (FileName_item \<in> set its \<longrightarrow> file_name e \<noteq> None)
      then Inr (concat (map (shown put_time name_of e) its)) else Inl Assert_failed)"
  by (simp add: format_event_eq complete_for_def)

definition orphan_event :: log_event where
  "orphan_event = \<lparr>trigger = None, message = ''hello'', time = 0, line_num = 56,
     file_name = Some ''log.cpp'', thread_id = 1, routine_id = 0, ev_level = kInfo\<rparr>"

theorem format_concatenates_witness:
  "format_event (\<lambda>_ _. None) (\<lambda>_. ''root'') orphan_event root_items = Inl Assert_failed \<and>
   format_event (\<lambda>_ _. None) (\<lambda>_. ''root'') orphan_event [Level_item, Text_item '' '', Msg_item]
     = Inr ''INFO hello''"
  using format_concatenates[of "\<lambda>_ _. None" "\<lambda>_. ''root''" orphan_event root_items]
    format_concatenates[of "\<lambda>_ _. None" "\<lambda>_. ''root''" orphan_event "[Level_item, Text_item '' '', Msg_item]"]
  by (simp add: orphan_event_def root_items_def shown_def level_to_string_def)

end
