(* ===== verification/Loggers.thy ===== *)
theory Loggers
  imports Log_Format Interfaces
begin

text \<open>
  Loggers, appenders and the logger manager (\<^verbatim>\<open>base/log.h\<close>, \<^verbatim>\<open>base/log.cpp\<close>). Loggers and
  appenders are shared objects, so they live in a store of addresses; a formatter never
  changes after its construction, so a pointer to one is its items or \<open>None\<close>. What a stream
  has received is a string; 0 is \<^verbatim>\<open>std::cout\<close> and 1 is \<^verbatim>\<open>std::cerr\<close>.
\<close>

section \<open>Objects\<close>

record logger =
  lg_name :: string
  lg_level :: level
  appenderArray :: "nat list"
  lg_formatter :: "formatter option"
  parent :: "nat option"

record appender =
  ap_level :: level
  hasSpecialFormatter :: bool
  ap_formatter :: "formatter option"
  targetOutStream :: nat

record lworld =
  loggers :: "nat \<Rightarrow> logger option"
  appenders :: "nat \<Rightarrow> appender option"
  streams :: "nat \<Rightarrow> string"
  next_obj :: nat
  rootLogger :: nat
  named :: "string \<Rightarrow> nat option"

definition put_logger :: "nat \<Rightarrow> logger \<Rightarrow> lworld \<Rightarrow> lworld" where
  "put_logger l g w = w\<lparr>loggers := (loggers w)(l \<mapsto> g)\<rparr>"

definition put_appender :: "nat \<Rightarrow> appender \<Rightarrow> lworld \<Rightarrow> lworld" where
  "put_appender a p w = w\<lparr>appenders := (appenders w)(a \<mapsto> p)\<rparr>"

definition put_named :: "string \<Rightarrow> nat \<Rightarrow> lworld \<Rightarrow> lworld" where
  "put_named n l w = w\<lparr>named := (named w)(n \<mapsto> l)\<rparr>"

definition drop_named :: "string \<Rightarrow> lworld \<Rightarrow> lworld" where
  "drop_named n w = w\<lparr>named := (named w)(n := None)\<rparr>"

interpretation logger_store: store loggers put_logger
  by unfold_locales (simp add: put_logger_def)

interpretation appender_store: store appenders put_appender
  by unfold_locales (simp add: put_appender_def)

interpretation logger_names: registry named put_named drop_named
  by unfold_locales (simp_all add: put_named_def drop_named_def)

definition new_logger :: "string \<Rightarrow> logger" where
  "new_logger n = \<lparr>lg_name = n, lg_level = kDebug, appenderArray = [], lg_formatter = None,
     parent = None\<rparr>"

definition new_appender :: "nat \<Rightarrow> appender" where
  "new_appender s = \<lparr>ap_level = kUnKnown, hasSpecialFormatter = False, ap_formatter = None,
     targetOutStream = s\<rparr>"

section \<open>Appenders\<close>

definition appender_set_formatter :: "nat \<Rightarrow> formatter option \<Rightarrow> lworld \<Rightarrow> lworld res" where
  "appender_set_formatter a f w =
     res_bind (deref (appenders w a)) (\<lambda>p.
     Inr (put_appender a (p\<lparr>ap_formatter := f, hasSpecialFormatter := (f \<noteq> None)\<rparr>) w))"

definition appender_set_level :: "nat \<Rightarrow> level \<Rightarrow> lworld \<Rightarrow> lworld res" where
  "appender_set_level a l w =
     res_bind (deref (appenders w a)) (\<lambda>p. Inr (put_appender a (p\<lparr>ap_level := l\<rparr>) w))"

definition logger_name :: "lworld \<Rightarrow> nat \<Rightarrow> string" where
  "logger_name w l = (case loggers w l of Some g \<Rightarrow> lg_name g | None \<Rightarrow> [])"

definition write_stream :: "nat \<Rightarrow> string \<Rightarrow> lworld \<Rightarrow> lworld" where
  "write_stream s t w = w\<lparr>streams := (streams w)(s := streams w s @ t)\<rparr>"

text \<open>\<^verbatim>\<open>StreamLogAppender::Log\<close>.\<close>

definition appender_log ::
  "(string \<Rightarrow> int \<Rightarrow> string option) \<Rightarrow> log_event \<Rightarrow> nat \<Rightarrow> lworld \<Rightarrow> lworld res" where
  "appender_log put_time e a w =
     res_bind (deref (appenders w a)) (\<lambda>p.
     res_bind (sylar_assert (ap_formatter p \<noteq> None)) (\<lambda>_.
     if ev_level e \<ge> ap_level p then
       res_bind (deref (ap_formatter p)) (\<lambda>f.
       res_bind (format_event put_time (logger_name w) e f) (\<lambda>s.
       Inr (write_stream (targetOutStream p) s w)))
     else Inr w))"

section \<open>Loggers\<close>

fun log_all ::
  "(string \<Rightarrow> int \<Rightarrow> string option) \<Rightarrow> log_event \<Rightarrow> nat list \<Rightarrow> lworld \<Rightarrow> lworld res" where
  "log_all put_time e [] w = Inr w"
| "log_all put_time e (a # as) w = res_bind (appender_log put_time e a w) (log_all put_time e as)"

text \<open>\<^verbatim>\<open>Logger::Log\<close>; a cycle of parents is a call that never returns.\<close>

partial_function (option) logger_log ::
  "(string \<Rightarrow> int \<Rightarrow> string option) \<Rightarrow> log_event \<Rightarrow> nat \<Rightarrow> lworld \<Rightarrow> lworld res option" where
  "logger_log put_time e l w =
     (case loggers w l of
        None \<Rightarrow> Some (Inl Undefined_behaviour)
      | Some g \<Rightarrow>
          if ev_level e \<ge> lg_level g then
            (if appenderArray g = [] then
               (case parent g of
                  None \<Rightarrow> Some (Inl Assert_failed)
                | Some p \<Rightarrow> logger_log put_time e p w)
             else Some (log_all put_time e (appenderArray g) w))
          else Some (Inr w))"

definition add_appender :: "nat \<Rightarrow> nat \<Rightarrow> lworld \<Rightarrow> lworld res" where
  "add_appender l a w =
     res_bind (deref (loggers w l)) (\<lambda>g.
     res_bind (deref (appenders w a)) (\<lambda>p.
     let w1 = (if \<not> hasSpecialFormatter p
               then put_appender a (p\<lparr>ap_formatter := lg_formatter g\<rparr>) w else w)
     in Inr (put_logger l (g\<lparr>appenderArray := appenderArray g @ [a]\<rparr>) w1)))"

definition clear_all_appender :: "nat \<Rightarrow> lworld \<Rightarrow> lworld res" where
  "clear_all_appender l w =
     res_bind (deref (loggers w l)) (\<lambda>g. Inr (put_logger l (g\<lparr>appenderArray := []\<rparr>) w))"

definition logger_set_level :: "nat \<Rightarrow> level \<Rightarrow> lworld \<Rightarrow> lworld res" where
  "logger_set_level l v w =
     res_bind (deref (loggers w l)) (\<lambda>g. Inr (put_logger l (g\<lparr>lg_level := v\<rparr>) w))"

fun give_formatter :: "formatter option \<Rightarrow> nat list \<Rightarrow> lworld \<Rightarrow> lworld res" where
  "give_formatter f [] w = Inr w"
| "give_formatter f (a # as) w =
     res_bind (deref (appenders w a)) (\<lambda>p.
     give_formatter f as
       (if \<not> hasSpecialFormatter p
        then put_appender a (p\<lparr>ap_formatter := f, hasSpecialFormatter := False\<rparr>) w else w))"

definition logger_set_formatter :: "nat \<Rightarrow> formatter option \<Rightarrow> lworld \<Rightarrow> lworld res" where
  "logger_set_formatter l f w =
     res_bind (deref (loggers w l)) (\<lambda>g.
     give_formatter f (appenderArray g) (put_logger l (g\<lparr>lg_formatter := f\<rparr>) w))"

definition get_formatter :: "nat \<Rightarrow> lworld \<Rightarrow> formatter option res" where
  "get_formatter l w = res_bind (deref (loggers w l)) (\<lambda>g. Inr (lg_formatter g))"

definition get_parent :: "nat \<Rightarrow> lworld \<Rightarrow> nat option res" where
  "get_parent l w = res_bind (deref (loggers w l)) (\<lambda>g. Inr (parent g))"

text \<open>The \<^verbatim>\<open>while\<close> loop of \<^verbatim>\<open>SetParent\<close>, from \<open>current\<close> upwards.\<close>

partial_function (option) cycle_walk :: "lworld \<Rightarrow> nat \<Rightarrow> nat option \<Rightarrow> unit res option" where
  "cycle_walk w l current =
     (case current of
        None \<Rightarrow> Some (Inr ())
      | Some c \<Rightarrow>
          if c = l then Some (Inl (Thrown Runtime_error))
          else
            (case get_parent c w of
               Inl e \<Rightarrow> Some (Inl e)
             | Inr p \<Rightarrow> cycle_walk w l p))"

definition set_parent :: "nat \<Rightarrow> nat option \<Rightarrow> lworld \<Rightarrow> lworld res" where
  "set_parent l p w =
     res_bind (returns (cycle_walk w l p)) (\<lambda>_.
     res_bind (deref (loggers w l)) (\<lambda>g. Inr (put_logger l (g\<lparr>parent := p\<rparr>) w)))"

section \<open>The manager\<close>

definition alloc_logger :: "logger \<Rightarrow> lworld \<Rightarrow> nat \<times> lworld" where
  "alloc_logger g w = (next_obj w, (put_logger (next_obj w) g w)\<lparr>next_obj := Suc (next_obj w)\<rparr>)"

definition alloc_appender :: "appender \<Rightarrow> lworld \<Rightarrow> nat \<times> lworld" where
  "alloc_appender p w = (next_obj w, (put_appender (next_obj w) p w)\<lparr>next_obj := Suc (next_obj w)\<rparr>)"

definition init_logger_and_append :: "string \<Rightarrow> lworld \<Rightarrow> (nat \<times> lworld) res" where
  "init_logger_and_append n w =
     res_bind (sylar_assert (named w n = None)) (\<lambda>_.
     let (l, w1) = alloc_logger (new_logger n) w in
     res_bind (set_parent l (Some (rootLogger w1)) w1) (\<lambda>w2.
     res_bind (get_formatter (rootLogger w2) w2) (\<lambda>f.
     res_bind (logger_set_formatter l f w2) (\<lambda>w3.
     Inr (l, put_named n l w3)))))"

definition get_logger :: "string \<Rightarrow> lworld \<Rightarrow> (nat \<times> lworld) res" where
  "get_logger n w =
     (case named w n of
        Some l \<Rightarrow> Inr (l, w)
      | None \<Rightarrow> init_logger_and_append n w)"

definition remove_logger :: "string \<Rightarrow> lworld \<Rightarrow> lworld" where
  "remove_logger n w = drop_named n w"

definition root_name :: string where "root_name = ''SYLAR''"
definition system_name :: string where "system_name = ''SYS''"

text \<open>The constructor of the manager, with the root's pattern and its console appender.\<close>

definition empty_lworld :: lworld where
  "empty_lworld = \<lparr>loggers = Map.empty, appenders = Map.empty, streams = (\<lambda>_. []), next_obj = 0,
     rootLogger = 0, named = Map.empty\<rparr>"

definition new_logger_manager :: "lworld res" where
  "new_logger_manager =
     (let (r, w1) = alloc_logger (new_logger root_name) empty_lworld;
          w2 = w1\<lparr>rootLogger := r\<rparr> in
      res_bind (new_formatter root_pattern) (\<lambda>f.
      res_bind (logger_set_formatter r (Some f) w2) (\<lambda>w3.
      let (a, w4) = alloc_appender (new_appender 0) w3 in
      res_bind (add_appender r a w4) (\<lambda>w5. Inr (put_named root_name r w5)))))"

text \<open>\<^verbatim>\<open>LogEvent::NewLogEvent\<close> (no logger is recorded; \<^verbatim>\<open>__FILE__\<close> is how the file was built) and \<^verbatim>\<open>Logger::Info\<close> and its siblings.\<close>

definition new_log_event :: "string \<Rightarrow> level \<Rightarrow> int \<Rightarrow> int \<Rightarrow> log_event" where
  "new_log_event msg l now tid = \<lparr>trigger = None, message = msg, time = now, line_num = 56,
     file_name = Some ''log.cpp'', thread_id = tid, routine_id = 0, ev_level = l\<rparr>"

definition logger_print ::
  "(string \<Rightarrow> int \<Rightarrow> string option) \<Rightarrow> level \<Rightarrow> int \<Rightarrow> int \<Rightarrow> string \<Rightarrow> nat \<Rightarrow> lworld \<Rightarrow> lworld res" where
  "logger_print put_time lv now tid msg l w =
     returns (logger_log put_time (new_log_event msg lv now tid) l w)"

text \<open>
  The macro \<^verbatim>\<open>SYLAR_LOG_LEVEL\<close>: an event that passes the logger's level is built with the
  logger in it and logged when the wrapper is destroyed.
\<close>

definition sylar_log_level ::
  "(string \<Rightarrow> int \<Rightarrow> string option) \<Rightarrow> log_event \<Rightarrow> nat \<Rightarrow> lworld \<Rightarrow> lworld res" where
  "sylar_log_level put_time e l w =
     res_bind (deref (loggers w l)) (\<lambda>g.
     if ev_level e \<ge> lg_level g
     then returns (logger_log put_time (e\<lparr>trigger := Some l\<rparr>) l w)
     else Inr w)"

section \<open>The tree of loggers\<close>

definition parent_rel :: "lworld \<Rightarrow> (nat \<times> nat) set" where
  "parent_rel w = {(p, l). \<exists>g. loggers w l = Some g \<and> parent g = Some p}"

text \<open>
  Every parent and every attached appender exists, there is no cycle of parents, every logger
  and every attached appender has a formatter, and the registered names are the loggers' own.
\<close>

definition lworld_wf :: "lworld \<Rightarrow> bool" where
  "lworld_wf w \<longleftrightarrow>
     wf (parent_rel w) \<and>
     (\<forall>l g. loggers w l = Some g \<longrightarrow>
        l < next_obj w \<and> lg_formatter g \<noteq> None \<and>
        (\<forall>p. parent g = Some p \<longrightarrow> loggers w p \<noteq> None) \<and>
        (\<forall>a\<in>set (appenderArray g). \<exists>p. appenders w a = Some p \<and> ap_formatter p \<noteq> None)) \<and>
     (\<forall>a p. appenders w a = Some p \<longrightarrow> a < next_obj w \<and> (hasSpecialFormatter p \<longrightarrow> ap_formatter p \<noteq> None)) \<and>
     loggers w (rootLogger w) \<noteq> None \<and>
     (\<forall>n l. named w n = Some l \<longrightarrow> (\<exists>g. loggers w l = Some g \<and> lg_name g = n))"

lemma put_logger_sel [simp]:
  "loggers (put_logger l g w) = (loggers w)(l \<mapsto> g)" "appenders (put_logger l g w) = appenders w"
  "streams (put_logger l g w) = streams w" "next_obj (put_logger l g w) = next_obj w"
  "rootLogger (put_logger l g w) = rootLogger w" "named (put_logger l g w) = named w"
  by (simp_all add: put_logger_def)

lemma put_appender_sel [simp]:
  "appenders (put_appender l g w) = (appenders w)(l \<mapsto> g)" "loggers (put_appender l g w) = loggers w"
  "streams (put_appender l g w) = streams w" "next_obj (put_appender l g w) = next_obj w"
  "rootLogger (put_appender l g w) = rootLogger w" "named (put_appender l g w) = named w"
  by (simp_all add: put_appender_def)

lemma put_named_sel [simp]:
  "named (put_named n l w) = (named w)(n \<mapsto> l)" "loggers (put_named n l w) = loggers w"
  "appenders (put_named n l w) = appenders w" "next_obj (put_named n l w) = next_obj w"
  "rootLogger (put_named n l w) = rootLogger w" "streams (put_named n l w) = streams w"
  by (simp_all add: put_named_def)

lemma drop_named_sel [simp]:
  "named (drop_named n w) = (named w)(n := None)" "loggers (drop_named n w) = loggers w"
  "appenders (drop_named n w) = appenders w" "next_obj (drop_named n w) = next_obj w"
  "rootLogger (drop_named n w) = rootLogger w" "streams (drop_named n w) = streams w"
  by (simp_all add: drop_named_def)

lemma write_stream_sel [simp]:
  "loggers (write_stream s t w) = loggers w" "appenders (write_stream s t w) = appenders w"
  "next_obj (write_stream s t w) = next_obj w" "rootLogger (write_stream s t w) = rootLogger w"
  "named (write_stream s t w) = named w"
  "streams (write_stream s t w) = (streams w)(s := streams w s @ t)"
  by (simp_all add: write_stream_def)

lemma parent_rel_cong: "loggers w = loggers w' \<Longrightarrow> parent_rel w = parent_rel w'"
  by (simp add: parent_rel_def)

lemma parent_rel_put_same:
  "loggers w l = Some g \<Longrightarrow> parent g' = parent g \<Longrightarrow> parent_rel (put_logger l g' w) = parent_rel w"
  by (auto simp: parent_rel_def)

text \<open>The walk of \<^verbatim>\<open>SetParent\<close> throws exactly when the logger is an ancestor of the start.\<close>

lemma rtrancl_parent:
  assumes "loggers w c = Some g" "c \<noteq> l"
  shows "(l, c) \<in> (parent_rel w)\<^sup>* \<longleftrightarrow> (\<exists>p. parent g = Some p \<and> (l, p) \<in> (parent_rel w)\<^sup>*)"
proof
  assume "(l, c) \<in> (parent_rel w)\<^sup>*"
  then obtain p where "(l, p) \<in> (parent_rel w)\<^sup>*" "(p, c) \<in> parent_rel w"
    using assms(2) by (metis rtranclE)
  with assms(1) show "\<exists>p. parent g = Some p \<and> (l, p) \<in> (parent_rel w)\<^sup>*"
    by (auto simp: parent_rel_def)
next
  assume "\<exists>p. parent g = Some p \<and> (l, p) \<in> (parent_rel w)\<^sup>*"
  then obtain p where "parent g = Some p" "(l, p) \<in> (parent_rel w)\<^sup>*" by blast
  moreover from this assms(1) have "(p, c) \<in> parent_rel w" by (auto simp: parent_rel_def)
  ultimately show "(l, c) \<in> (parent_rel w)\<^sup>*" by (meson rtrancl.rtrancl_into_rtrancl)
qed

lemma cycle_walk_spec:
  assumes w: "wf (parent_rel w)"
    and ex: "\<And>l g p. loggers w l = Some g \<Longrightarrow> parent g = Some p \<Longrightarrow> loggers w p \<noteq> None"
    and c: "loggers w c \<noteq> None"
  shows "cycle_walk w l (Some c) =
    Some (if (l, c) \<in> (parent_rel w)\<^sup>* then Inl (Thrown Runtime_error) else Inr ())"
  using w c
proof (induction c rule: wf_induct_rule)
  case (less c)
  then obtain g where g: "loggers w c = Some g" by blast
  show ?case
  proof (cases "c = l")
    case True
    then show ?thesis by (simp add: cycle_walk.simps)
  next
    case False
    note anc = rtrancl_parent[OF g False]
    show ?thesis
    proof (cases "parent g")
      case None
      with g False anc show ?thesis
        by (simp add: cycle_walk.simps[of w l "Some c"] cycle_walk.simps[of w l None] get_parent_def)
    next
      case (Some p)
      have "(p, c) \<in> parent_rel w" using g Some by (auto simp: parent_rel_def)
      moreover have "loggers w p \<noteq> None" using ex[OF g Some] .
      ultimately have "cycle_walk w l (Some p) =
          Some (if (l, p) \<in> (parent_rel w)\<^sup>* then Inl (Thrown Runtime_error) else Inr ())"
        by (rule less.IH)
      with g False anc Some show ?thesis
        by (simp add: cycle_walk.simps[of w l "Some c"] get_parent_def)
    qed
  qed
qed

lemma parent_rel_set_parent:
  assumes "loggers w l = Some g"
  shows "parent_rel (put_logger l (g\<lparr>parent := p\<rparr>) w) \<subseteq>
    (case p of None \<Rightarrow> parent_rel w | Some q \<Rightarrow> insert (q, l) (parent_rel w))"
  using assms by (auto simp: parent_rel_def split: option.splits if_splits)

lemma wf_set_parent:
  assumes "wf (parent_rel w)" "loggers w l = Some g"
    and "\<And>q. p = Some q \<Longrightarrow> (l, q) \<notin> (parent_rel w)\<^sup>*"
  shows "wf (parent_rel (put_logger l (g\<lparr>parent := p\<rparr>) w))"
proof (cases p)
  case None
  then show ?thesis
    using wf_subset[OF assms(1)] parent_rel_set_parent[OF assms(2), of p] by simp
next
  case (Some q)
  then have "wf (insert (q, l) (parent_rel w))" using assms by (simp add: wf_insert)
  then show ?thesis
    by (rule wf_subset) (use parent_rel_set_parent[OF assms(2), of p] Some in simp)
qed

lemma lworld_wfD:
  assumes "lworld_wf w"
  shows "wf (parent_rel w)" "loggers w (rootLogger w) \<noteq> None"
    and "loggers w l = Some g \<Longrightarrow> l < next_obj w" "loggers w l = Some g \<Longrightarrow> lg_formatter g \<noteq> None"
    and "loggers w l = Some g \<Longrightarrow> parent g = Some q \<Longrightarrow> loggers w q \<noteq> None"
    and "loggers w l = Some g \<Longrightarrow> a \<in> set (appenderArray g) \<Longrightarrow>
      \<exists>p. appenders w a = Some p \<and> ap_formatter p \<noteq> None"
    and "appenders w a = Some p \<Longrightarrow> a < next_obj w"
    and "appenders w a = Some p \<Longrightarrow> hasSpecialFormatter p \<Longrightarrow> ap_formatter p \<noteq> None"
    and "named w n = Some l \<Longrightarrow> \<exists>g. loggers w l = Some g \<and> lg_name g = n"
  using assms unfolding lworld_wf_def by blast+

lemma set_parent_spec:
  assumes w: "lworld_wf w" and l: "loggers w l = Some g" and p: "loggers w q \<noteq> None"
  shows "set_parent l (Some q) w =
    (if (l, q) \<in> (parent_rel w)\<^sup>* then Inl (Thrown Runtime_error)
     else Inr (put_logger l (g\<lparr>parent := Some q\<rparr>) w))"
proof -
  have "cycle_walk w l (Some q) =
      Some (if (l, q) \<in> (parent_rel w)\<^sup>* then Inl (Thrown Runtime_error) else Inr ())"
    by (rule cycle_walk_spec[OF lworld_wfD(1)[OF w] lworld_wfD(5)[OF w] p])
  with l show ?thesis by (simp add: set_parent_def)
qed

section \<open>Operations keep the tree\<close>

definition logger_ok :: "lworld \<Rightarrow> logger \<Rightarrow> bool" where
  "logger_ok w g \<longleftrightarrow> lg_formatter g \<noteq> None \<and> (\<forall>p. parent g = Some p \<longrightarrow> loggers w p \<noteq> None) \<and>
     (\<forall>a\<in>set (appenderArray g). \<exists>p. appenders w a = Some p \<and> ap_formatter p \<noteq> None)"

lemma lworld_wf_alt:
  "lworld_wf w \<longleftrightarrow> wf (parent_rel w) \<and>
     (\<forall>l g. loggers w l = Some g \<longrightarrow> l < next_obj w \<and> logger_ok w g) \<and>
     (\<forall>a p. appenders w a = Some p \<longrightarrow> a < next_obj w \<and> (hasSpecialFormatter p \<longrightarrow> ap_formatter p \<noteq> None)) \<and>
     loggers w (rootLogger w) \<noteq> None \<and>
     (\<forall>n l. named w n = Some l \<longrightarrow> (\<exists>g. loggers w l = Some g \<and> lg_name g = n))"
  unfolding lworld_wf_def logger_ok_def by blast

lemma put_logger_wf:
  assumes w: "lworld_wf w" and l: "loggers w l = Some g" and g': "lg_name g' = lg_name g" "logger_ok w g'"
    and r: "wf (parent_rel (put_logger l g' w))"
  shows "lworld_wf (put_logger l g' w)"
proof -
  have ok: "logger_ok (put_logger l g' w) x" if "logger_ok w x" for x
    using that by (auto simp: logger_ok_def)
  show ?thesis
    unfolding lworld_wf_alt
  proof (intro conjI allI impI)
    fix k x assume "loggers (put_logger l g' w) k = Some x"
    then show "k < next_obj (put_logger l g' w)" "logger_ok (put_logger l g' w) x"
      using w l g' ok by (auto simp: lworld_wf_alt split: if_splits)
  next
    fix n k assume "named (put_logger l g' w) n = Some k"
    then show "\<exists>g. loggers (put_logger l g' w) k = Some g \<and> lg_name g = n"
      using lworld_wfD(9)[OF w, of n k] l g' by auto
  qed (use w r in \<open>auto simp: lworld_wf_alt\<close>)
qed

lemma put_logger_same_parent_wf:
  assumes "lworld_wf w" "loggers w l = Some g" "lg_name g' = lg_name g" "logger_ok w g'"
    and "parent g' = parent g"
  shows "lworld_wf (put_logger l g' w)"
  using assms parent_rel_put_same[OF assms(2,5)]
  by (intro put_logger_wf[OF assms(1,2)]) (auto simp: lworld_wf_def)

lemma put_appender_wf:
  assumes w: "lworld_wf w" and a: "appenders w a = Some p" and p': "ap_formatter p' \<noteq> None"
  shows "lworld_wf (put_appender a p' w)"
proof -
  have rel: "parent_rel (put_appender a p' w) = parent_rel w" by (rule parent_rel_cong) simp
  have ok: "logger_ok (put_appender a p' w) x" if "logger_ok w x" for x
    using that p' by (auto simp: logger_ok_def)
  show ?thesis
    unfolding lworld_wf_alt rel
  proof (intro conjI allI impI)
    fix b q assume "appenders (put_appender a p' w) b = Some q"
    then show "b < next_obj (put_appender a p' w)"
      using lworld_wfD(7)[OF w] a by (auto split: if_splits)
    assume "hasSpecialFormatter q"
    with \<open>appenders (put_appender a p' w) b = Some q\<close> show "ap_formatter q \<noteq> None"
      using lworld_wfD(8)[OF w] p' by (auto split: if_splits)
  qed (use w ok in \<open>auto simp: lworld_wf_alt\<close>)
qed

lemma give_formatter_wf:
  assumes "lworld_wf w" "f \<noteq> None" "give_formatter f as w = Inr w'"
  shows "lworld_wf w' \<and> loggers w' = loggers w \<and> named w' = named w \<and> next_obj w' = next_obj w \<and>
    rootLogger w' = rootLogger w \<and> streams w' = streams w"
  using assms
proof (induction as arbitrary: w)
  case Nil
  then show ?case by simp
next
  case (Cons a as)
  from Cons.prems(3) obtain p where p: "appenders w a = Some p" by (auto simp: res_bind_eq_Inr)
  define w1 where "w1 = (if \<not> hasSpecialFormatter p
    then put_appender a (p\<lparr>ap_formatter := f, hasSpecialFormatter := False\<rparr>) w else w)"
  have "lworld_wf w1"
    using Cons.prems(1,2) p put_appender_wf[OF Cons.prems(1) p] by (simp add: w1_def)
  moreover have "give_formatter f as w1 = Inr w'"
    using Cons.prems(3) p by (simp add: w1_def)
  ultimately show ?case using Cons.IH[of w1] Cons.prems(2) by (auto simp: w1_def)
qed

lemma logger_set_formatter_wf:
  assumes w: "lworld_wf w" and r: "logger_set_formatter l (Some f) w = Inr w'"
  shows "lworld_wf w'"
proof -
  from r obtain g where g: "loggers w l = Some g"
    "give_formatter (Some f) (appenderArray g) (put_logger l (g\<lparr>lg_formatter := Some f\<rparr>) w) = Inr w'"
    by (auto simp: logger_set_formatter_def res_bind_eq_Inr)
  have "logger_ok w (g\<lparr>lg_formatter := Some f\<rparr>)"
    using w g(1) by (auto simp: lworld_wf_alt logger_ok_def)
  then have "lworld_wf (put_logger l (g\<lparr>lg_formatter := Some f\<rparr>) w)"
    by (intro put_logger_same_parent_wf[OF w g(1)]) simp_all
  from give_formatter_wf[OF this _ g(2)] show ?thesis by simp
qed

lemma add_appender_wf:
  assumes w: "lworld_wf w" and r: "add_appender l a w = Inr w'"
  shows "lworld_wf w'"
proof -
  from r obtain g p where g: "loggers w l = Some g" and p: "appenders w a = Some p"
    by (auto simp: add_appender_def res_bind_eq_Inr)
  define w1 where "w1 = (if \<not> hasSpecialFormatter p
    then put_appender a (p\<lparr>ap_formatter := lg_formatter g\<rparr>) w else w)"
  have f: "lg_formatter g \<noteq> None" using lworld_wfD(4)[OF w g] .
  then have w1: "lworld_wf w1" using w put_appender_wf[OF w p] by (simp add: w1_def)
  have g1: "loggers w1 l = Some g" using g by (simp add: w1_def)
  have "\<exists>q. appenders w1 a = Some q \<and> ap_formatter q \<noteq> None"
    using p f lworld_wfD(8)[OF w p] by (simp add: w1_def)
  then have "logger_ok w1 (g\<lparr>appenderArray := appenderArray g @ [a]\<rparr>)"
    using w1 g1 by (auto simp: lworld_wf_alt logger_ok_def)
  then have "lworld_wf (put_logger l (g\<lparr>appenderArray := appenderArray g @ [a]\<rparr>) w1)"
    by (intro put_logger_same_parent_wf[OF w1 g1]) simp_all
  then show ?thesis using r g p by (simp add: add_appender_def w1_def Let_def)
qed

lemma set_parent_wf:
  assumes w: "lworld_wf w" and r: "set_parent l p w = Inr w'" and p: "\<forall>q. p = Some q \<longrightarrow> loggers w q \<noteq> None"
  shows "lworld_wf w'"
proof -
  from r obtain g where g: "loggers w l = Some g" "w' = put_logger l (g\<lparr>parent := p\<rparr>) w"
    by (auto simp: set_parent_def res_bind_eq_Inr)
  have "(l, q) \<notin> (parent_rel w)\<^sup>*" if "p = Some q" for q
    using r p that by (simp add: set_parent_spec[OF w g(1)] split: if_splits)
  then have "wf (parent_rel w')"
    unfolding g(2) by (intro wf_set_parent[OF lworld_wfD(1)[OF w] g(1)])
  moreover have "logger_ok w (g\<lparr>parent := p\<rparr>)"
    using w g(1) p by (auto simp: lworld_wf_alt logger_ok_def)
  ultimately show ?thesis
    unfolding g(2) by (intro put_logger_wf[OF w g(1)]) simp_all
qed

text \<open>A new logger: child of the root, with the root's formatter and no appender.\<close>

definition fresh_logger :: "string \<Rightarrow> lworld \<Rightarrow> logger" where
  "fresh_logger n w = (new_logger n)\<lparr>parent := Some (rootLogger w),
     lg_formatter := (case loggers w (rootLogger w) of Some r \<Rightarrow> lg_formatter r | None \<Rightarrow> None)\<rparr>"

definition with_logger :: "string \<Rightarrow> lworld \<Rightarrow> lworld" where
  "with_logger n w = put_named n (next_obj w)
     ((put_logger (next_obj w) (fresh_logger n w) w)\<lparr>next_obj := Suc (next_obj w)\<rparr>)"

lemma fresh_not_ancestor:
  assumes "lworld_wf w" "l = next_obj w"
  shows "(l, q) \<in> (parent_rel w)\<^sup>* \<Longrightarrow> q = l" and "loggers w l = None"
proof -
  show none: "loggers w l = None"
    using lworld_wfD(3)[OF assms(1), of l] assms(2) by (cases "loggers w l") auto
  assume "(l, q) \<in> (parent_rel w)\<^sup>*"
  then show "q = l"
  proof (cases rule: converse_rtranclE)
    case (step y)
    then obtain g where g: "loggers w y = Some g" "parent g = Some l"
      by (auto simp: parent_rel_def)
    show ?thesis using lworld_wfD(5)[OF assms(1) g] none by simp
  qed simp
qed

lemma init_logger_spec:
  assumes w: "lworld_wf w" and n: "named w n = None"
  shows "init_logger_and_append n w = Inr (next_obj w, with_logger n w)"
proof -
  define l where "l = next_obj w"
  define w1 where "w1 = (put_logger l (new_logger n) w)\<lparr>next_obj := Suc l\<rparr>"
  note fresh = fresh_not_ancestor[OF w l_def]
  obtain r where r: "loggers w (rootLogger w) = Some r" using lworld_wfD(2)[OF w] by auto
  then have ne: "rootLogger w \<noteq> l" using fresh(2) by auto
  have rel: "parent_rel w1 = parent_rel w"
    using fresh(2) by (auto simp: parent_rel_def w1_def new_logger_def split: if_splits)
  have "cycle_walk w1 l (Some (rootLogger w)) =
      Some (if (l, rootLogger w) \<in> (parent_rel w1)\<^sup>* then Inl (Thrown Runtime_error) else Inr ())"
  proof (rule cycle_walk_spec)
    show "wf (parent_rel w1)" using lworld_wfD(1)[OF w] rel by simp
    show "loggers w1 p \<noteq> None" if "loggers w1 k = Some g" "parent g = Some p" for k g p
      using that lworld_wfD(5)[OF w] by (auto simp: w1_def new_logger_def split: if_splits)
    show "loggers w1 (rootLogger w) \<noteq> None" using r by (simp add: w1_def)
  qed
  then have walk: "cycle_walk w1 l (Some (rootLogger w)) = Some (Inr ())"
    using fresh(1) ne by (auto simp: rel)
  show ?thesis
    using n walk r ne
    by (simp add: init_logger_and_append_def alloc_logger_def w1_def set_parent_def get_formatter_def
        logger_set_formatter_def with_logger_def fresh_logger_def new_logger_def Let_def
        put_logger_def put_named_def flip: l_def)
qed

lemma with_logger_wf:
  assumes w: "lworld_wf w" and n: "named w n = None"
  shows "lworld_wf (with_logger n w)"
proof -
  define l where "l = next_obj w"
  note fresh = fresh_not_ancestor[OF w l_def]
  obtain r where r: "loggers w (rootLogger w) = Some r" "lg_formatter r \<noteq> None"
    using lworld_wfD(2)[OF w] lworld_wfD(4)[OF w] by blast
  then have ne: "rootLogger w \<noteq> l" using fresh(2) by auto
  define w' where "w' = with_logger n w"
  have sel: "loggers w' = (loggers w)(l \<mapsto> fresh_logger n w)" "appenders w' = appenders w"
      "next_obj w' = Suc l" "rootLogger w' = rootLogger w" "named w' = (named w)(n \<mapsto> l)"
    by (simp_all add: w'_def with_logger_def l_def put_named_def put_logger_def)
  have "parent_rel w' = insert (rootLogger w, l) (parent_rel w)"
    using fresh(2) by (auto simp: parent_rel_def sel fresh_logger_def split: if_splits)
  moreover have "(l, rootLogger w) \<notin> (parent_rel w)\<^sup>*" using fresh(1) ne by auto
  ultimately have "wf (parent_rel w')" using lworld_wfD(1)[OF w] by (simp add: wf_insert)
  moreover have "logger_ok w' (fresh_logger n w)"
    using r by (auto simp: logger_ok_def fresh_logger_def new_logger_def sel)
  moreover have "logger_ok w' g" if "logger_ok w g" for g
    using that by (auto simp: logger_ok_def sel)
  moreover have "\<exists>g. loggers w' k = Some g \<and> lg_name g = m" if "named w' m = Some k" for m k
  proof (cases "m = n")
    case True
    with that show ?thesis by (simp add: sel fresh_logger_def new_logger_def)
  next
    case False
    with that have "named w m = Some k" by (simp add: sel)
    with lworld_wfD(9)[OF w this] fresh(2) show ?thesis by (auto simp: sel)
  qed
  ultimately have "lworld_wf w'"
    using w ne r(1) unfolding lworld_wf_alt
    by (auto simp: sel l_def less_Suc_eq split: if_splits)
  then show ?thesis by (simp add: w'_def)
qed

text \<open>Logging changes streams only.\<close>

definition same_tree :: "lworld \<Rightarrow> lworld \<Rightarrow> bool" where
  "same_tree w w' \<longleftrightarrow> loggers w' = loggers w \<and> appenders w' = appenders w \<and> next_obj w' = next_obj w \<and>
     rootLogger w' = rootLogger w \<and> named w' = named w"

lemma same_tree_wf: "same_tree w w' \<Longrightarrow> lworld_wf w' = lworld_wf w"
  by (simp add: same_tree_def lworld_wf_def parent_rel_def)

lemma appender_log_tree: "appender_log put_time e a w = Inr w' \<Longrightarrow> same_tree w w'"
  by (auto simp: appender_log_def res_bind_eq_Inr same_tree_def split: if_splits)

lemma log_all_tree: "log_all put_time e as w = Inr w' \<Longrightarrow> same_tree w w'"
proof (induction as arbitrary: w)
  case Nil
  then show ?case by (simp add: same_tree_def)
next
  case (Cons a as)
  then obtain w1 where "appender_log put_time e a w = Inr w1" "log_all put_time e as w1 = Inr w'"
    by (auto simp: res_bind_eq_Inr)
  with Cons.IH appender_log_tree show ?case by (fastforce simp: same_tree_def)
qed

text \<open>
  Where an event goes: \<open>delegates\<close> follows the parents of loggers that have no appender and
  let the event pass.
\<close>

inductive delegates :: "lworld \<Rightarrow> log_event \<Rightarrow> nat \<Rightarrow> nat \<Rightarrow> bool" for w e where
  here: "loggers w l = Some g \<Longrightarrow> lg_level g \<le> ev_level e \<Longrightarrow> appenderArray g \<noteq> [] \<Longrightarrow>
    delegates w e l l"
| up: "loggers w l = Some g \<Longrightarrow> lg_level g \<le> ev_level e \<Longrightarrow> appenderArray g = [] \<Longrightarrow>
    parent g = Some p \<Longrightarrow> delegates w e p t \<Longrightarrow> delegates w e l t"

lemma logger_log_delegates:
  assumes "delegates w e l t" "loggers w t = Some g"
  shows "logger_log put_time e l w = Some (log_all put_time e (appenderArray g) w)"
  using assms by (induction rule: delegates.induct) (auto simp: logger_log.simps)

lemma logger_log_cases:
  assumes "wf (parent_rel w)" "\<And>l g p. loggers w l = Some g \<Longrightarrow> parent g = Some p \<Longrightarrow> loggers w p \<noteq> None"
    and "loggers w l \<noteq> None"
  shows "logger_log put_time e l w = Some (Inr w) \<or> logger_log put_time e l w = Some (Inl Assert_failed) \<or>
    (\<exists>t. delegates w e l t)"
  using assms(1,3)
proof (induction l rule: wf_induct_rule)
  case (less l)
  then obtain g where g: "loggers w l = Some g" by blast
  show ?case
  proof (cases "lg_level g \<le> ev_level e \<and> appenderArray g = [] \<and> parent g \<noteq> None")
    case False
    with g show ?thesis
      by (auto simp: logger_log.simps[of put_time e l] intro: delegates.here)
  next
    case True
    then obtain p where p: "parent g = Some p" by blast
    then have "(p, l) \<in> parent_rel w" using g by (auto simp: parent_rel_def)
    from less.IH[OF this assms(2)[OF g p]] show ?thesis
      using True g p by (auto simp: logger_log.simps[of put_time e l] intro: delegates.up)
  qed
qed

lemma logger_log_returns:
  assumes "lworld_wf w" "loggers w l \<noteq> None"
  shows "logger_log put_time e l w = Some (Inr w) \<or> logger_log put_time e l w = Some (Inl Assert_failed) \<or>
    (\<exists>t. delegates w e l t)"
proof (rule logger_log_cases)
  show "wf (parent_rel w)" "loggers w l \<noteq> None" using lworld_wfD(1)[OF assms(1)] assms(2) by simp_all
  show "loggers w p \<noteq> None" if "loggers w k = Some g" "parent g = Some p" for k g p
    by (rule lworld_wfD(5)[OF assms(1) that])
qed

lemma delegates_target: "delegates w e l t \<Longrightarrow> \<exists>g. loggers w t = Some g \<and> appenderArray g \<noteq> []"
  by (induction rule: delegates.induct) auto

lemma logger_log_tree:
  assumes "lworld_wf w" "logger_log put_time e l w = Some (Inr w')"
  shows "same_tree w w'"
proof (cases "loggers w l")
  case None
  with assms(2) show ?thesis by (simp add: logger_log.simps)
next
  case (Some g)
  have ex: "loggers w l \<noteq> None" using Some by simp
  from logger_log_returns[OF assms(1) ex, of put_time e] show ?thesis
  proof (elim disjE exE)
    fix t assume t: "delegates w e l t"
    then obtain h where "loggers w t = Some h" using delegates_target by blast
    with logger_log_delegates[OF t] assms(2) log_all_tree show ?thesis by force
  qed (use assms(2) in \<open>auto simp: same_tree_def\<close>)
qed

section \<open>Runs of logger operations\<close>

text \<open>Formatters are handed over as objects, parents as loggers of the process or none.\<close>

datatype log_op =
    L_get string
  | L_remove string
  | L_set_parent nat "nat option"
  | L_set_level nat level
  | L_add_appender nat nat
  | L_clear nat
  | L_set_formatter nat formatter
  | A_new nat
  | A_set_formatter nat formatter
  | A_set_level nat level
  | L_log log_event nat

fun log_exec :: "(string \<Rightarrow> int \<Rightarrow> string option) \<Rightarrow> log_op \<Rightarrow> lworld \<Rightarrow> lworld res" where
  "log_exec pt (L_get n) w = res_bind (get_logger n w) (\<lambda>(_, w'). Inr w')"
| "log_exec pt (L_remove n) w = Inr (remove_logger n w)"
| "log_exec pt (L_set_parent l p) w =
     (case p of None \<Rightarrow> set_parent l None w
      | Some q \<Rightarrow> res_bind (deref (loggers w q)) (\<lambda>_. set_parent l p w))"
| "log_exec pt (L_set_level l v) w = logger_set_level l v w"
| "log_exec pt (L_add_appender l a) w = add_appender l a w"
| "log_exec pt (L_clear l) w = clear_all_appender l w"
| "log_exec pt (L_set_formatter l f) w = logger_set_formatter l (Some f) w"
| "log_exec pt (A_new s) w = Inr (snd (alloc_appender (new_appender s) w))"
| "log_exec pt (A_set_formatter a f) w = appender_set_formatter a (Some f) w"
| "log_exec pt (A_set_level a v) w = appender_set_level a v w"
| "log_exec pt (L_log e l) w = returns (logger_log pt e l w)"

lemma alloc_appender_wf:
  assumes w: "lworld_wf w" and p: "hasSpecialFormatter p \<Longrightarrow> ap_formatter p \<noteq> None"
  shows "lworld_wf (snd (alloc_appender p w))"
proof -
  define w' where "w' = snd (alloc_appender p w)"
  have none: "appenders w (next_obj w) = None"
    using lworld_wfD(7)[OF w, of "next_obj w"] by (cases "appenders w (next_obj w)") auto
  have sel: "loggers w' = loggers w" "appenders w' = (appenders w)(next_obj w \<mapsto> p)"
      "next_obj w' = Suc (next_obj w)" "rootLogger w' = rootLogger w" "named w' = named w"
    by (simp_all add: w'_def alloc_appender_def)
  have rel: "parent_rel w' = parent_rel w" by (rule parent_rel_cong) (simp add: sel)
  have ok: "logger_ok w' g" if "logger_ok w g" for g
    using that none by (auto simp: logger_ok_def sel)
  have "lworld_wf w'"
    using w p ok unfolding lworld_wf_alt rel
    by (auto simp: sel less_Suc_eq split: if_splits)
  then show ?thesis by (simp add: w'_def)
qed

lemma simple_logger_update_wf:
  assumes w: "lworld_wf w" and g: "loggers w l = Some g" and g': "lg_name g' = lg_name g"
    "lg_formatter g' = lg_formatter g" "parent g' = parent g" "set (appenderArray g') \<subseteq> set (appenderArray g)"
  shows "lworld_wf (put_logger l g' w)"
proof (rule put_logger_same_parent_wf[OF w g g'(1) _ g'(3)])
  have "logger_ok w g" using w g by (auto simp: lworld_wf_alt)
  with g' show "logger_ok w g'" by (auto simp: logger_ok_def)
qed

lemma drop_named_wf:
  assumes w: "lworld_wf w"
  shows "lworld_wf (drop_named n w)"
proof -
  have rel: "parent_rel (drop_named n w) = parent_rel w" by (rule parent_rel_cong) simp
  have "logger_ok (drop_named n w) g" if "logger_ok w g" for g using that by (simp add: logger_ok_def)
  then show ?thesis using w unfolding lworld_wf_alt rel by (auto split: if_splits)
qed

lemma log_exec_wf:
  assumes w: "lworld_wf w" and r: "log_exec pt x w = Inr w'"
  shows "lworld_wf w'"
proof (cases x)
  case (L_get n)
  with r show ?thesis
    using init_logger_spec[OF w, of n] with_logger_wf[OF w, of n] w
    by (auto simp: get_logger_def split: option.splits)
next
  case (L_remove n)
  with r drop_named_wf[OF w] show ?thesis by (auto simp: remove_logger_def)
next
  case (L_set_parent l p)
  with r set_parent_wf[OF w] show ?thesis by (auto simp: res_bind_eq_Inr split: option.splits)
next
  case (L_set_level l v)
  with r simple_logger_update_wf[OF w] show ?thesis
    by (auto simp: logger_set_level_def res_bind_eq_Inr)
next
  case (L_add_appender l a)
  with r add_appender_wf[OF w] show ?thesis by simp
next
  case (L_clear l)
  with r simple_logger_update_wf[OF w] show ?thesis
    by (auto simp: clear_all_appender_def res_bind_eq_Inr)
next
  case (L_set_formatter l f)
  with r logger_set_formatter_wf[OF w] show ?thesis by simp
next
  case (A_new s)
  with r alloc_appender_wf[OF w, of "new_appender s"] show ?thesis by (auto simp: new_appender_def)
next
  case (A_set_formatter a f)
  with r put_appender_wf[OF w] show ?thesis
    by (auto simp: appender_set_formatter_def res_bind_eq_Inr)
next
  case (A_set_level a v)
  with r obtain p where p: "appenders w a = Some p" "w' = put_appender a (p\<lparr>ap_level := v\<rparr>) w"
    by (auto simp: appender_set_level_def res_bind_eq_Inr)
  show ?thesis
  proof (cases "ap_formatter p")
    case (Some f)
    then show ?thesis unfolding p(2) by (intro put_appender_wf[OF w p(1)]) simp
  next
    case None
    then have n: "\<not> hasSpecialFormatter p" using lworld_wfD(8)[OF w p(1)] by auto
    have rel: "parent_rel w' = parent_rel w" unfolding p(2) by (rule parent_rel_cong) simp
    have "logger_ok w' g" if "logger_ok w g" for g
      using that p None by (auto simp: logger_ok_def)
    then show ?thesis
      using w p n unfolding lworld_wf_alt rel by (auto split: if_splits)
  qed
next
  case (L_log e l)
  with r have "logger_log pt e l w = Some (Inr w')" by simp
  from same_tree_wf[OF logger_log_tree[OF w this]] w show ?thesis by simp
qed

interpretation logger_calls: guarded_system "log_exec pt" lworld_wf for pt
  by unfold_locales (rule log_exec_wf)

section \<open>What an event leaves in the streams\<close>

definition line_of ::
  "(string \<Rightarrow> int \<Rightarrow> string option) \<Rightarrow> log_event \<Rightarrow> lworld \<Rightarrow> nat \<Rightarrow> nat \<Rightarrow> string" where
  "line_of put_time e w s a =
     (case appenders w a of
        Some p \<Rightarrow>
          if targetOutStream p = s \<and> ap_level p \<le> ev_level e then
            concat (map (shown put_time (logger_name w) e) (the (ap_formatter p)))
          else []
      | None \<Rightarrow> [])"

text \<open>An event that no formatter can fail on: it has its logger and its file name.\<close>

definition traced :: "log_event \<Rightarrow> bool" where
  "traced e \<longleftrightarrow> trigger e \<noteq> None \<and> file_name e \<noteq> None"

lemma appender_log_eq:
  assumes "traced e" "appenders w a = Some p" "ap_formatter p \<noteq> None"
  shows "\<exists>w'. appender_log put_time e a w = Inr w' \<and> same_tree w w' \<and>
    streams w' = (\<lambda>s. streams w s @ line_of put_time e w s a)"
proof -
  obtain f where f: "ap_formatter p = Some f" using assms(3) by blast
  have c: "complete_for e f" using assms(1) by (simp add: traced_def complete_for_def)
  show ?thesis
    using assms(2) f c
    by (auto simp: appender_log_def format_event_eq same_tree_def line_of_def fun_eq_iff)
qed

lemma line_of_tree: "same_tree w w' \<Longrightarrow> line_of put_time e w' s a = line_of put_time e w s a"
proof -
  assume t: "same_tree w w'"
  then have "logger_name w' = logger_name w" by (simp add: same_tree_def logger_name_def fun_eq_iff)
  with t show ?thesis by (cases "appenders w a") (simp_all add: line_of_def same_tree_def)
qed

lemma log_all_eq:
  assumes "traced e" "\<forall>a\<in>set as. \<exists>p. appenders w a = Some p \<and> ap_formatter p \<noteq> None"
  shows "\<exists>w'. log_all put_time e as w = Inr w' \<and> same_tree w w' \<and>
    streams w' = (\<lambda>s. streams w s @ concat (map (line_of put_time e w s) as))"
  using assms(2)
proof (induction as arbitrary: w)
  case Nil
  then show ?case by (simp add: same_tree_def)
next
  case (Cons a as)
  then obtain p where "appenders w a = Some p" "ap_formatter p \<noteq> None" by auto
  from appender_log_eq[OF assms(1) this] obtain w1 where w1: "appender_log put_time e a w = Inr w1"
      "same_tree w w1" "streams w1 = (\<lambda>s. streams w s @ line_of put_time e w s a)"
    by blast
  have "\<forall>a\<in>set as. \<exists>p. appenders w1 a = Some p \<and> ap_formatter p \<noteq> None"
    using Cons.prems w1(2) by (simp add: same_tree_def)
  from Cons.IH[OF this] obtain w2 where w2: "log_all put_time e as w1 = Inr w2" "same_tree w1 w2"
      "streams w2 = (\<lambda>s. streams w1 s @ concat (map (line_of put_time e w1 s) as))"
    by blast
  have "same_tree w w2" using w1(2) w2(2) by (simp add: same_tree_def)
  moreover have "line_of put_time e w1 s = line_of put_time e w s" for s
    by (rule ext) (rule line_of_tree[OF w1(2)])
  ultimately show ?case
    using w1(1,3) w2(1,3) by simp
qed

section \<open>Properties\<close>

definition root_world :: lworld where
  "root_world = \<lparr>loggers = [0 \<mapsto> \<lparr>lg_name = root_name, lg_level = kDebug, appenderArray = [1],
        lg_formatter = Some root_items, parent = None\<rparr>],
     appenders = [1 \<mapsto> \<lparr>ap_level = kUnKnown, hasSpecialFormatter = False,
        ap_formatter = Some root_items, targetOutStream = 0\<rparr>],
     streams = (\<lambda>_. []), next_obj = 2, rootLogger = 0, named = [root_name \<mapsto> 0]\<rparr>"

lemma root_formatter: "new_formatter root_pattern = Inr root_items"
proof -
  have "concat (map render root_items) = root_pattern"
    by (simp add: root_items_def root_pattern_def)
  moreover have "canonical root_items" by (simp add: root_items_def)
  ultimately show ?thesis
    using parse_render[of root_items] by (simp add: new_formatter_parse)
qed

lemma new_logger_manager_eq: "new_logger_manager = Inr root_world"
  by (simp add: new_logger_manager_def root_formatter alloc_logger_def empty_lworld_def new_logger_def
      logger_set_formatter_def alloc_appender_def new_appender_def add_appender_def Let_def
      put_logger_def put_appender_def put_named_def root_world_def)

lemma root_world_wf: "lworld_wf root_world"
proof -
  have "parent_rel root_world = {}" by (auto simp: parent_rel_def root_world_def split: if_splits)
  then show ?thesis
    by (auto simp: lworld_wf_def root_world_def root_name_def split: if_splits)
qed

text \<open>
  C26: Whatever is done to the loggers of a process (looking up and removing loggers, setting
  parents, levels, formatters and appenders, logging), in any order, as long as the calls
  return: the parents form no cycle, every logger and every attached appender keeps a
  formatter, and every registered name is its logger's name.
\<close>

theorem logger_calls_keep_tree:
  assumes "new_logger_manager = Inr w0" "run_ops (log_exec put_time) ops w0 = Inr w"
  shows "lworld_wf w"
  using assms(1) logger_calls.run_ops_inv[OF root_world_wf, of put_time ops w] assms(2)
  by (simp add: new_logger_manager_eq)

theorem logger_calls_keep_tree_witness:
  "\<exists>w. run_ops (log_exec (\<lambda>_ _. None)) [L_get ''a'', L_get ''b'', L_remove ''a''] root_world = Inr w \<and>
     lworld_wf w"
proof -
  have "named root_world ''a'' = None" by (simp add: root_world_def root_name_def)
  note a = init_logger_spec[OF root_world_wf this] with_logger_wf[OF root_world_wf this]
  have "named (with_logger ''a'' root_world) ''b'' = None"
    by (simp add: root_world_def root_name_def with_logger_def put_named_def put_logger_def)
  note b = init_logger_spec[OF a(2) this]
  have "\<exists>w. run_ops (log_exec (\<lambda>_ _. None)) [L_get ''a'', L_get ''b'', L_remove ''a''] root_world = Inr w"
    using \<open>named root_world ''a'' = None\<close> \<open>named (with_logger ''a'' root_world) ''b'' = None\<close> a b
    by (simp add: get_logger_def)
  with logger_calls_keep_tree[OF new_logger_manager_eq] show ?thesis by blast
qed

text \<open>
  \<^verbatim>\<open>SetParent\<close> refuses a parent exactly if the logger is that parent or one of its
  ancestors, with \<^verbatim>\<open>std::runtime_error\<close>, and otherwise changes this logger's parent and
  nothing else.
\<close>

theorem set_parent_refuses_cycles:
  assumes "lworld_wf w" "loggers w l = Some g" "loggers w p \<noteq> None"
  shows "set_parent l (Some p) w =
    (if (l, p) \<in> {(x, y). \<exists>h. loggers w y = Some h \<and> parent h = Some x}\<^sup>*
     then Inl (Thrown Runtime_error)
     else Inr (w\<lparr>loggers := (loggers w)(l \<mapsto> g\<lparr>parent := Some p\<rparr>)\<rparr>))"
  using set_parent_spec[OF assms] by (simp add: parent_rel_def put_logger_def)

theorem set_parent_refuses_cycles_witness:
  "set_parent 0 (Some 0) root_world = Inl (Thrown Runtime_error)"
  using set_parent_refuses_cycles[OF root_world_wf, of 0 _ 0] by (simp add: root_world_def)

text \<open>
  An event that carries its logger and its file name, logged through any logger of the
  process, is written exactly once to each appender of the nearest logger up the parents that
  has appenders, if it passes the levels of the loggers on the way: each stream receives the
  formatted lines of its appenders whose level the event passes, in the order the appenders
  were added, and nothing else changes.
\<close>

theorem event_reaches_nearest_appenders:
  assumes "lworld_wf w" "delegates w e l t" "loggers w t = Some g" "traced e"
  shows "\<exists>w'. logger_log put_time e l w = Some (Inr w') \<and>
    (\<forall>s. streams w' s = streams w s @ concat (map (line_of put_time e w s) (appenderArray g))) \<and>
    loggers w' = loggers w \<and> appenders w' = appenders w"
proof -
  have "\<forall>a\<in>set (appenderArray g). \<exists>p. appenders w a = Some p \<and> ap_formatter p \<noteq> None"
    using lworld_wfD(6)[OF assms(1,3)] by blast
  from log_all_eq[OF assms(4) this] logger_log_delegates[OF assms(2,3)] show ?thesis
    by (fastforce simp: same_tree_def)
qed

theorem event_reaches_nearest_appenders_witness:
  "\<exists>w'. logger_log (\<lambda>_ _. None) (orphan_event\<lparr>trigger := Some 2\<rparr>) 2 (with_logger ''a'' root_world) =
     Some (Inr w') \<and> streams w' 1 = []"
proof -
  define w where "w = with_logger ''a'' root_world"
  have none: "named root_world ''a'' = None" by (simp add: root_world_def root_name_def)
  have wf: "lworld_wf w" unfolding w_def by (rule with_logger_wf[OF root_world_wf none])
  have lg: "loggers w 2 = Some (fresh_logger ''a'' root_world)"
      "loggers w 0 = loggers root_world 0" "appenders w = appenders root_world" "streams w = (\<lambda>_. [])"
    by (simp_all add: w_def with_logger_def put_named_def put_logger_def root_world_def)
  define e where "e = orphan_event\<lparr>trigger := Some 2\<rparr>"
  have lv: "ev_level e = kInfo" "kDebug \<le> kInfo" "traced e"
    by (simp_all add: e_def orphan_event_def less_eq_level_def traced_def)
  have root: "loggers w 0 = Some \<lparr>lg_name = root_name, lg_level = kDebug, appenderArray = [1],
        lg_formatter = Some root_items, parent = None\<rparr>"
    by (simp add: lg(2)) (simp add: root_world_def)
  have "delegates w e 0 0" by (rule delegates.here[OF root]) (simp_all add: lv)
  then have d: "delegates w e 2 0"
    by (rule delegates.up[OF lg(1), rotated 3])
       (simp_all add: fresh_logger_def new_logger_def lv root_world_def)
  have "line_of (\<lambda>_ _. None) e w 1 1 = []"
    by (simp add: line_of_def lg(3)) (simp add: root_world_def)
  with event_reaches_nearest_appenders[OF wf d root lv(3), of "\<lambda>_ _. None"] show ?thesis
    unfolding w_def[symmetric] e_def[symmetric] by (auto simp: lg(4))
qed

text \<open>
  Logging ends for every logger and event of a process whose loggers form no cycle: the
  event is dropped by a level, reaches appenders, or meets the assertion that a logger without
  appenders has a parent.
\<close>

theorem logging_terminates:
  assumes "lworld_wf w" "loggers w l \<noteq> None"
  shows "logger_log put_time e l w \<noteq> None"
proof -
  from logger_log_returns[OF assms, of put_time e] show ?thesis
  proof (elim disjE exE)
    fix t assume t: "delegates w e l t"
    then obtain h where "loggers w t = Some h" using delegates_target by blast
    with logger_log_delegates[OF t] show ?thesis by simp
  qed simp_all
qed

theorem logging_terminates_witness:
  "logger_log (\<lambda>_ _. None) orphan_event 0 root_world \<noteq> None"
  by (rule logging_terminates[OF root_world_wf]) (simp add: root_world_def)

text \<open>
  The direct calls of a logger (\<^verbatim>\<open>Debug\<close>, \<^verbatim>\<open>Info\<close>, \<^verbatim>\<open>Warn\<close>, \<^verbatim>\<open>Error\<close>, \<^verbatim>\<open>Fatal\<close>) do not
  record the logger in the event, so on a fresh manager's root logger, whose pattern shows the
  logger's name, every one of them aborts the process.
\<close>

theorem direct_calls_abort:
  "\<forall>lv\<in>{kDebug, kInfo, kWarn, kError, kFatal}. \<forall>w. new_logger_manager = Inr w \<longrightarrow>
     logger_print put_time lv now tid msg (rootLogger w) w = Inl Assert_failed"
proof -
  have "logger_print put_time lv now tid msg 0 root_world = Inl Assert_failed" if "kDebug \<le> lv" for lv
    using that
    by (simp add: logger_print_def logger_log.simps[of put_time _ 0] root_world_def new_log_event_def
        appender_log_def format_event_eq complete_for_def root_items_def)
  then show ?thesis
    by (auto simp: new_logger_manager_eq less_eq_level_def) (simp_all add: root_world_def)
qed

theorem direct_calls_abort_witness:
  "logger_print (\<lambda>_ _. None) kInfo 0 1 ''hi'' 0 root_world = Inl Assert_failed"
proof -
  have "rootLogger root_world = 0" by (simp add: root_world_def)
  with direct_calls_abort[of "\<lambda>_ _. None" 0 1 "''hi''"] show ?thesis
    by (simp add: new_logger_manager_eq)
qed

end
