(* ===== verification/Log_Config.thy ===== *)
theory Log_Config
  imports Loggers Config "HOL-Library.Countable"
begin

text \<open>
  The configuration of loggers (the second half of \<^verbatim>\<open>base/log.cpp\<close>): the definitions of
  loggers and appenders, their conversions from and to YAML, the loggers made from them, and
  the monitor of the variable \<open>loggers\<close> that keeps the logger manager in step with it. Whether
  a log file can be opened is a parameter; each file appender has a stream of its own. The
  order in which a hash set is iterated is the order of a list.
\<close>

section \<open>Definitions of loggers and appenders\<close>

record appender_define =
  ad_level :: level
  ad_pattern :: string
  ad_type :: string
  ad_meta :: string

record logger_define =
  ld_name :: string
  ld_level :: level
  ld_pattern :: string
  appender_defs :: "appender_define list"

text \<open>A field that is defined and a scalar.\<close>

definition scalar_at :: "string \<Rightarrow> (ynode \<times> ynode) list \<Rightarrow> string option" where
  "scalar_at k ps = (case node_get k ps of Some (Y_scalar s) \<Rightarrow> Some s | _ \<Rightarrow> None)"

definition scalar_or_empty :: "string \<Rightarrow> (ynode \<times> ynode) list \<Rightarrow> string" where
  "scalar_or_empty k ps = (case scalar_at k ps of Some s \<Rightarrow> s | None \<Rightarrow> [])"

definition level_at :: "(ynode \<times> ynode) list \<Rightarrow> level" where
  "level_at ps = (case scalar_at ''level'' ps of Some s \<Rightarrow> level_from_string s | None \<Rightarrow> kUnKnown)"

definition mapping_of :: "yaml \<Rightarrow> string \<Rightarrow> (ynode \<times> ynode) list res" where
  "mapping_of Y s =
     res_bind (load Y s) (\<lambda>n. case n of Y_map ps \<Rightarrow> Inr ps | _ \<Rightarrow> Inl (Thrown Logic_error))"

definition appender_from_str :: "yaml \<Rightarrow> string \<Rightarrow> appender_define res" where
  "appender_from_str Y s =
     res_bind (mapping_of Y s) (\<lambda>ps.
     if scalar_or_empty ''type'' ps = [] then Inl (Thrown Logic_error)
     else if scalar_or_empty ''meta'' ps = [] then Inl (Thrown Logic_error)
     else Inr \<lparr>ad_level = level_at ps, ad_pattern = scalar_or_empty ''format_pattern'' ps,
               ad_type = scalar_or_empty ''type'' ps, ad_meta = scalar_or_empty ''meta'' ps\<rparr>)"

definition appender_to_str :: "yaml \<Rightarrow> appender_define \<Rightarrow> string res" where
  "appender_to_str Y d =
     Inr (emit Y (Y_map (node_put ''level'' (Y_scalar (level_to_string (ad_level d)))
       (node_put ''format_pattern'' (Y_scalar (ad_pattern d)) []))))"

definition appender_cast :: "yaml \<Rightarrow> appender_define cast" where
  "appender_cast Y = \<lparr>from_str = appender_from_str Y, to_str = appender_to_str Y\<rparr>"

definition logger_from_str :: "yaml \<Rightarrow> string \<Rightarrow> logger_define res" where
  "logger_from_str Y s =
     res_bind (mapping_of Y s) (\<lambda>ps.
     case scalar_at ''name'' ps of
       None \<Rightarrow> Inl (Thrown Logic_error)
     | Some n \<Rightarrow>
         res_bind
           (case node_get ''appenders'' ps of
              None \<Rightarrow> Inr []
            | Some a \<Rightarrow> from_str (vector_cast Y (appender_cast Y)) (emit Y a)) (\<lambda>as.
         Inr \<lparr>ld_name = n, ld_level = level_at ps, ld_pattern = scalar_or_empty ''format_pattern'' ps,
              appender_defs = as\<rparr>))"

definition logger_to_str :: "yaml \<Rightarrow> logger_define \<Rightarrow> string res" where
  "logger_to_str Y d =
     (let ps1 = node_put ''name'' (Y_scalar (ld_name d)) [];
          ps2 = (if ld_level d \<noteq> kUnKnown
                 then node_put ''level'' (Y_scalar (level_to_string (ld_level d))) ps1 else ps1);
          ps3 = node_put ''format_pattern'' (Y_scalar (ld_pattern d)) ps2 in
      res_bind (item_node Y (vector_cast Y (appender_cast Y)) (appender_defs d)) (\<lambda>a.
      Inr (emit Y (Y_map (node_put ''appenders'' a ps3)))))"

definition logger_cast :: "yaml \<Rightarrow> logger_define cast" where
  "logger_cast Y = \<lparr>from_str = logger_from_str Y, to_str = logger_to_str Y\<rparr>"

section \<open>Making the objects\<close>

definition and_then :: "'s outcome \<Rightarrow> ('s \<Rightarrow> 's outcome) \<Rightarrow> 's outcome" where
  "and_then r f = (case r of (None, s) \<Rightarrow> f s | (Some e, s) \<Rightarrow> (Some e, s))"

text \<open>A step that changes nothing when it fails.\<close>

definition attempt :: "('s \<Rightarrow> 's res) \<Rightarrow> 's \<Rightarrow> 's outcome" where
  "attempt f s = (case f s of Inl e \<Rightarrow> (Some e, s) | Inr s' \<Rightarrow> (None, s'))"

text \<open>The constructor of \<^verbatim>\<open>FileStreamLogAppender\<close>; whether the file opens is a parameter.\<close>

definition file_stream_log_appender :: "(string \<Rightarrow> bool) \<Rightarrow> string \<Rightarrow> lworld \<Rightarrow> (nat \<times> lworld) res" where
  "file_stream_log_appender opens filename w =
     (if opens filename then Inr (alloc_appender (new_appender (next_obj w + 2)) w)
      else Inl (Thrown Runtime_error))"

text \<open>
  The first half of \<^verbatim>\<open>LogAppenderDefine::GenerateInstance\<close>: \<open>None\<close> is an early return of the null
  pointer. For a console appender with any other meta text the pointer stays null, and the
  second half goes on with it.
\<close>

definition create_appender ::
  "(string \<Rightarrow> bool) \<Rightarrow> appender_define \<Rightarrow> lworld \<Rightarrow> (nat option \<times> lworld) option" where
  "create_appender opens d w =
     (let make = (\<lambda>s. case alloc_appender (new_appender s) w of (a, w') \<Rightarrow> Some (Some a, w')) in
      if ad_type d = ''console'' then
        (if ad_meta d = ''out'' then make 0
         else if ad_meta d = ''error'' then make 1
         else Some (None, w))
      else if ad_type d = ''file'' then
        (case file_stream_log_appender opens (ad_meta d) w of
           Inr (a, w') \<Rightarrow> Some (Some a, w')
         | Inl _ \<Rightarrow> None)
      else None)"

definition generate_appender ::
  "(string \<Rightarrow> bool) \<Rightarrow> appender_define \<Rightarrow> lworld \<Rightarrow> (nat option \<times> lworld) res" where
  "generate_appender opens d w =
     (case create_appender opens d w of
        None \<Rightarrow> Inr (None, w)
      | Some (result, w1) \<Rightarrow>
          res_bind
            (if ad_pattern d \<noteq> [] then
               res_bind (new_formatter (ad_pattern d)) (\<lambda>f.
               res_bind (deref result) (\<lambda>a. appender_set_formatter a (Some f) w1))
             else Inr w1) (\<lambda>w2.
          res_bind (deref result) (\<lambda>a.
          res_bind (appender_set_level a (ad_level d) w2) (\<lambda>w3. Inr (Some a, w3)))))"

fun add_generated ::
  "(string \<Rightarrow> bool) \<Rightarrow> nat \<Rightarrow> appender_define list \<Rightarrow> lworld \<Rightarrow> lworld outcome" where
  "add_generated opens l [] w = (None, w)"
| "add_generated opens l (d # ds) w =
     (case generate_appender opens d w of
        Inl e \<Rightarrow> (Some e, w)
      | Inr (None, w1) \<Rightarrow> add_generated opens l ds w1
      | Inr (Some a, w1) \<Rightarrow> and_then (attempt (add_appender l a) w1) (add_generated opens l ds))"

definition choose_formatter :: "logger_define \<Rightarrow> nat \<Rightarrow> lworld \<Rightarrow> lworld res" where
  "choose_formatter d l w =
     (if ld_pattern d = [] then
        res_bind (get_logger root_name w) (\<lambda>(r, w1).
        res_bind (get_formatter r w1) (\<lambda>f. logger_set_formatter l f w1))
      else
        res_bind (new_formatter (ld_pattern d)) (\<lambda>f. logger_set_formatter l (Some f) w))"

definition generate_logger ::
  "(string \<Rightarrow> bool) \<Rightarrow> logger_define \<Rightarrow> lworld \<Rightarrow> lworld outcome" where
  "generate_logger opens d w =
     (if ld_name d = [] then (Some Assert_failed, w)
      else
        (case get_logger (ld_name d) w of
           Inl e \<Rightarrow> (Some e, w)
         | Inr (l, w1) \<Rightarrow>
             and_then (attempt (logger_set_level l (ld_level d)) w1) (\<lambda>w2.
             and_then (attempt (choose_formatter d l) w2) (\<lambda>w3.
             and_then (attempt (clear_all_appender l) w3) (\<lambda>w4.
             add_generated opens l (appender_defs d) w4)))))"

section \<open>The monitor\<close>

fun generate_new ::
  "(string \<Rightarrow> bool) \<Rightarrow> logger_define list \<Rightarrow> logger_define list \<Rightarrow> lworld \<Rightarrow> lworld outcome" where
  "generate_new opens old [] w = (None, w)"
| "generate_new opens old (d # ds) w =
     (if d \<in> set old then generate_new opens old ds w
      else and_then (generate_logger opens d w) (generate_new opens old ds))"

fun remove_missing :: "logger_define list \<Rightarrow> logger_define list \<Rightarrow> lworld \<Rightarrow> lworld" where
  "remove_missing now [] w = w"
| "remove_missing now (d # ds) w =
     remove_missing now ds
       (if ld_name d \<in> ld_name ` set now then w else remove_logger (ld_name d) w)"

definition log_monitor ::
  "(string \<Rightarrow> bool) \<Rightarrow> logger_define list \<Rightarrow> logger_define list \<Rightarrow> lworld \<Rightarrow> lworld outcome" where
  "log_monitor opens old now w =
     and_then (generate_new opens old now w) (\<lambda>w1. (None, remove_missing now old w1))"

section \<open>What making a logger touches\<close>

lemma and_then_None [simp]: "and_then (None, s) f = f s"
  by (simp add: and_then_def)

lemma and_then_Some [simp]: "and_then (Some e, s) f = (Some e, s)"
  by (simp add: and_then_def)

lemma attempt_Inr [simp]: "f s = Inr s' \<Longrightarrow> attempt f s = (None, s')"
  by (simp add: attempt_def)

definition attached :: "lworld \<Rightarrow> nat \<Rightarrow> nat set" where
  "attached w l = (case loggers w l of Some g \<Rightarrow> set (appenderArray g) | None \<Rightarrow> {})"

text \<open>
  From \<open>w\<close> to \<open>w'\<close> at most the logger \<open>l\<close>, the appenders attached to it, and new objects
  differ; new loggers have no appenders, and \<open>l\<close> is given new appenders only.
\<close>

definition touches :: "nat \<Rightarrow> lworld \<Rightarrow> lworld \<Rightarrow> bool" where
  "touches l w w' \<longleftrightarrow>
     next_obj w \<le> next_obj w' \<and> rootLogger w' = rootLogger w \<and>
     (\<forall>n k. named w n = Some k \<longrightarrow> named w' n = Some k) \<and>
     (\<forall>k g. k \<noteq> l \<longrightarrow> loggers w k = Some g \<longrightarrow> loggers w' k = Some g) \<and>
     (\<forall>k. k \<noteq> l \<longrightarrow> attached w' k = attached w k) \<and>
     attached w' l \<subseteq> attached w l \<union> {a. next_obj w \<le> a} \<and>
     (\<forall>a. a < next_obj w \<longrightarrow> a \<notin> attached w l \<longrightarrow> appenders w' a = appenders w a)"

lemma touches_refl: "touches l w w"
  by (simp add: touches_def)

lemma touchesD:
  assumes "touches l w w'"
  shows "next_obj w \<le> next_obj w'" "rootLogger w' = rootLogger w"
    and "named w n = Some k \<Longrightarrow> named w' n = Some k"
    and "k \<noteq> l \<Longrightarrow> loggers w k = Some g \<Longrightarrow> loggers w' k = Some g"
    and "k \<noteq> l \<Longrightarrow> attached w' k = attached w k"
    and "attached w' l \<subseteq> attached w l \<union> {a. next_obj w \<le> a}"
    and "a < next_obj w \<Longrightarrow> a \<notin> attached w l \<Longrightarrow> appenders w' a = appenders w a"
  using assms unfolding touches_def by blast+

lemma touches_trans:
  assumes t1: "touches l w1 w2" and t2: "touches l w2 w3"
  shows "touches l w1 w3"
proof -
  note n = touchesD(1)[OF t1] touchesD(1)[OF t2]
  have "attached w3 l \<subseteq> attached w1 l \<union> {a. next_obj w1 \<le> a}"
    using touchesD(6)[OF t1] touchesD(6)[OF t2] n by fastforce
  moreover have "appenders w3 a = appenders w1 a" if a: "a < next_obj w1" "a \<notin> attached w1 l" for a
  proof -
    have "a \<notin> attached w2 l" using a touchesD(6)[OF t1] by fastforce
    then show ?thesis using touchesD(7)[OF t1 a] touchesD(7)[OF t2, of a] a n by simp
  qed
  ultimately show ?thesis
    unfolding touches_def
    using n touchesD(2,3,4,5)[OF t1] touchesD(2,3,4,5)[OF t2] by auto
qed

lemma put_logger_touches:
  "loggers w l = Some g \<Longrightarrow> set (appenderArray g') \<subseteq> set (appenderArray g) \<union> {a. next_obj w \<le> a} \<Longrightarrow>
   touches l w (put_logger l g' w)"
  by (auto simp: touches_def attached_def)

lemma get_logger_touches:
  assumes "lworld_wf w"
  shows "\<exists>l w'. get_logger n w = Inr (l, w') \<and> lworld_wf w' \<and> named w' n = Some l \<and> (\<forall>k. touches k w w') \<and>
    (\<forall>j g. loggers w j = Some g \<longrightarrow> loggers w' j = Some g) \<and>
    attached w' = attached w \<and> appenders w' = appenders w"
proof (cases "named w n")
  case None
  have "loggers w (next_obj w) = None"
    using lworld_wfD(3)[OF assms, of "next_obj w"] by (cases "loggers w (next_obj w)") auto
  then show ?thesis
    using None init_logger_spec[OF assms None] with_logger_wf[OF assms None]
    by (auto simp: get_logger_def with_logger_def touches_def attached_def fresh_logger_def
        new_logger_def fun_eq_iff)
next
  case (Some l)
  with assms show ?thesis by (simp add: get_logger_def touches_refl)
qed

lemma give_formatter_touches:
  assumes "\<forall>a\<in>set as. appenders w a \<noteq> None"
  shows "\<exists>w'. give_formatter f as w = Inr w' \<and> loggers w' = loggers w \<and> named w' = named w \<and>
    next_obj w' = next_obj w \<and> rootLogger w' = rootLogger w \<and>
    (\<forall>a. a \<notin> set as \<longrightarrow> appenders w' a = appenders w a)"
  using assms
proof (induction as arbitrary: w)
  case Nil
  then show ?case by simp
next
  case (Cons a as)
  from Cons.prems obtain p where p: "appenders w a = Some p" by auto
  define w1 where "w1 = (if \<not> hasSpecialFormatter p
    then put_appender a (p\<lparr>ap_formatter := f, hasSpecialFormatter := False\<rparr>) w else w)"
  have "\<forall>b\<in>set as. appenders w1 b \<noteq> None" using Cons.prems by (auto simp: w1_def)
  from Cons.IH[OF this] obtain w' where "give_formatter f as w1 = Inr w'" "loggers w' = loggers w1"
    "named w' = named w1" "next_obj w' = next_obj w1" "rootLogger w' = rootLogger w1"
    "\<forall>b. b \<notin> set as \<longrightarrow> appenders w' b = appenders w1 b" by blast
  with p show ?case by (intro exI[of _ w']) (auto simp: w1_def)
qed

lemma set_formatter_touches:
  assumes w: "lworld_wf w" and g: "loggers w l = Some g"
  shows "\<exists>w'. logger_set_formatter l (Some f) w = Inr w' \<and> lworld_wf w' \<and> touches l w w' \<and>
    loggers w' l = Some (g\<lparr>lg_formatter := Some f\<rparr>) \<and> named w' = named w"
proof -
  let ?w1 = "put_logger l (g\<lparr>lg_formatter := Some f\<rparr>) w"
  have "\<forall>a\<in>set (appenderArray g). appenders ?w1 a \<noteq> None"
    using lworld_wfD(6)[OF w g] by fastforce
  from give_formatter_touches[OF this, of "Some f"] obtain w' where
    w': "give_formatter (Some f) (appenderArray g) ?w1 = Inr w'" "loggers w' = loggers ?w1"
      "named w' = named ?w1" "next_obj w' = next_obj ?w1" "rootLogger w' = rootLogger ?w1"
      "\<forall>a. a \<notin> set (appenderArray g) \<longrightarrow> appenders w' a = appenders ?w1 a" by blast
  then have r: "logger_set_formatter l (Some f) w = Inr w'"
    using g by (simp add: logger_set_formatter_def)
  have "touches l w w'" using w' g by (auto simp: touches_def attached_def)
  with r logger_set_formatter_wf[OF w r] w' show ?thesis by auto
qed

section \<open>What a definition asks for\<close>

definition pattern_ok :: "string \<Rightarrow> bool" where
  "pattern_ok p \<longleftrightarrow> (p = [] \<or> \<not> isl (new_formatter p))"

definition openable :: "(string \<Rightarrow> bool) \<Rightarrow> appender_define \<Rightarrow> bool" where
  "openable opens d \<longleftrightarrow> ad_type d = ''console'' \<or> (ad_type d = ''file'' \<and> opens (ad_meta d))"

definition sound_appender :: "appender_define \<Rightarrow> bool" where
  "sound_appender d \<longleftrightarrow> pattern_ok (ad_pattern d) \<and>
     (ad_type d = ''console'' \<longrightarrow> ad_meta d = ''out'' \<or> ad_meta d = ''error'')"

definition sound_logger :: "logger_define \<Rightarrow> bool" where
  "sound_logger d \<longleftrightarrow> ld_name d \<noteq> [] \<and> pattern_ok (ld_pattern d) \<and>
     list_all sound_appender (appender_defs d)"

definition appender_matches :: "lworld \<Rightarrow> formatter option \<Rightarrow> appender_define \<Rightarrow> nat \<Rightarrow> bool" where
  "appender_matches w f d a \<longleftrightarrow> (\<exists>p. appenders w a = Some p \<and> ap_level p = ad_level d \<and>
     hasSpecialFormatter p = (ad_pattern d \<noteq> []) \<and>
     ap_formatter p = (if ad_pattern d = [] then f else Some (projr (new_formatter (ad_pattern d)))) \<and>
     (if ad_type d = ''console'' then targetOutStream p = (if ad_meta d = ''out'' then 0 else 1)
      else 2 \<le> targetOutStream p))"

definition logger_matches :: "(string \<Rightarrow> bool) \<Rightarrow> lworld \<Rightarrow> logger_define \<Rightarrow> bool" where
  "logger_matches opens w d \<longleftrightarrow> (\<exists>l g. named w (ld_name d) = Some l \<and> loggers w l = Some g \<and>
     lg_level g = ld_level d \<and>
     (ld_pattern d \<noteq> [] \<longrightarrow> lg_formatter g = Some (projr (new_formatter (ld_pattern d)))) \<and>
     list_all2 (appender_matches w (lg_formatter g)) (filter (openable opens) (appender_defs d))
       (appenderArray g))"

definition console_stream :: "appender_define \<Rightarrow> nat" where
  "console_stream d = (if ad_meta d = ''out'' then 0 else 1)"

definition made_appender :: "appender_define \<Rightarrow> nat \<Rightarrow> appender" where
  "made_appender d a = \<lparr>ap_level = ad_level d, hasSpecialFormatter = (ad_pattern d \<noteq> []),
     ap_formatter = (if ad_pattern d = [] then None else Some (projr (new_formatter (ad_pattern d)))),
     targetOutStream = (if ad_type d = ''console'' then console_stream d else a + 2)\<rparr>"

lemma generate_appender_spec:
  assumes "sound_appender d"
  shows "generate_appender opens d w =
    (if openable opens d
     then Inr (Some (next_obj w), (put_appender (next_obj w) (made_appender d (next_obj w)) w)
                 \<lparr>next_obj := Suc (next_obj w)\<rparr>)
     else Inr (None, w))"
proof (cases "openable opens d")
  case False
  then show ?thesis
    by (auto simp: generate_appender_def create_appender_def file_stream_log_appender_def openable_def Let_def)
next
  case True
  define s where "s = targetOutStream (made_appender d (next_obj w))"
  define w1 where "w1 = (put_appender (next_obj w) (new_appender s) w)\<lparr>next_obj := Suc (next_obj w)\<rparr>"
  have c: "create_appender opens d w = Some (Some (next_obj w), w1)"
    using True assms
    by (auto simp: create_appender_def file_stream_log_appender_def openable_def sound_appender_def alloc_appender_def Let_def
        s_def w1_def made_appender_def console_stream_def)
  show ?thesis
  proof (cases "ad_pattern d = []")
    case True
    with c \<open>openable opens d\<close> show ?thesis
      by (simp add: generate_appender_def appender_set_level_def w1_def put_appender_def
          made_appender_def new_appender_def s_def)
  next
    case False
    then obtain f where "new_formatter (ad_pattern d) = Inr f"
      using assms by (cases "new_formatter (ad_pattern d)") (auto simp: sound_appender_def pattern_ok_def)
    with c False \<open>openable opens d\<close> show ?thesis
      by (simp add: generate_appender_def appender_set_level_def appender_set_formatter_def w1_def
          put_appender_def made_appender_def new_appender_def s_def)
  qed
qed

lemma made_appender_wf:
  "lworld_wf w \<Longrightarrow> lworld_wf ((put_appender (next_obj w) (made_appender d a) w)\<lparr>next_obj := Suc (next_obj w)\<rparr>)"
  using alloc_appender_wf[of w "made_appender d a"]
  by (simp add: alloc_appender_def made_appender_def)

lemma appender_matches_cong:
  "appenders w' a = appenders w a \<Longrightarrow> appender_matches w' f d a = appender_matches w f d a"
  by (simp add: appender_matches_def)

lemma add_made_appender:
  fixes w :: lworld and d :: appender_define
  assumes w: "lworld_wf w" and g: "loggers w l = Some g"
  defines "a \<equiv> next_obj w"
  defines "w1 \<equiv> (put_appender a (made_appender d a) w)\<lparr>next_obj := Suc a\<rparr>"
  shows "\<exists>w2. add_appender l a w1 = Inr w2 \<and> lworld_wf w2 \<and> touches l w w2 \<and> named w2 = named w \<and>
    next_obj w2 = Suc a \<and> (\<forall>b. b < a \<longrightarrow> appenders w2 b = appenders w b) \<and>
    loggers w2 l = Some (g\<lparr>appenderArray := appenderArray g @ [a]\<rparr>) \<and>
    appender_matches w2 (lg_formatter g) d a"
proof -
  let ?p = "made_appender d a"
  let ?q = "if \<not> hasSpecialFormatter ?p then ?p\<lparr>ap_formatter := lg_formatter g\<rparr> else ?p"
  define w2 where "w2 = put_logger l (g\<lparr>appenderArray := appenderArray g @ [a]\<rparr>) (put_appender a ?q w1)"
  have g1: "loggers w1 l = Some g" using g by (simp add: w1_def)
  have r: "add_appender l a w1 = Inr w2"
    using g1 by (simp add: add_appender_def w2_def Let_def) (simp add: w1_def put_appender_def put_logger_def)
  moreover have "lworld_wf w2"
    using made_appender_wf[OF w, of d a] r by (auto simp: w1_def a_def intro: add_appender_wf)
  moreover have "touches l w w2"
    using g by (auto simp: touches_def attached_def w2_def w1_def a_def)
  moreover have "appender_matches w2 (lg_formatter g) d a"
    by (auto simp: appender_matches_def w2_def made_appender_def console_stream_def)
  ultimately show ?thesis by (auto simp: w2_def w1_def)
qed

lemma add_generated_spec:
  assumes "lworld_wf w" "loggers w l = Some g" "list_all sound_appender ds"
  shows "\<exists>w' as. add_generated opens l ds w = (None, w') \<and> lworld_wf w' \<and> touches l w w' \<and>
    named w' = named w \<and> loggers w' l = Some (g\<lparr>appenderArray := appenderArray g @ as\<rparr>) \<and>
    (\<forall>b. b < next_obj w \<longrightarrow> appenders w' b = appenders w b) \<and> (\<forall>b\<in>set as. next_obj w \<le> b) \<and>
    list_all2 (appender_matches w' (lg_formatter g)) (filter (openable opens) ds) as"
  using assms
proof (induction ds arbitrary: w g)
  case Nil
  then show ?case by (intro exI[of _ w] exI[of _ "[]"]) (simp add: touches_refl)
next
  case (Cons d ds)
  have d: "sound_appender d" "list_all sound_appender ds" using Cons.prems(3) by simp_all
  note gen = generate_appender_spec[OF d(1), of opens w]
  show ?case
  proof (cases "openable opens d")
    case False
    with Cons.IH[OF Cons.prems(1,2) d(2)] gen show ?thesis by simp
  next
    case True
    define a where "a = next_obj w"
    from add_made_appender[OF Cons.prems(1,2), of d] obtain w2 where
      w2: "add_appender l a ((put_appender a (made_appender d a) w)\<lparr>next_obj := Suc a\<rparr>) = Inr w2"
        "lworld_wf w2" "touches l w w2" "named w2 = named w" "next_obj w2 = Suc a"
        "\<forall>b. b < a \<longrightarrow> appenders w2 b = appenders w b"
        "loggers w2 l = Some (g\<lparr>appenderArray := appenderArray g @ [a]\<rparr>)"
        "appender_matches w2 (lg_formatter g) d a"
      unfolding a_def by blast
    from Cons.IH[OF w2(2,7) d(2)] obtain w' as where
      w': "add_generated opens l ds w2 = (None, w')" "lworld_wf w'" "touches l w2 w'"
        "named w' = named w2" "loggers w' l = Some (g\<lparr>appenderArray := appenderArray g @ a # as\<rparr>)"
        "\<forall>b. b < next_obj w2 \<longrightarrow> appenders w' b = appenders w2 b" "\<forall>b\<in>set as. next_obj w2 \<le> b"
        "list_all2 (appender_matches w' (lg_formatter g)) (filter (openable opens) ds) as"
      by auto
    have "appender_matches w' (lg_formatter g) d a"
      using w2(5,8) w'(6) appender_matches_cong[of w' a w2] by simp
    moreover have "add_generated opens l (d # ds) w = (None, w')"
      using gen True w2(1) w'(1) by (simp add: a_def)
    ultimately show ?thesis
      using w2 w' touches_trans[OF w2(3) w'(3)] True
      by (intro exI[of _ w'] exI[of _ "a # as"]) (auto simp: a_def)
  qed
qed

lemma choose_formatter_spec:
  assumes w: "lworld_wf w" and g: "loggers w l = Some g" and d: "pattern_ok (ld_pattern d)"
  shows "\<exists>w' f. choose_formatter d l w = Inr w' \<and> lworld_wf w' \<and> touches l w w' \<and>
    loggers w' l = Some (g\<lparr>lg_formatter := Some f\<rparr>) \<and>
    (ld_pattern d \<noteq> [] \<longrightarrow> f = projr (new_formatter (ld_pattern d)))"
proof (cases "ld_pattern d = []")
  case True
  from get_logger_touches[OF w, of root_name] obtain r w1 where
    r: "get_logger root_name w = Inr (r, w1)" "lworld_wf w1" "named w1 root_name = Some r"
      "touches l w w1" "\<forall>j g. loggers w j = Some g \<longrightarrow> loggers w1 j = Some g" by blast
  from lworld_wfD(9)[OF r(2,3)] lworld_wfD(4)[OF r(2)] obtain h f where
    h: "loggers w1 r = Some h" "lg_formatter h = Some f" by blast
  from r(5) g have g1: "loggers w1 l = Some g" by blast
  from set_formatter_touches[OF r(2) g1, of f] obtain w' where
    w': "logger_set_formatter l (Some f) w1 = Inr w'" "lworld_wf w'" "touches l w1 w'"
      "loggers w' l = Some (g\<lparr>lg_formatter := Some f\<rparr>)" by blast
  have "choose_formatter d l w = Inr w'"
    using True r(1) h w'(1) by (simp add: choose_formatter_def get_formatter_def)
  with True w' touches_trans[OF r(4) w'(3)] show ?thesis by blast
next
  case False
  then obtain f where f: "new_formatter (ld_pattern d) = Inr f"
    using d by (cases "new_formatter (ld_pattern d)") (auto simp: pattern_ok_def)
  from set_formatter_touches[OF w g, of f] obtain w' where
    "logger_set_formatter l (Some f) w = Inr w'" "lworld_wf w'" "touches l w w'"
    "loggers w' l = Some (g\<lparr>lg_formatter := Some f\<rparr>)" by blast
  with False f show ?thesis by (auto simp: choose_formatter_def)
qed

lemma generate_logger_spec:
  assumes w: "lworld_wf w" and d: "sound_logger d"
  shows "\<exists>w' l. generate_logger opens d w = (None, w') \<and> lworld_wf w' \<and> touches l w w' \<and>
    named w' (ld_name d) = Some l \<and> logger_matches opens w' d \<and> (\<forall>a\<in>attached w' l. next_obj w \<le> a)"
proof -
  from d have s: "ld_name d \<noteq> []" "pattern_ok (ld_pattern d)" "list_all sound_appender (appender_defs d)"
    by (simp_all add: sound_logger_def)
  obtain l w1 where
    1: "get_logger (ld_name d) w = Inr (l, w1)" "lworld_wf w1" "named w1 (ld_name d) = Some l" "touches l w w1"
    using get_logger_touches[OF w, of "ld_name d"] by blast
  from lworld_wfD(9)[OF 1(2,3)] obtain g where g: "loggers w1 l = Some g" by blast
  define w2 where "w2 = put_logger l (g\<lparr>lg_level := ld_level d\<rparr>) w1"
  have 2: "logger_set_level l (ld_level d) w1 = Inr w2" "lworld_wf w2" "touches l w1 w2"
      "loggers w2 l = Some (g\<lparr>lg_level := ld_level d\<rparr>)"
    using g simple_logger_update_wf[OF 1(2) g, of "g\<lparr>lg_level := ld_level d\<rparr>"]
    by (auto simp: logger_set_level_def w2_def intro: put_logger_touches)
  from choose_formatter_spec[OF 2(2,4) s(2)] obtain w3 f where
    3: "choose_formatter d l w2 = Inr w3" "lworld_wf w3" "touches l w2 w3"
      "loggers w3 l = Some (g\<lparr>lg_level := ld_level d, lg_formatter := Some f\<rparr>)"
      "ld_pattern d \<noteq> [] \<longrightarrow> f = projr (new_formatter (ld_pattern d))" by auto
  define g4 where "g4 = g\<lparr>lg_level := ld_level d, lg_formatter := Some f, appenderArray := []\<rparr>"
  define w4 where "w4 = put_logger l g4 w3"
  have 4: "clear_all_appender l w3 = Inr w4" "lworld_wf w4" "touches l w3 w4" "loggers w4 l = Some g4"
    using 3(4) simple_logger_update_wf[OF 3(2,4), of g4]
    by (auto simp: clear_all_appender_def w4_def g4_def intro: put_logger_touches)
  from add_generated_spec[OF 4(2,4) s(3), of opens] obtain w' as where
    5: "add_generated opens l (appender_defs d) w4 = (None, w')" "lworld_wf w'" "touches l w4 w'"
      "named w' = named w4" "loggers w' l = Some (g4\<lparr>appenderArray := appenderArray g4 @ as\<rparr>)"
      "\<forall>b\<in>set as. next_obj w4 \<le> b"
      "list_all2 (appender_matches w' (lg_formatter g4)) (filter (openable opens) (appender_defs d)) as"
    by blast
  have t: "touches l w w4" by (rule touches_trans[OF touches_trans[OF touches_trans[OF 1(4) 2(3)] 3(3)] 4(3)])
  have "generate_logger opens d w = (None, w')"
    using s(1) 1(1) 2(1) 3(1) 4(1) 5(1) by (simp add: generate_logger_def)
  moreover have n: "named w' (ld_name d) = Some l"
    using touchesD(3)[OF touches_trans[OF touches_trans[OF 2(3) 3(3)] 4(3)] 1(3)] 5(4) by simp
  moreover have "logger_matches opens w' d"
    unfolding logger_matches_def using n 5(5,7) 3(5)
    by (intro exI[of _ l] exI[of _ "g4\<lparr>appenderArray := as\<rparr>"]) (auto simp: g4_def)
  moreover have "\<forall>a\<in>attached w' l. next_obj w \<le> a"
    using 5(5,6) touchesD(1)[OF t] by (fastforce simp: attached_def g4_def)
  ultimately show ?thesis using 5(2) touches_trans[OF t 5(3)] by blast
qed

section \<open>Keeping several loggers configured\<close>

text \<open>No appender is attached to two loggers.\<close>

definition separate :: "lworld \<Rightarrow> bool" where
  "separate w \<longleftrightarrow> (\<forall>k j. k \<noteq> j \<longrightarrow> attached w k \<inter> attached w j = {})"

lemma attached_bound: "lworld_wf w \<Longrightarrow> a \<in> attached w k \<Longrightarrow> a < next_obj w"
  using lworld_wfD(6,7)[of w] by (fastforce simp: attached_def split: option.splits)

lemma touches_separate:
  assumes "lworld_wf w" "separate w" "touches l w w'" "\<forall>a\<in>attached w' l. next_obj w \<le> a"
  shows "separate w'"
  unfolding separate_def
proof (intro allI impI)
  fix k j :: nat
  assume "k \<noteq> j"
  have old: "x \<noteq> l \<Longrightarrow> attached w' x \<inter> attached w' l = {}" for x
    using touchesD(5)[OF assms(3)] assms(4) attached_bound[OF assms(1)] by fastforce
  consider "k = l" | "j = l" | "k \<noteq> l" "j \<noteq> l" by blast
  then show "attached w' k \<inter> attached w' j = {}"
  proof cases
    case 1
    with old[of j] \<open>k \<noteq> j\<close> show ?thesis by (simp add: Int_commute)
  next
    case 2
    with old[of k] \<open>k \<noteq> j\<close> show ?thesis by simp
  next
    case 3
    with assms(2) \<open>k \<noteq> j\<close> touchesD(5)[OF assms(3)] show ?thesis by (simp add: separate_def)
  qed
qed

lemma touches_matches:
  assumes w: "lworld_wf w" "separate w" and t: "touches l w w'" and w': "lworld_wf w'"
    and l: "named w' m = Some l" and d: "logger_matches opens w d" "ld_name d \<noteq> m"
  shows "logger_matches opens w' d"
proof -
  from d(1) obtain k g where k: "named w (ld_name d) = Some k" "loggers w k = Some g"
      "lg_level g = ld_level d"
      "ld_pattern d \<noteq> [] \<longrightarrow> lg_formatter g = Some (projr (new_formatter (ld_pattern d)))"
      "list_all2 (appender_matches w (lg_formatter g)) (filter (openable opens) (appender_defs d)) (appenderArray g)"
    unfolding logger_matches_def by blast
  have n: "named w' (ld_name d) = Some k" using touchesD(3)[OF t k(1)] .
  have ne: "k \<noteq> l" using lworld_wfD(9)[OF w' n] lworld_wfD(9)[OF w' l] d(2) by auto
  have "appenders w' a = appenders w a" if "a \<in> set (appenderArray g)" for a
  proof -
    have a: "a \<in> attached w k" using that k(2) by (simp add: attached_def)
    with w(2) ne have "a \<notin> attached w l" unfolding separate_def by blast
    with touchesD(7)[OF t] attached_bound[OF w(1) a] show ?thesis by blast
  qed
  then have "appender_matches w' f x a = appender_matches w f x a" if "a \<in> set (appenderArray g)" for f x a
    using appender_matches_cong[of w' a w] that by blast
  with k(5) have "list_all2 (appender_matches w' (lg_formatter g))
      (filter (openable opens) (appender_defs d)) (appenderArray g)"
    by (simp add: list_all2_conv_all_nth)
  with n touchesD(4)[OF t ne k(2)] k(3,4) show ?thesis unfolding logger_matches_def by blast
qed

lemma generate_new_spec:
  assumes "lworld_wf w" "separate w" "\<forall>d\<in>set ds - set old. sound_logger d"
    "distinct (map ld_name ds)" "\<forall>d\<in>set ds \<inter> set old. logger_matches opens w d"
  shows "\<exists>w'. generate_new opens old ds w = (None, w') \<and> lworld_wf w' \<and> separate w' \<and>
    (\<forall>d\<in>set ds. logger_matches opens w' d) \<and>
    (\<forall>d. logger_matches opens w d \<longrightarrow> ld_name d \<notin> ld_name ` set ds \<longrightarrow> logger_matches opens w' d)"
  using assms
proof (induction ds arbitrary: w)
  case Nil
  then show ?case by simp
next
  case (Cons d ds)
  have fresh: "ld_name d \<notin> ld_name ` set ds" using Cons.prems(4) by simp
  show ?case
  proof (cases "d \<in> set old")
    case True
    have "logger_matches opens w d" using True Cons.prems(5) by simp
    moreover obtain w' where "generate_new opens old ds w = (None, w')" "lworld_wf w'" "separate w'"
      "\<forall>d\<in>set ds. logger_matches opens w' d"
      "\<forall>d. logger_matches opens w d \<longrightarrow> ld_name d \<notin> ld_name ` set ds \<longrightarrow> logger_matches opens w' d"
      using Cons.IH[OF Cons.prems(1,2)] Cons.prems(3-5) by auto
    ultimately show ?thesis using True fresh by (intro exI[of _ w']) auto
  next
    case False
    then have "sound_logger d" using Cons.prems(3) by simp
    from generate_logger_spec[OF Cons.prems(1) this, of opens] obtain w1 l where
      w1: "generate_logger opens d w = (None, w1)" "lworld_wf w1" "touches l w w1"
        "named w1 (ld_name d) = Some l" "logger_matches opens w1 d" "\<forall>a\<in>attached w1 l. next_obj w \<le> a"
      by blast
    note keep = touches_matches[OF Cons.prems(1,2) w1(3,2,4)]
    have sep: "separate w1" by (rule touches_separate[OF Cons.prems(1,2) w1(3,6)])
    have "\<forall>x\<in>set ds \<inter> set old. logger_matches opens w1 x"
      using keep Cons.prems(5) fresh by (metis IntE IntI image_eqI list.set_intros(2))
    with Cons.IH[OF w1(2) sep] Cons.prems(3,4) obtain w' where
      w': "generate_new opens old ds w1 = (None, w')" "lworld_wf w'" "separate w'"
        "\<forall>d\<in>set ds. logger_matches opens w' d"
        "\<forall>d. logger_matches opens w1 d \<longrightarrow> ld_name d \<notin> ld_name ` set ds \<longrightarrow> logger_matches opens w' d"
      by auto
    with w1(1,5) False fresh keep show ?thesis by (intro exI[of _ w']) auto
  qed
qed

lemma drop_named_matches:
  "ld_name d \<noteq> n \<Longrightarrow> logger_matches opens (drop_named n w) d = logger_matches opens w d"
proof -
  have "appender_matches (drop_named n w) = appender_matches w"
    by (simp add: appender_matches_def fun_eq_iff)
  then show "ld_name d \<noteq> n \<Longrightarrow> ?thesis" by (simp add: logger_matches_def)
qed

lemma remove_missing_spec:
  assumes "lworld_wf w"
  shows "lworld_wf (remove_missing now ds w) \<and>
    attached (remove_missing now ds w) = attached w \<and>
    (\<forall>d\<in>set now. logger_matches opens (remove_missing now ds w) d = logger_matches opens w d) \<and>
    (\<forall>n. n \<in> ld_name ` set ds \<longrightarrow> n \<notin> ld_name ` set now \<longrightarrow> named (remove_missing now ds w) n = None) \<and>
    (\<forall>n. named w n = None \<longrightarrow> named (remove_missing now ds w) n = None)"
  using assms
proof (induction ds arbitrary: w)
  case Nil
  then show ?case by simp
next
  case (Cons d ds)
  show ?case
  proof (cases "ld_name d \<in> ld_name ` set now")
    case True
    with Cons.IH[OF Cons.prems] show ?thesis by auto
  next
    case False
    let ?w = "drop_named (ld_name d) w"
    have "\<forall>x\<in>set now. logger_matches opens ?w x = logger_matches opens w x"
      using False drop_named_matches by (metis imageI)
    moreover have "attached ?w = attached w" by (simp add: attached_def fun_eq_iff)
    ultimately show ?thesis
      using False Cons.IH[OF drop_named_wf[OF Cons.prems, of "ld_name d"]] by (auto simp: remove_logger_def)
  qed
qed

lemma log_monitor_spec:
  assumes "lworld_wf w" "separate w" "distinct (map ld_name now)"
    "\<forall>d\<in>set now - set old. sound_logger d" "\<forall>d\<in>set old. logger_matches opens w d"
  shows "\<exists>w'. log_monitor opens old now w = (None, w') \<and> lworld_wf w' \<and> separate w' \<and>
    (\<forall>d\<in>set now. logger_matches opens w' d) \<and>
    (\<forall>d\<in>set old. ld_name d \<notin> ld_name ` set now \<longrightarrow> named w' (ld_name d) = None)"
proof -
  obtain w1 where w1: "generate_new opens old now w = (None, w1)" "lworld_wf w1" "separate w1"
      "\<forall>d\<in>set now. logger_matches opens w1 d"
    using generate_new_spec[OF assms(1,2,4,3)] assms(5) by blast
  with remove_missing_spec[OF w1(2), of now old opens] show ?thesis
    by (simp add: log_monitor_def separate_def)
qed

section \<open>The variable of the loggers\<close>

text \<open>
  \<^verbatim>\<open>__InitLoggersHelper\<close>: the variable \<open>loggers\<close>, of a type with number 0, and its only monitor.
  \<open>order\<close> is the order in which a hash set of definitions is iterated.
\<close>

definition loggers_env ::
  "yaml \<Rightarrow> (logger_define set \<Rightarrow> logger_define list) \<Rightarrow> (string \<Rightarrow> bool) \<Rightarrow>
   (logger_define set, unit, lworld) conf_env" where
  "loggers_env Y order opens =
     \<lparr>casts = (\<lambda>_. unordered_set_cast Y order (logger_cast Y)),
      on_change = (\<lambda>_ old now w. log_monitor opens (order old) (order now) w), yam = Y\<rparr>"

definition init_loggers_helper ::
  "(logger_define set, unit, lworld) conf_world \<Rightarrow> (logger_define set, unit, lworld) conf_world res" where
  "init_loggers_helper w =
     res_bind (add_or_update 0 ''loggers'' {} ''loggers config'' w) (\<lambda>(p, w1).
     res_bind (deref p) (\<lambda>a.
     res_bind (add_monitor a () w1) (\<lambda>(_, w2). Inr w2)))"

lemma loggers_valid_name: "valid_name ''loggers''"
  by (simp add: valid_name_def name_char_def less_eq_char_def)

definition initial_conf :: "lworld \<Rightarrow> (logger_define set, unit, lworld) conf_world" where
  "initial_conf lw = \<lparr>vars = [0 \<mapsto> \<lparr>var_name = ''loggers'', var_desc = ''loggers config'', var_type = 0,
       var_val = {}, monitors = [0 \<mapsto> ()]\<rparr>], configs = [''loggers'' \<mapsto> 0], next_var = 1,
     next_monitor = (\<lambda>_. 0)(0 := 1), outside = lw\<rparr>"

lemma init_loggers_helper_eq: "init_loggers_helper (empty_conf lw) = Inr (initial_conf lw)"
  by (simp add: init_loggers_helper_def add_or_update_def loggers_valid_name new_config_var_def
      add_monitor_def empty_conf_def initial_conf_def put_var_def put_config_def Let_def)

text \<open>Loading a document whose only mapping gives the loggers as a sequence.\<close>

lemma load_loggers:
  assumes "set_from_str Y (logger_cast Y) (emit Y (Y_seq ns)) = Inr A" "A \<noteq> {}"
  shows "load_from_file (loggers_env Y order opens) (Inr (Y_map [(Y_scalar ''loggers'', Y_seq ns)]))
      (initial_conf lw) =
    caught (case log_monitor opens (order {}) (order A) lw of
       (e, lw') \<Rightarrow> (e, (put_var 0 ((the (vars (initial_conf lw) 0))\<lparr>var_val := A\<rparr>) (initial_conf lw))
                     \<lparr>outside := lw'\<rparr>))"
proof -
  let ?root = "Y_map [(Y_scalar ''loggers'', Y_seq ns)]"
  have n: "named_nodes [] ?root = [(''loggers'', Y_seq ns)]"
    by (simp add: named_nodes.simps(1) child_name_def)
  obtain e lw' where m: "log_monitor opens (order {}) (order A) lw = (e, lw')" by fastforce
  have "from_string (loggers_env Y order opens) 0 (emit Y (Y_seq ns)) (initial_conf lw) =
      caught (e, (put_var 0 ((the (vars (initial_conf lw) 0))\<lparr>var_val := A\<rparr>) (initial_conf lw))\<lparr>outside := lw'\<rparr>)"
    using assms m
    by (cases e) (simp_all add: from_string_def initial_conf_def loggers_env_def unordered_set_cast_def set_val_def
        put_var_def get_all_monitor_def Let_def split: prod.splits option.splits)
  then show ?thesis
    by (cases "(e, (put_var 0 ((the (vars (initial_conf lw) 0))\<lparr>var_val := A\<rparr>) (initial_conf lw))\<lparr>outside := lw'\<rparr>)" rule: caught.cases)
       (auto simp: load_from_file_def list_all_node_eq n m loggers_valid_name find_config_var_base_def initial_conf_def
         node_text_def loggers_env_def)
qed

section \<open>Properties\<close>


text \<open>A definition of \<^verbatim>\<open>conf/loggers.yaml\<close>.\<close>

definition std_out_logger :: logger_define where
  "std_out_logger = \<lparr>ld_name = ''std_out_logger'', ld_level = kDebug, ld_pattern = [],
     appender_defs = [\<lparr>ad_level = kDebug, ad_pattern = ''[***] %m'', ad_type = ''console'',
       ad_meta = ''out''\<rparr>]\<rparr>"

lemma star_formatter: "new_formatter ''[***] %m'' = Inr [Text_item ''[***] '', Msg_item]"
proof -
  have "parse (concat (map render [Text_item ''[***] '', Msg_item])) = Some [Text_item ''[***] '', Msg_item]"
    by (rule parse_render) simp
  then show ?thesis by (simp add: new_formatter_parse outcome_def)
qed

lemma std_out_sound: "sound_logger std_out_logger"
  by (simp add: sound_logger_def std_out_logger_def sound_appender_def pattern_ok_def star_formatter)

lemma root_world_separate: "separate root_world"
  by (auto simp: separate_def attached_def root_world_def)



fun flow :: "ynode \<Rightarrow> string" where
  "flow Y_null = ''~''"
| "flow (Y_scalar s) = s"
| "flow (Y_seq ns) = ''['' @ concat (map (\<lambda>n. flow n @ '', '') ns) @ '']''"
| "flow (Y_map ps) = ''{'' @ concat (map (\<lambda>(k, v). scalar_of k @ '': '' @ flow v @ '', '') ps) @ ''}''"

definition star_node :: ynode where
  "star_node = Y_map [(Y_scalar ''format_pattern'', Y_scalar ''[***] %m''),
     (Y_scalar ''level'', Y_scalar ''DEBUG''), (Y_scalar ''type'', Y_scalar ''console''),
     (Y_scalar ''meta'', Y_scalar ''out'')]"

definition std_out_node :: ynode where
  "std_out_node = Y_map [(Y_scalar ''name'', Y_scalar ''std_out_logger''),
     (Y_scalar ''level'', Y_scalar ''DEBUG''), (Y_scalar ''format_pattern'', Y_scalar []),
     (Y_scalar ''appenders'', Y_seq [star_node])]"

definition conf_yaml :: "ynode list \<Rightarrow> yaml" where
  "conf_yaml docs = \<lparr>load = (\<lambda>s. case find (\<lambda>n. flow n = s) docs of Some n \<Rightarrow> Inr n | None \<Rightarrow> Inr (Y_scalar s)),
     emit = flow\<rparr>"

definition file_yaml :: yaml where
  "file_yaml = conf_yaml [star_node, Y_seq [star_node], std_out_node, Y_seq [std_out_node]]"

lemma file_loads:
  "load file_yaml (flow star_node) = Inr star_node"
  "load file_yaml (flow (Y_seq [star_node])) = Inr (Y_seq [star_node])"
  "load file_yaml (flow std_out_node) = Inr std_out_node"
  "load file_yaml (flow (Y_seq [std_out_node])) = Inr (Y_seq [std_out_node])"
  by (simp_all add: file_yaml_def conf_yaml_def star_node_def std_out_node_def)

lemma file_emit: "emit file_yaml = flow"
  by (simp add: file_yaml_def conf_yaml_def)

lemma star_from: "appender_from_str file_yaml (flow star_node) = Inr (hd (appender_defs std_out_logger))"
  by (simp add: appender_from_str_def mapping_of_def file_loads) (simp add: star_node_def
      scalar_or_empty_def scalar_at_def level_at_def level_from_string_def std_out_logger_def)

lemma std_out_from: "logger_from_str file_yaml (flow std_out_node) = Inr std_out_logger"
proof -
  have "from_str (vector_cast file_yaml (appender_cast file_yaml)) (flow (Y_seq [star_node])) =
      Inr (appender_defs std_out_logger)"
    by (simp add: vector_cast_def vector_from_str_def sequence_items_def file_loads file_emit
        appender_cast_def star_from del: flow.simps) (simp add: std_out_logger_def)
  then show ?thesis
    by (simp add: logger_from_str_def mapping_of_def file_loads file_emit del: flow.simps)
       (simp add: std_out_node_def scalar_or_empty_def scalar_at_def level_at_def
         level_from_string_def std_out_logger_def file_emit del: flow.simps)
qed

lemma file_set: "set_from_str file_yaml (logger_cast file_yaml) (emit file_yaml (Y_seq [std_out_node])) =
    Inr {std_out_logger}"
  by (simp add: set_from_str_def sequence_items_def file_loads file_emit logger_cast_def std_out_from
      del: flow.simps)


text \<open>
  A pattern of a logger that does not parse is never retried: loading a document with
  such a definition of a new logger returns normally, the variable already holds the
  definition, the logger is registered with the definition's level but with the root's
  formatter and no appenders, and loading the same document again changes nothing.
\<close>

theorem bad_pattern_is_not_retried:
  assumes "lworld_wf lw" "set_from_str Y (logger_cast Y) (emit Y (Y_seq ns)) = Inr {d}"
    "order {} = []" "order {d} = [d]" "ld_name d \<noteq> []" "ld_pattern d \<noteq> []"
    "new_formatter (ld_pattern d) = Inl (Thrown x)" "named lw (ld_name d) = None"
  shows "\<exists>w1 l. load_from_file (loggers_env Y order opens)
      (Inr (Y_map [(Y_scalar ''loggers'', Y_seq ns)])) (initial_conf lw) = (None, w1) \<and>
    get_value 0 w1 = Inr {d} \<and> named (outside w1) (ld_name d) = Some l \<and>
    loggers (outside w1) l = Some ((fresh_logger (ld_name d) lw)\<lparr>lg_level := ld_level d\<rparr>) \<and>
    load_from_file (loggers_env Y order opens) (Inr (Y_map [(Y_scalar ''loggers'', Y_seq ns)])) w1 = (None, w1)"
proof -
  let ?n = "ld_name d"
  let ?v = "the (vars (initial_conf lw) 0)"
  define lw' where "lw' = put_logger (next_obj lw) ((fresh_logger ?n lw)\<lparr>lg_level := ld_level d\<rparr>) (with_logger ?n lw)"
  have g: "get_logger ?n lw = Inr (next_obj lw, with_logger ?n lw)"
    using assms(8) init_logger_spec[OF assms(1,8)] by (simp add: get_logger_def)
  have "logger_set_level (next_obj lw) (ld_level d) (with_logger ?n lw) = Inr lw'"
    by (simp add: logger_set_level_def lw'_def with_logger_def)
  then have "generate_logger opens d lw = (Some (Thrown x), lw')"
    using assms(5,6,7) g by (simp add: generate_logger_def choose_formatter_def attempt_def[of "choose_formatter d _"])
  then have "log_monitor opens [] [d] lw = (Some (Thrown x), lw')" by (simp add: log_monitor_def)
  moreover define w1 where "w1 = (put_var 0 (?v\<lparr>var_val := {d}\<rparr>) (initial_conf lw))\<lparr>outside := lw'\<rparr>"
  ultimately have 1: "load_from_file (loggers_env Y order opens) (Inr (Y_map [(Y_scalar ''loggers'', Y_seq ns)]))
      (initial_conf lw) = (None, w1)"
    using load_loggers[OF assms(2), of order opens lw] assms(3,4) by simp
  have v: "vars w1 0 = Some (?v\<lparr>var_val := {d}\<rparr>)" "configs w1 ''loggers'' = Some 0"
      "outside w1 = lw'"
    by (simp_all add: w1_def put_var_def initial_conf_def)
  then have "load_from_file (loggers_env Y order opens) (Inr (Y_map [(Y_scalar ''loggers'', Y_seq ns)])) w1 = (None, w1)"
    using assms(2)
    by (simp add: load_from_file_def list_all_node_eq named_nodes.simps(1) child_name_def
        loggers_valid_name find_config_var_base_def from_string_def loggers_env_def set_val_def
        unordered_set_cast_def node_text_def)
  moreover have "named lw' ?n = Some (next_obj lw)" by (simp add: lw'_def with_logger_def)
  moreover have "loggers lw' (next_obj lw) = Some ((fresh_logger ?n lw)\<lparr>lg_level := ld_level d\<rparr>)"
    by (simp add: lw'_def)
  ultimately show ?thesis using 1 v by (simp add: get_value_def)
qed

text \<open>
  A definition whose name is the empty string passes the conversion but not the making of
  the logger: loading it aborts the process.
\<close>

theorem empty_logger_name_aborts:
  assumes "set_from_str Y (logger_cast Y) (emit Y (Y_seq ns)) = Inr {d}" "order {} = []"
    "order {d} = [d]" "ld_name d = []"
  shows "fst (load_from_file (loggers_env Y order opens)
    (Inr (Y_map [(Y_scalar ''loggers'', Y_seq ns)])) (initial_conf lw)) = Some Assert_failed"
  using load_loggers[OF assms(1), of order opens lw] assms(2-4)
  by (simp add: log_monitor_def generate_logger_def)

text \<open>
  The text that a definition of a logger with appenders is written as cannot be read back:
  the appenders are written without their type and meta text, which reading them requires.
\<close>

theorem logger_text_is_unreadable:
  assumes "appender_defs d \<noteq> []" "logger_to_str Y d = Inr s"
    "\<forall>n. load Y (emit Y n) = Inr n"
  shows "logger_from_str Y s = Inl (Thrown Logic_error)"
proof -
  have reload: "load Y (emit Y n) = Inr n" for n using assms(3) by blast
  let ?node = "\<lambda>x. Y_map [(Y_scalar ''format_pattern'', Y_scalar (ad_pattern x)),
      (Y_scalar ''level'', Y_scalar (level_to_string (ad_level x)))]"
  have item: "item_node Y (appender_cast Y) x = Inr (?node x)" for x
    by (simp add: item_node_def appender_cast_def appender_to_str_def reload)
  have bad: "appender_from_str Y (emit Y (?node x)) = Inl (Thrown Logic_error)" for x
    by (simp add: appender_from_str_def mapping_of_def reload scalar_or_empty_def scalar_at_def)
  have "map_res (item_node Y (appender_cast Y)) xs = Inr (map ?node xs)" for xs
    by (induction xs) (simp_all add: item)
  then have items: "item_node Y (vector_cast Y (appender_cast Y)) (appender_defs d) =
      Inr (Y_seq (map ?node (appender_defs d)))"
    unfolding item_node_def[of Y "vector_cast Y (appender_cast Y)"]
    by (simp add: vector_cast_def vector_to_str_def reload)
  define ps where "ps = (if ld_level d = kUnKnown then [(Y_scalar ''name'', Y_scalar (ld_name d))]
    else [(Y_scalar ''name'', Y_scalar (ld_name d)), (Y_scalar ''level'', Y_scalar (level_to_string (ld_level d)))])"
  have s: "s = emit Y (Y_map (node_put ''appenders'' (Y_seq (map ?node (appender_defs d)))
      (node_put ''format_pattern'' (Y_scalar (ld_pattern d)) ps)))"
    using assms(2) by (cases "ld_level d = kUnKnown") (simp_all add: logger_to_str_def Let_def items ps_def)
  obtain x xs where x: "appender_defs d = x # xs" using assms(1) by (cases "appender_defs d") auto
  have "from_str (vector_cast Y (appender_cast Y)) (emit Y (Y_seq (map ?node (appender_defs d)))) =
      Inl (Thrown Logic_error)"
    by (simp add: vector_cast_def vector_from_str_def sequence_items_def reload x appender_cast_def bad)
  then show ?thesis
    by (cases "ld_level d = kUnKnown")
       (simp_all add: s ps_def logger_from_str_def mapping_of_def reload scalar_at_def)
qed

text \<open>Documents in unary: a library that reads every node as it wrote it.\<close>

instance ynode :: countable
  by countable_datatype

definition unary_yaml :: yaml where
  "unary_yaml = \<lparr>load = (\<lambda>s. Inr (from_nat (length s))), emit = (\<lambda>n. replicate (to_nat n) CHR ''1'')\<rparr>"

lemma unary_reloads: "load unary_yaml (emit unary_yaml n) = Inr n"
  by (simp add: unary_yaml_def)

theorem logger_text_is_unreadable_witness:
  "\<exists>s. logger_to_str unary_yaml std_out_logger = Inr s \<and>
     logger_from_str unary_yaml s = Inl (Thrown Logic_error)"
proof -
  have "\<exists>s. logger_to_str unary_yaml std_out_logger = Inr s"
    by (simp add: logger_to_str_def Let_def item_node_def vector_cast_def vector_to_str_def
        std_out_logger_def appender_cast_def appender_to_str_def unary_reloads)
  then obtain s where s: "logger_to_str unary_yaml std_out_logger = Inr s" ..
  have "appender_defs std_out_logger \<noteq> []" by (simp add: std_out_logger_def)
  from logger_text_is_unreadable[OF this s] s unary_reloads show ?thesis by blast
qed

definition nameless_node :: ynode where
  "nameless_node = Y_map [(Y_scalar ''name'', Y_scalar []), (Y_scalar ''format_pattern'', Y_scalar ''%'')]"

definition nameless :: logger_define where
  "nameless = \<lparr>ld_name = [], ld_level = kUnKnown, ld_pattern = ''%'', appender_defs = []\<rparr>"

lemma nameless_set: "set_from_str unary_yaml (logger_cast unary_yaml)
    (emit unary_yaml (Y_seq [nameless_node])) = Inr {nameless}"
  by (simp add: set_from_str_def sequence_items_def unary_reloads logger_cast_def logger_from_str_def
      mapping_of_def) (simp add: nameless_node_def scalar_at_def scalar_or_empty_def level_at_def nameless_def)

theorem empty_logger_name_aborts_witness:
  "fst (load_from_file (loggers_env unary_yaml (\<lambda>A. if A = {} then [] else [nameless]) (\<lambda>_. True))
     (Inr (Y_map [(Y_scalar ''loggers'', Y_seq [nameless_node])])) (initial_conf root_world)) = Some Assert_failed"
  by (rule empty_logger_name_aborts[OF nameless_set]) (simp_all add: nameless_def)

definition percent_node :: ynode where
  "percent_node = Y_map [(Y_scalar ''name'', Y_scalar ''a''), (Y_scalar ''format_pattern'', Y_scalar ''%'')]"

definition percent :: logger_define where
  "percent = \<lparr>ld_name = ''a'', ld_level = kUnKnown, ld_pattern = ''%'', appender_defs = []\<rparr>"

lemma percent_set: "set_from_str unary_yaml (logger_cast unary_yaml)
    (emit unary_yaml (Y_seq [percent_node])) = Inr {percent}"
  by (simp add: set_from_str_def sequence_items_def unary_reloads logger_cast_def logger_from_str_def
      mapping_of_def) (simp add: percent_node_def scalar_at_def scalar_or_empty_def level_at_def percent_def)

lemma percent_fails: "new_formatter ''%'' = Inl (Thrown Invalid_argument)"
  by (simp add: new_formatter_parse parse.simps outcome_def)

theorem bad_pattern_is_not_retried_witness:
  "\<exists>w1. load_from_file (loggers_env unary_yaml (\<lambda>A. if A = {} then [] else [percent]) (\<lambda>_. True))
     (Inr (Y_map [(Y_scalar ''loggers'', Y_seq [percent_node])])) (initial_conf root_world) = (None, w1) \<and>
     named (outside w1) ''a'' \<noteq> None"
proof -
  have "new_formatter (ld_pattern percent) = Inl (Thrown Invalid_argument)"
    using percent_fails by (simp add: percent_def)
  moreover have "named root_world (ld_name percent) = None"
    by (simp add: root_world_def root_name_def percent_def)
  ultimately show ?thesis
    using bad_pattern_is_not_retried[OF root_world_wf percent_set,
        of "\<lambda>A. if A = {} then [] else [percent]" Invalid_argument "\<lambda>_. True"]
    by (auto simp: percent_def)
qed

text \<open>
  A console appender whose meta text is neither of the two streams passes the conversion and is
  then configured through a null pointer.
\<close>

theorem unknown_console_stream:
  assumes "ad_type d = ''console''" "ad_meta d \<noteq> ''out''" "ad_meta d \<noteq> ''error''"
    and "ad_pattern d = []"
  shows "generate_appender opens d w = Inl Undefined_behaviour"
  using assms by (simp add: generate_appender_def create_appender_def)

end
