(* ===== verification/Log_Statements.thy ===== *)
theory Log_Statements
  imports Loggers
begin

text \<open>
  The statements that log (\<^verbatim>\<open>SYLAR_LOG_INFO(logger) << ...\<close> and \<^verbatim>\<open>SYLAR_LOG_FMT_INFO(logger, ...)\<close>
  of \<^verbatim>\<open>base/log.h\<close>), with the event that is being written and the wrapper that logs it when the
  statement ends, and the helpers of \<^verbatim>\<open>base/debug.h\<close> and \<^verbatim>\<open>debug.cpp\<close>: the backtrace and the whole of
  \<^verbatim>\<open>SYLAR_ASSERT\<close>, whose outcome the other theories take from \<open>sylar_assert\<close>. The symbols of the
  call stack, \<^verbatim>\<open>vasprintf\<close> and the clock are parameters.
\<close>

section \<open>Events that are being written\<close>

text \<open>
  An \<^verbatim>\<open>std::ostringstream\<close> is its text with the position of the next character. Its constructor
  leaves the position at the start, also with an initial text.
\<close>

record open_event = log_event +
  put_pos :: nat

definition open_stream :: "log_event \<Rightarrow> open_event" where
  "open_stream e = log_event.extend e (open_event.fields 0)"

definition stream_put :: "string \<Rightarrow> open_event \<Rightarrow> open_event" where
  "stream_put s e = e\<lparr>message := take (put_pos e) (message e) @ s @ drop (put_pos e + length s) (message e),
     put_pos := put_pos e + length s\<rparr>"

definition get_message :: "open_event \<Rightarrow> string" where
  "get_message e = message e"

definition set_message :: "string \<Rightarrow> open_event \<Rightarrow> open_event" where
  "set_message msg e = stream_put msg e"

text \<open>\<open>vasprintf fmt args\<close> is the formatted text, \<open>None\<close> where the call returns -1.\<close>

definition set_message_fmt ::
  "(string \<Rightarrow> 'v list \<Rightarrow> string option) \<Rightarrow> string \<Rightarrow> 'v list \<Rightarrow> open_event \<Rightarrow> open_event" where
  "set_message_fmt vasprintf fmt al e =
     (case vasprintf fmt al of
        Some buf \<Rightarrow> stream_put buf e
      | None \<Rightarrow> e)"

section \<open>Statements\<close>

text \<open>What every event of a statement has: the clock, the thread and the place in the source.\<close>

record origin =
  at_time :: int
  at_thread :: int
  at_line :: u32
  at_file :: string

definition statement_event :: "origin \<Rightarrow> level \<Rightarrow> nat \<Rightarrow> log_event" where
  "statement_event src lv l = \<lparr>trigger = Some l, message = [], time = at_time src, line_num = at_line src,
     file_name = Some (at_file src), thread_id = at_thread src, routine_id = 0, ev_level = lv\<rparr>"

text \<open>\<^verbatim>\<open>~LogEventWrapper\<close>: an exception that leaves a destructor ends the process.\<close>

definition wrapper_end ::
  "(string \<Rightarrow> int \<Rightarrow> string option) \<Rightarrow> open_event \<Rightarrow> lworld \<Rightarrow> lworld res" where
  "wrapper_end put_time e w =
     res_bind (deref (trigger e)) (\<lambda>l.
     case returns (logger_log put_time (log_event.truncate e) l w) of
       Inl (Thrown x) \<Rightarrow> Inl Aborted
     | r \<Rightarrow> r)"

text \<open>
  The macros evaluate the expression for the logger once for its level and once more for the
  event. \<open>fill\<close> is what the rest of the statement does to the event; it does not throw.
\<close>

definition log_statement ::
  "(string \<Rightarrow> int \<Rightarrow> string option) \<Rightarrow> origin \<Rightarrow> level \<Rightarrow> (lworld \<Rightarrow> (nat \<times> lworld) res) \<Rightarrow>
   (open_event \<Rightarrow> lworld \<Rightarrow> (open_event \<times> lworld) res) \<Rightarrow> lworld \<Rightarrow> lworld res" where
  "log_statement put_time src lv logger_expr fill w =
     res_bind (logger_expr w) (\<lambda>(l, w1).
     res_bind (deref (loggers w1 l)) (\<lambda>g.
     if lv \<ge> lg_level g then
       res_bind (logger_expr w1) (\<lambda>(l', w2).
       res_bind (fill (open_stream (statement_event src lv l')) w2) (\<lambda>(e, w3).
       wrapper_end put_time e w3))
     else Inr w1))"

definition sylar_log ::
  "(string \<Rightarrow> int \<Rightarrow> string option) \<Rightarrow> origin \<Rightarrow> level \<Rightarrow> (lworld \<Rightarrow> (nat \<times> lworld) res) \<Rightarrow>
   string list \<Rightarrow> lworld \<Rightarrow> lworld res" where
  "sylar_log put_time src lv logger_expr parts =
     log_statement put_time src lv logger_expr (\<lambda>e w. Inr (fold stream_put parts e, w))"

definition sylar_log_fmt ::
  "(string \<Rightarrow> int \<Rightarrow> string option) \<Rightarrow> (string \<Rightarrow> 'v list \<Rightarrow> string option) \<Rightarrow> origin \<Rightarrow> level \<Rightarrow>
   (lworld \<Rightarrow> (nat \<times> lworld) res) \<Rightarrow> string \<Rightarrow> 'v list \<Rightarrow> lworld \<Rightarrow> lworld res" where
  "sylar_log_fmt put_time vasprintf src lv logger_expr fmt al =
     log_statement put_time src lv logger_expr (\<lambda>e w. Inr (set_message_fmt vasprintf fmt al e, w))"

section \<open>Backtraces and assertions\<close>

definition endl :: string where "endl = [char_of (10 :: nat)]"

text \<open>
  \<open>symbols\<close> is what \<^verbatim>\<open>backtrace_symbols\<close> gives for the stack, \<open>None\<close> where it fails. The number in
  the result counts the blocks from \<^verbatim>\<open>malloc\<close> that are not freed.
\<close>

definition backtrace ::
  "(string \<Rightarrow> int \<Rightarrow> string option) \<Rightarrow> origin \<Rightarrow> string list option \<Rightarrow> nat \<Rightarrow> lworld \<Rightarrow>
   ((string list \<times> nat) \<times> lworld) res" where
  "backtrace put_time src symbols trunc w =
     (case symbols of
        None \<Rightarrow>
          res_bind (sylar_log put_time src kError (get_logger system_name)
            [''failed to call ::backtrace_symbols''] w) (\<lambda>w1. Inr (([], 1), w1))
      | Some strings \<Rightarrow>
          if length strings < trunc then Inr (([], 2), w)
          else Inr ((map (\<lambda>i. strings ! (i + trunc)) [0..<length strings - trunc], 0), w))"

definition backtrace_to_string ::
  "(string \<Rightarrow> int \<Rightarrow> string option) \<Rightarrow> origin \<Rightarrow> string list option \<Rightarrow> nat \<Rightarrow> string \<Rightarrow> lworld \<Rightarrow>
   (string \<times> lworld) res" where
  "backtrace_to_string put_time src symbols trunc prefix w =
     res_bind (backtrace put_time src symbols trunc w) (\<lambda>((ss, _), w1).
     Inr (concat (map (\<lambda>s. prefix @ s @ endl) ss), w1))"

text \<open>
  What \<^verbatim>\<open>SYLAR_ASSERT\<close> (\<open>msg = []\<close>) and \<^verbatim>\<open>SYLAR_ASSERT_WITH_MSG\<close> log, and the macros as a whole: the
  value of the expression is \<open>b\<close>, and \<^verbatim>\<open>assert\<close> evaluates it again to the same value.
\<close>

definition assert_report ::
  "(string \<Rightarrow> int \<Rightarrow> string option) \<Rightarrow> origin \<Rightarrow> string list option \<Rightarrow> string \<Rightarrow> string list \<Rightarrow>
   lworld \<Rightarrow> lworld res" where
  "assert_report put_time src symbols expr msg =
     log_statement put_time src kFatal (get_logger root_name) (\<lambda>e w.
       let e1 = fold stream_put ([''ASSERT: '' @ expr, endl] @ concat (map (\<lambda>m. [m, endl]) msg) @
         [''backtrace:'', endl]) e in
       res_bind (backtrace_to_string put_time src symbols 2 [char_of (9 :: nat)] w) (\<lambda>(s, w1).
       Inr (stream_put s e1, w1)))"

definition sylar_assert_macro ::
  "(string \<Rightarrow> int \<Rightarrow> string option) \<Rightarrow> origin \<Rightarrow> string list option \<Rightarrow> bool \<Rightarrow> string \<Rightarrow> string list \<Rightarrow>
   lworld \<Rightarrow> unit res \<times> lworld" where
  "sylar_assert_macro put_time src symbols b expr msg w =
     (if \<not> b then
        (case assert_report put_time src symbols expr msg w of
           Inl e \<Rightarrow> (Inl e, w)
         | Inr w1 \<Rightarrow> (Inl Assert_failed, w1))
      else (Inr (), w))"


section \<open>Writing to an event\<close>

lemma open_stream_simps [simp]:
  "trigger (open_stream e) = trigger e" "message (open_stream e) = message e" "time (open_stream e) = time e"
  "line_num (open_stream e) = line_num e" "file_name (open_stream e) = file_name e"
  "thread_id (open_stream e) = thread_id e" "routine_id (open_stream e) = routine_id e"
  "ev_level (open_stream e) = ev_level e" "put_pos (open_stream e) = 0"
  "log_event.truncate (open_stream e) = e"
  by (simp_all add: open_stream_def log_event.extend_def open_event.fields_def log_event.truncate_def)

lemma stream_put_Nil: "put_pos e \<le> length (message e) \<Longrightarrow> stream_put [] e = e"
  by (simp add: stream_put_def)

lemma stream_put_append:
  assumes "put_pos e \<le> length (message e)"
  shows "stream_put t (stream_put s e) = stream_put (s @ t) e"
proof -
  have "min (length (message e)) (put_pos e) = put_pos e" using assms by simp
  then show ?thesis by (simp add: stream_put_def add.commute add.left_commute)
qed

lemma stream_put_room: "put_pos e \<le> length (message e) \<Longrightarrow>
    put_pos (stream_put s e) \<le> length (message (stream_put s e))"
  by (simp add: stream_put_def)

lemma fold_stream_put:
  "put_pos e \<le> length (message e) \<Longrightarrow> fold stream_put parts e = stream_put (concat parts) e"
proof (induction parts arbitrary: e)
  case Nil
  then show ?case by (simp add: stream_put_Nil)
next
  case (Cons s parts)
  from Cons.IH[OF stream_put_room[OF Cons.prems]] show ?case
    by (simp add: stream_put_append[OF Cons.prems])
qed

lemma stream_put_frame [simp]:
  "trigger (stream_put s e) = trigger e" "file_name (stream_put s e) = file_name e"
  by (simp_all add: stream_put_def)

lemma written_event:
  "log_event.truncate (fold stream_put parts (open_stream e)) =
    e\<lparr>message := concat parts @ drop (length (concat parts)) (message e)\<rparr>"
  by (simp add: fold_stream_put stream_put_def log_event.truncate_def)

text \<open>
  On an event made with a text the first \<^verbatim>\<open>SetMessage\<close> writes over the start of that text, so the
  tail of a longer text stays behind the new one.
\<close>

lemma set_message_overwrites:
  "get_message (set_message s (open_stream (new_log_event msg lv now tid))) = s @ drop (length s) msg"
  by (simp add: get_message_def set_message_def stream_put_def new_log_event_def)

lemma backtrace_leaks:
  "backtrace put_time src (Some ss) trunc w = Inr ((rs, n), w') \<Longrightarrow> n = (if length ss < trunc then 2 else 0)"
  by (auto simp: backtrace_def split: if_splits)

section \<open>Outcomes of statements\<close>

text \<open>What stays as a process goes on: loggers are only added.\<close>

definition later :: "lworld \<Rightarrow> lworld \<Rightarrow> bool" where
  "later w w' \<longleftrightarrow> lworld_wf w' \<and> (\<forall>l. loggers w l \<noteq> None \<longrightarrow> loggers w' l \<noteq> None)"

lemma later_trans: "later w1 w2 \<Longrightarrow> later w2 w3 \<Longrightarrow> later w1 w3"
  by (simp add: later_def)

lemma same_tree_later: "lworld_wf w \<Longrightarrow> same_tree w w' \<Longrightarrow> later w w'"
  by (simp add: later_def same_tree_wf) (simp add: same_tree_def)

text \<open>An expression that finds a logger, the same one when it is evaluated again.\<close>

definition finds :: "(lworld \<Rightarrow> (nat \<times> lworld) res) \<Rightarrow> lworld \<Rightarrow> nat \<Rightarrow> lworld \<Rightarrow> bool" where
  "finds logger_expr w l w1 \<longleftrightarrow>
     logger_expr w = Inr (l, w1) \<and> logger_expr w1 = Inr (l, w1) \<and> later w w1 \<and> loggers w1 l \<noteq> None"

lemma finds_held: "lworld_wf w \<Longrightarrow> loggers w l \<noteq> None \<Longrightarrow> finds (\<lambda>w. Inr (l, w)) w l w"
  by (simp add: finds_def later_def)

lemma finds_get_logger:
  assumes "lworld_wf w"
  obtains l w1 where "finds (get_logger n) w l w1"
proof (cases "named w n")
  case (Some l)
  then have "loggers w l \<noteq> None" using lworld_wfD(9)[OF assms] by force
  with Some assms have "finds (get_logger n) w l w" by (simp add: finds_def get_logger_def later_def)
  then show ?thesis by (rule that)
next
  case None
  have "loggers (with_logger n w) l \<noteq> None" if "loggers w l \<noteq> None" for l
    using that by (simp add: with_logger_def put_named_def put_logger_def)
  with None with_logger_wf[OF assms None]
  have "finds (get_logger n) w (next_obj w) (with_logger n w)"
    by (auto simp: finds_def get_logger_def init_logger_spec[OF assms None] later_def)
       (simp_all add: with_logger_def put_named_def put_logger_def)
  then show ?thesis by (rule that)
qed

text \<open>A call that goes well or meets the assertion of a logger without parent and appenders.\<close>

definition well_or_asserts :: "('a \<Rightarrow> bool) \<Rightarrow> 'a res \<Rightarrow> bool" where
  "well_or_asserts P r \<longleftrightarrow> r = Inl Assert_failed \<or> (\<exists>x. r = Inr x \<and> P x)"

lemma well_or_asserts_bind:
  "well_or_asserts P r \<Longrightarrow> (\<And>x. P x \<Longrightarrow> well_or_asserts Q (f x)) \<Longrightarrow> well_or_asserts Q (res_bind r f)"
  unfolding well_or_asserts_def by (metis res_bind_Inl res_bind_Inr)

lemma well_or_asserts_Inr [simp]: "well_or_asserts P (Inr x) \<longleftrightarrow> P x"
  by (simp add: well_or_asserts_def)

lemma logger_log_outcome:
  assumes "lworld_wf w" "loggers w l \<noteq> None" "traced e"
  shows "well_or_asserts (later w) (returns (logger_log put_time e l w))"
proof -
  from logger_log_returns[OF assms(1,2), of put_time e] show ?thesis
  proof (elim disjE exE)
    fix t assume t: "delegates w e l t"
    then obtain g where g: "loggers w t = Some g" using delegates_target by blast
    then have "\<forall>a\<in>set (appenderArray g). \<exists>p. appenders w a = Some p \<and> ap_formatter p \<noteq> None"
      using lworld_wfD(6)[OF assms(1)] by blast
    from log_all_eq[OF assms(3) this] obtain w' where
      "log_all put_time e (appenderArray g) w = Inr w'" "same_tree w w'" by blast
    then show ?thesis
      using same_tree_later[OF assms(1)] by (simp add: logger_log_delegates[OF t g] returns_def)
  qed (use assms(1) in \<open>simp_all add: well_or_asserts_def later_def returns_def\<close>)
qed

lemma wrapper_end_outcome:
  fixes e :: open_event
  assumes "lworld_wf w" "trigger e = Some l" "loggers w l \<noteq> None" "file_name e \<noteq> None"
  shows "well_or_asserts (later w) (wrapper_end put_time e w)"
proof -
  have "traced (log_event.truncate e)" using assms(2,4) by (simp add: traced_def log_event.truncate_def)
  from logger_log_outcome[OF assms(1,3) this, of put_time] assms(2) show ?thesis
    by (auto simp: wrapper_end_def well_or_asserts_def)
qed

lemma log_statement_outcome:
  assumes f: "finds logger_expr w l w1"
    and fill: "\<And>e w. lworld_wf w \<Longrightarrow>
      well_or_asserts (\<lambda>(e', w'). trigger e' = trigger e \<and> file_name e' = file_name e \<and> later w w') (fill e w)"
  shows "well_or_asserts (later w) (log_statement put_time src lv logger_expr fill w)"
proof -
  obtain g where g: "loggers w1 l = Some g" using f by (auto simp: finds_def)
  have w1: "later w w1" "lworld_wf w1" using f by (simp_all add: finds_def later_def)
  have "well_or_asserts (later w) (res_bind (fill (open_stream (statement_event src lv l)) w1)
      (\<lambda>(e, w3). wrapper_end put_time e w3))"
  proof (rule well_or_asserts_bind[OF fill[OF w1(2)]], clarsimp)
    fix e :: open_event and w3
    assume e: "trigger e = trigger (statement_event src lv l)"
      "file_name e = file_name (statement_event src lv l)" and l: "later w1 w3"
    then have "well_or_asserts (later w3) (wrapper_end put_time e w3)"
      using g by (intro wrapper_end_outcome[where l = l]) (auto simp: statement_event_def later_def)
    with l w1(1) later_trans show "well_or_asserts (later w) (wrapper_end put_time e w3)"
      unfolding well_or_asserts_def by blast
  qed
  with f g w1(1) show ?thesis by (simp add: log_statement_def finds_def)
qed


lemma sylar_log_outcome:
  assumes "finds logger_expr w l w1"
  shows "well_or_asserts (later w) (sylar_log put_time src lv logger_expr parts w)"
  unfolding sylar_log_def
proof (rule log_statement_outcome[OF assms])
  fix e :: open_event and w
  assume "lworld_wf w"
  moreover have "trigger (fold stream_put parts e) = trigger e \<and> file_name (fold stream_put parts e) = file_name e"
    by (induction parts arbitrary: e) simp_all
  ultimately show "well_or_asserts (\<lambda>(e', w'). trigger e' = trigger e \<and> file_name e' = file_name e \<and> later w w')
      (Inr (fold stream_put parts e, w))"
    by (simp add: later_def)
qed

lemma backtrace_to_string_outcome:
  assumes "lworld_wf w"
  shows "well_or_asserts (\<lambda>(s, w'). later w w') (backtrace_to_string put_time src symbols trunc prefix w)"
proof (cases symbols)
  case None
  obtain l w1 where "finds (get_logger system_name) w l w1" by (rule finds_get_logger[OF assms])
  from sylar_log_outcome[OF this, of put_time src kError "[''failed to call ::backtrace_symbols'']"] None
  show ?thesis by (auto simp: backtrace_to_string_def backtrace_def well_or_asserts_def)
next
  case (Some ss)
  with assms show ?thesis by (simp add: backtrace_to_string_def backtrace_def later_def)
qed

lemma assert_report_outcome:
  assumes "lworld_wf w"
  shows "well_or_asserts (later w) (assert_report put_time src symbols expr msg w)"
proof -
  obtain l w1 where f: "finds (get_logger root_name) w l w1" by (rule finds_get_logger[OF assms])
  have keep: "trigger (fold stream_put ps e) = trigger e \<and> file_name (fold stream_put ps e) = file_name e"
    for ps and e :: open_event
    by (induction ps arbitrary: e) simp_all
  show ?thesis
    unfolding assert_report_def Let_def
  proof (rule log_statement_outcome[OF f], rule well_or_asserts_bind[OF backtrace_to_string_outcome])
    fix e :: open_event and w1 w2 and x :: "string \<times> lworld"
    assume "case x of (s, w') \<Rightarrow> later w1 w'"
    then show "well_or_asserts (\<lambda>(e', w'). trigger e' = trigger e \<and> file_name e' = file_name e \<and> later w1 w')
        (case x of (s, w1) \<Rightarrow> Inr (stream_put s (fold stream_put ([''ASSERT: '' @ expr, endl] @
          concat (map (\<lambda>m. [m, endl]) msg) @ [''backtrace:'', endl]) e), w1))"
      by (simp add: keep split: prod.splits)
  qed
qed

section \<open>Properties\<close>

definition main_cpp :: origin where
  "main_cpp = \<lparr>at_time = 0, at_thread = 1, at_line = 7, at_file = ''main.cpp''\<rparr>"

text \<open>
  C21: The outcome of \<^verbatim>\<open>SYLAR_ASSERT\<close> does not depend on what it logs: in every process whose
  loggers are in order, with or without a backtrace, and whatever the loggers and appenders are
  set to, a true expression goes on with nothing changed and a false one ends the process by the
  failed assertion. So \<open>sylar_assert\<close> stands for the macro.
\<close>

theorem assert_macro_refines:
  assumes "lworld_wf w"
  shows "fst (sylar_assert_macro put_time src symbols b expr msg w) = sylar_assert b"
  using assert_report_outcome[OF assms, of put_time src symbols expr msg]
  by (auto simp: sylar_assert_macro_def well_or_asserts_def)

theorem assert_macro_refines_witness:
  "fst (sylar_assert_macro (\<lambda>_ _. None) main_cpp None (2 < (1 :: nat)) ''2 < 1'' [] root_world) = Inl Assert_failed"
  using assert_macro_refines[OF root_world_wf] by (simp add: sylar_assert_def)

text \<open>
  A failed assertion leaves its report behind: if the root logger has appenders and the
  symbols of the stack are there, each of them receives one fatal event of the root logger, with the
  expression, the message, and one line for every frame but the two innermost, before the process ends.
\<close>

theorem failed_assertion_reports:
  assumes "lworld_wf w" "named w root_name = Some r" "loggers w r = Some g" "appenderArray g \<noteq> []"
    and "2 \<le> length ss"
    and "e = (statement_event src kFatal r)\<lparr>message := ''ASSERT: '' @ expr @ endl @
      concat (map (\<lambda>m. m @ endl) msg) @ ''backtrace:'' @ endl @
      concat (map (\<lambda>s. char_of (9 :: nat) # s @ endl) (drop 2 ss))\<rparr>"
  shows "\<exists>w'. sylar_assert_macro put_time src (Some ss) False expr msg w = (Inl Assert_failed, w') \<and>
    (\<forall>s. streams w' s = streams w s @ concat (map (line_of put_time e w s) (appenderArray g)))"
proof -
  have get: "get_logger root_name w = Inr (r, w)" using assms(2) by (simp add: get_logger_def)
  have level: "lg_level g \<le> kFatal" by (cases "lg_level g") (simp_all add: less_eq_level_def)
  define parts where "parts = [''ASSERT: '' @ expr, endl] @ concat (map (\<lambda>m. [m, endl]) msg) @ [''backtrace:'', endl]"
  define tail where "tail = concat (map (\<lambda>s. char_of (9 :: nat) # s @ endl) (drop 2 ss))"
  have frames: "map (\<lambda>i. ss ! (i + 2)) [0..<length ss - 2] = drop 2 ss"
    using assms(5) by (intro nth_equalityI) (simp_all add: add.commute)
  have bt: "backtrace_to_string put_time src (Some ss) 2 [char_of (9 :: nat)] w = Inr (tail, w)"
    using assms(5) by (simp add: backtrace_to_string_def backtrace_def frames tail_def
        del: map_map add_2_eq_Suc')
  have "concat (map (\<lambda>m. m @ endl) msg) = concat (concat (map (\<lambda>m. [m, endl]) msg))"
    by (induction msg) simp_all
  then have e: "e = (statement_event src kFatal r)\<lparr>message := concat (parts @ [tail])\<rparr>"
    by (simp add: assms(6) parts_def tail_def)
  define o1 where "o1 = fold stream_put (parts @ [tail]) (open_stream (statement_event src kFatal r))"
  have trunc: "log_event.truncate o1 = e"
    unfolding o1_def written_event e by (simp add: statement_event_def)
  have trig: "trigger o1 = Some r" using trunc e by (simp add: statement_event_def log_event.truncate_def)
  have "delegates w e r r"
    by (rule delegates.here[OF assms(3)]) (simp_all add: assms(4) e statement_event_def level)
  note log = logger_log_delegates[OF this assms(3), of put_time]
  have "traced e" by (simp add: e statement_event_def traced_def)
  from log_all_eq[OF this, of "appenderArray g" w put_time] lworld_wfD(6)[OF assms(1,3)] obtain w' where
    w': "log_all put_time e (appenderArray g) w = Inr w'"
    "streams w' = (\<lambda>s. streams w s @ concat (map (line_of put_time e w s) (appenderArray g)))" by blast
  have "assert_report put_time src (Some ss) expr msg = log_statement put_time src kFatal (get_logger root_name)
      (\<lambda>e w. let e1 = fold stream_put parts e in
        res_bind (backtrace_to_string put_time src (Some ss) 2 [char_of (9 :: nat)] w)
          (\<lambda>(s, w1). Inr (stream_put s e1, w1)))"
    unfolding parts_def by (rule assert_report_def)
  then have "assert_report put_time src (Some ss) expr msg w = wrapper_end put_time o1 w"
    using assms(3) level by (simp add: log_statement_def get bt o1_def)
  also have "\<dots> = Inr w'"
    by (simp add: wrapper_end_def trunc trig log w'(1) returns_def)
  finally show ?thesis using w'(2) by (simp add: sylar_assert_macro_def)
qed

theorem failed_assertion_reports_witness:
  "\<exists>w'. sylar_assert_macro (\<lambda>_ _. None) main_cpp (Some [''a'', ''b'', ''main'']) False ''x'' [] root_world =
      (Inl Assert_failed, w') \<and> (\<exists>line. streams w' 0 = line @ [char_of (9 :: nat)] @ ''main'' @ endl)"
proof -
  have root: "named root_world root_name = Some 0" "loggers root_world 0 = Some \<lparr>lg_name = root_name,
      lg_level = kDebug, appenderArray = [1], lg_formatter = Some root_items, parent = None\<rparr>"
    by (simp_all add: root_world_def)
  define e where "e = (statement_event main_cpp kFatal 0)\<lparr>message := ''ASSERT: '' @ ''x'' @ endl @
      concat (map (\<lambda>m. m @ endl) []) @ ''backtrace:'' @ endl @
      concat (map (\<lambda>s. char_of (9 :: nat) # s @ endl) (drop 2 [''a'', ''b'', ''main'']))\<rparr>"
  from failed_assertion_reports[OF root_world_wf root _ _ e_def, of "\<lambda>_ _. None"] obtain w' where
    w': "sylar_assert_macro (\<lambda>_ _. None) main_cpp (Some [''a'', ''b'', ''main'']) False ''x'' [] root_world =
      (Inl Assert_failed, w')" "streams w' 0 = streams root_world 0 @ line_of (\<lambda>_ _. None) e root_world 0 1"
    by auto
  have "\<exists>line. streams w' 0 = line @ [char_of (9 :: nat)] @ ''main'' @ endl"
    unfolding w'(2)
    by (simp add: e_def root_world_def line_of_def root_items_def shown_def less_eq_level_def statement_event_def)
  with w'(1) show ?thesis by blast
qed

text \<open>
  A statement whose event passes the levels up to the nearest logger with appenders writes
  one event to each of these appenders, with the parts of the statement in order as its message
  and with the logger, the time, the thread, the line and the file of the statement; the process
  is otherwise unchanged.
\<close>

theorem statement_written_once:
  assumes "lworld_wf w" "loggers w l = Some g"
    and "e = (statement_event src lv l)\<lparr>message := concat parts\<rparr>"
    and "delegates w e l t" "loggers w t = Some h"
  shows "\<exists>w'. sylar_log put_time src lv (\<lambda>w. Inr (l, w)) parts w = Inr w' \<and> same_tree w w' \<and>
    (\<forall>s. streams w' s = streams w s @ concat (map (line_of put_time e w s) (appenderArray h)))"
proof -
  have "lg_level g \<le> lv"
    using assms(2-4) by (auto elim: delegates.cases simp: statement_event_def)
  define o1 where "o1 = fold stream_put parts (open_stream (statement_event src lv l))"
  have trunc: "log_event.truncate o1 = e"
    unfolding o1_def written_event assms(3) by (simp add: statement_event_def)
  have trig: "trigger o1 = Some l" using trunc assms(3) by (simp add: statement_event_def log_event.truncate_def)
  have "traced e" by (simp add: assms(3) statement_event_def traced_def)
  from log_all_eq[OF this, of "appenderArray h" w put_time] lworld_wfD(6)[OF assms(1,5)] obtain w' where
    w': "log_all put_time e (appenderArray h) w = Inr w'" "same_tree w w'"
    "streams w' = (\<lambda>s. streams w s @ concat (map (line_of put_time e w s) (appenderArray h)))" by blast
  have "sylar_log put_time src lv (\<lambda>w. Inr (l, w)) parts w = wrapper_end put_time o1 w"
    using assms(2) \<open>lg_level g \<le> lv\<close> by (simp add: sylar_log_def log_statement_def o1_def)
  also have "\<dots> = Inr w'"
    by (simp add: wrapper_end_def trunc trig logger_log_delegates[OF assms(4,5)] w'(1) returns_def)
  finally show ?thesis using w'(2,3) by simp
qed

theorem statement_written_once_witness:
  "\<exists>w'. sylar_log (\<lambda>_ _. None) main_cpp kWarn (\<lambda>w. Inr (0, w)) [''n = '', ''3''] root_world = Inr w' \<and>
    (\<exists>line. streams w' 0 = line @ ''n = 3'')"
proof -
  have root: "loggers root_world 0 = Some \<lparr>lg_name = root_name, lg_level = kDebug, appenderArray = [1],
      lg_formatter = Some root_items, parent = None\<rparr>"
    by (simp add: root_world_def)
  define e where "e = (statement_event main_cpp kWarn 0)\<lparr>message := concat [''n = '', ''3'']\<rparr>"
  have "delegates root_world e 0 0"
    by (rule delegates.here[OF root]) (simp_all add: e_def statement_event_def less_eq_level_def)
  from statement_written_once[OF root_world_wf root e_def this root, of "\<lambda>_ _. None"] obtain w' where
    w': "sylar_log (\<lambda>_ _. None) main_cpp kWarn (\<lambda>w. Inr (0, w)) [''n = '', ''3''] root_world = Inr w'"
    "streams w' 0 = streams root_world 0 @ line_of (\<lambda>_ _. None) e root_world 0 1"
    by auto
  have "\<exists>line. streams w' 0 = line @ ''n = 3''"
    unfolding w'(2)
    by (simp add: e_def root_world_def line_of_def root_items_def shown_def less_eq_level_def statement_event_def)
  with w'(1) show ?thesis by blast
qed

text \<open>A statement below the level of its logger does nothing: its operands are not evaluated.\<close>

lemma statement_below_level:
  assumes "finds logger_expr w l w1" "loggers w1 l = Some g" "lv < lg_level g"
  shows "log_statement put_time src lv logger_expr fill w = Inr w1"
  using assms leD[of "lg_level g" lv] by (auto simp: log_statement_def finds_def)

end
