(* ===== verification/Log_Race.thy ===== *)
theory Log_Race
  imports Loggers
begin

text \<open>
  Threads that log while others reconfigure the loggers (\<^verbatim>\<open>base/log.cpp\<close>). \<^verbatim>\<open>Logger::Log\<close> reads
  the level without a lock, looks at the appenders under the logger's mutex, and then, without the
  mutex, goes on to the parent or through its copy of the appenders, taking the mutex of each
  appender in turn; each of these is a step. The other calls are those of Loggers, each one step:
  they hold the mutex of the logger or of the manager for their whole duration, but for
  \<^verbatim>\<open>SetParent\<close>, whose steps are in Logger_Race. While \<^verbatim>\<open>SetFormatter\<close> goes through the appenders, a
  thread that writes to one of them finds the old or the new formatter, as it does here before or
  after the call.
\<close>

section \<open>Steps\<close>

text \<open>
  A thread outside of \<^verbatim>\<open>Log\<close>; in \<^verbatim>\<open>Log\<close> of a logger, before the level is read, before the mutex is
  taken, and before \<^verbatim>\<open>parent_\<close> is read; and with a copy of the appenders still to be written to.
\<close>

datatype log_pc =
    Out
  | At nat log_event
  | Locking nat log_event
  | To_parent nat log_event
  | To_appenders "nat list" log_event

record log_threads =
  shared :: lworld
  writers :: "log_pc list"

datatype log_action = Call_log nat nat log_event | Log_on nat | Change log_op

fun log_step ::
  "(string \<Rightarrow> int \<Rightarrow> string option) \<Rightarrow> log_pc \<Rightarrow> lworld \<Rightarrow> (log_pc \<times> lworld) res option" where
  "log_step pt Out w = None"
| "log_step pt (At l e) w =
     Some (res_bind (deref (loggers w l)) (\<lambda>g.
       Inr (if ev_level e \<ge> lg_level g then Locking l e else Out, w)))"
| "log_step pt (Locking l e) w =
     Some (res_bind (deref (loggers w l)) (\<lambda>g.
       if appenderArray g = [] then
         res_bind (sylar_assert (parent g \<noteq> None)) (\<lambda>_. Inr (To_parent l e, w))
       else Inr (To_appenders (appenderArray g) e, w)))"
| "log_step pt (To_parent l e) w =
     Some (res_bind (deref (loggers w l)) (\<lambda>g.
       res_bind (deref (parent g)) (\<lambda>p. Inr (At p e, w))))"
| "log_step pt (To_appenders [] e) w = Some (Inr (Out, w))"
| "log_step pt (To_appenders (a # as) e) w =
     Some (res_bind (appender_log pt e a w) (\<lambda>w'. Inr (To_appenders as e, w')))"

fun log_act ::
  "(string \<Rightarrow> int \<Rightarrow> string option) \<Rightarrow> log_action \<Rightarrow> log_threads \<Rightarrow> log_threads res option" where
  "log_act pt (Call_log i l e) s =
     (if i < length (writers s) \<and> writers s ! i = Out
      then Some (Inr (s\<lparr>writers := (writers s)[i := At l e]\<rparr>)) else None)"
| "log_act pt (Log_on i) s =
     (if i < length (writers s) then
        map_option (\<lambda>r. res_bind r (\<lambda>(c, w). Inr \<lparr>shared = w, writers = (writers s)[i := c]\<rparr>))
          (log_step pt (writers s ! i) (shared s))
      else None)"
| "log_act pt (Change (L_log e l)) s = None"
| "log_act pt (Change x) s = Some (res_bind (log_exec pt x (shared s)) (\<lambda>w. Inr (s\<lparr>shared := w\<rparr>)))"

section \<open>What changes leave alone\<close>

text \<open>Every logger at the top of the tree has an appender, so that no event runs out of loggers.\<close>

definition rooted :: "lworld \<Rightarrow> bool" where
  "rooted w \<longleftrightarrow> (\<forall>l g. loggers w l = Some g \<longrightarrow> parent g = None \<longrightarrow> appenderArray g \<noteq> [])"

definition formatted :: "lworld \<Rightarrow> nat \<Rightarrow> bool" where
  "formatted w a \<longleftrightarrow> (\<exists>p. appenders w a = Some p \<and> ap_formatter p \<noteq> None)"

text \<open>
  \<open>keeps w w'\<close>: loggers stay, those with a parent keep having one, and appenders with a formatter
  keep having one.
\<close>

definition keeps :: "lworld \<Rightarrow> lworld \<Rightarrow> bool" where
  "keeps w w' \<longleftrightarrow>
     (\<forall>l g. loggers w l = Some g \<longrightarrow>
        (\<exists>g'. loggers w' l = Some g' \<and> (parent g \<noteq> None \<longrightarrow> parent g' \<noteq> None))) \<and>
     (\<forall>a. formatted w a \<longrightarrow> formatted w' a)"

lemma keeps_refl: "keeps w w"
  by (simp add: keeps_def)

lemma keeps_put_logger:
  "loggers w l = Some g \<Longrightarrow> (parent g \<noteq> None \<Longrightarrow> parent g' \<noteq> None) \<Longrightarrow> keeps w (put_logger l g' w)"
  by (auto simp: keeps_def formatted_def)

lemma keeps_put_appender: "ap_formatter p \<noteq> None \<Longrightarrow> keeps w (put_appender a p w)"
  by (auto simp: keeps_def formatted_def)

lemma keeps_trans: "keeps w w1 \<Longrightarrow> keeps w1 w2 \<Longrightarrow> keeps w w2"
  unfolding keeps_def by meson

lemma give_formatter_keeps:
  "give_formatter (Some f) as w = Inr w' \<Longrightarrow> keeps w w' \<and> loggers w' = loggers w"
proof (induction as arbitrary: w)
  case (Cons a as)
  then obtain p where p: "appenders w a = Some p" by (auto simp: res_bind_eq_Inr)
  define w1 where "w1 = (if \<not> hasSpecialFormatter p
    then put_appender a (p\<lparr>ap_formatter := Some f, hasSpecialFormatter := False\<rparr>) w else w)"
  have "give_formatter (Some f) as w1 = Inr w'" using Cons.prems p by (simp add: w1_def)
  moreover have "keeps w w1 \<and> loggers w1 = loggers w"
    by (simp add: w1_def keeps_refl keeps_put_appender)
  ultimately show ?case using Cons.IH[of w1] keeps_trans by auto
qed (simp add: keeps_refl)

text \<open>Changes that take the appenders of no logger at the top, and give no logger the null parent.\<close>

fun gentle :: "log_op \<Rightarrow> lworld \<Rightarrow> bool" where
  "gentle (L_clear l) w \<longleftrightarrow> (case loggers w l of Some g \<Rightarrow> parent g \<noteq> None | None \<Rightarrow> True)"
| "gentle (L_set_parent l p) w \<longleftrightarrow> p \<noteq> None"
| "gentle (L_log e l) w \<longleftrightarrow> False"
| "gentle _ w \<longleftrightarrow> True"

lemma rooted_put_logger:
  "rooted w \<Longrightarrow> (parent g' = None \<Longrightarrow> appenderArray g' \<noteq> []) \<Longrightarrow> rooted (put_logger l g' w)"
  by (auto simp: rooted_def)

lemma rooted_same: "loggers w' = loggers w \<Longrightarrow> rooted w' = rooted w"
  by (simp add: rooted_def)

lemma rootedD: "rooted w \<Longrightarrow> loggers w l = Some g \<Longrightarrow> parent g = None \<Longrightarrow> appenderArray g \<noteq> []"
  by (simp add: rooted_def)

lemma set_formatter_keeps:
  assumes "rooted w" "logger_set_formatter l (Some f) w = Inr w'"
  shows "keeps w w' \<and> rooted w'"
proof -
  obtain g where g: "loggers w l = Some g"
    "give_formatter (Some f) (appenderArray g) (put_logger l (g\<lparr>lg_formatter := Some f\<rparr>) w) = Inr w'"
    using assms(2) by (auto simp: logger_set_formatter_def res_bind_eq_Inr)
  let ?w1 = "put_logger l (g\<lparr>lg_formatter := Some f\<rparr>) w"
  have "keeps w ?w1" "rooted ?w1"
    using g(1) rootedD[OF assms(1) g(1)] by (auto intro: keeps_put_logger rooted_put_logger[OF assms(1)])
  with give_formatter_keeps[OF g(2)] keeps_trans rooted_same show ?thesis by blast
qed

lemma add_appender_keeps:
  assumes w: "lworld_wf w" and r: "rooted w" "add_appender l a w = Inr w'"
  shows "keeps w w' \<and> rooted w'"
proof -
  obtain g p where g: "loggers w l = Some g" and p: "appenders w a = Some p"
    using r(2) by (auto simp: add_appender_def res_bind_eq_Inr)
  define w1 where "w1 = (if \<not> hasSpecialFormatter p
    then put_appender a (p\<lparr>ap_formatter := lg_formatter g\<rparr>) w else w)"
  have "lg_formatter g \<noteq> None" using lworld_wfD(4)[OF w g] .
  then have k: "keeps w w1" by (simp add: w1_def keeps_refl keeps_put_appender)
  have g1: "loggers w1 = loggers w" by (simp add: w1_def)
  have w': "w' = put_logger l (g\<lparr>appenderArray := appenderArray g @ [a]\<rparr>) w1"
    using r(2) g p by (simp add: add_appender_def w1_def Let_def)
  have "keeps w1 w'" unfolding w' by (rule keeps_put_logger) (use g g1 in simp_all)
  moreover have "rooted w'" unfolding w' using r(1) rooted_same[OF g1] by (intro rooted_put_logger) auto
  ultimately show ?thesis using k keeps_trans by blast
qed

lemma get_logger_keeps:
  assumes w: "lworld_wf w" and r: "rooted w" "get_logger n w = Inr (l, w')"
  shows "keeps w w' \<and> rooted w'"
proof (cases "named w n")
  case (Some k)
  with r show ?thesis by (simp add: get_logger_def keeps_refl)
next
  case None
  with r(2) init_logger_spec[OF w None] have w': "w' = with_logger n w" by (simp add: get_logger_def)
  have "loggers w (next_obj w) = None"
    using lworld_wfD(3)[OF w, of "next_obj w"] by (cases "loggers w (next_obj w)") auto
  then show ?thesis
    using r(1) unfolding w'
    by (auto simp: keeps_def rooted_def formatted_def with_logger_def fresh_logger_def put_named_def put_logger_def)
qed

lemma change_keeps:
  assumes w: "lworld_wf w" and r: "rooted w" and x: "gentle x w" "log_exec pt x w = Inr w'"
  shows "keeps w w' \<and> rooted w'"
proof (cases x)
  case (L_get n)
  with x(2) get_logger_keeps[OF w r] show ?thesis by (auto simp: res_bind_eq_Inr)
next
  case (L_remove n)
  with x(2) r show ?thesis
    by (auto simp: remove_logger_def drop_named_def keeps_def formatted_def rooted_def)
next
  case (L_set_parent l p)
  with x obtain q g where "p = Some q" "loggers w l = Some g" "w' = put_logger l (g\<lparr>parent := p\<rparr>) w"
    by (auto simp: res_bind_eq_Inr set_parent_def)
  then show ?thesis by (auto intro: keeps_put_logger rooted_put_logger[OF r])
next
  case (L_set_level l v)
  with x(2) obtain g where g: "loggers w l = Some g" "w' = put_logger l (g\<lparr>lg_level := v\<rparr>) w"
    by (auto simp: logger_set_level_def res_bind_eq_Inr)
  have "rooted w'" unfolding g(2) by (rule rooted_put_logger[OF r]) (use rootedD[OF r g(1)] in simp)
  with g show ?thesis by (simp add: keeps_put_logger)
next
  case (L_add_appender l a)
  with x(2) add_appender_keeps[OF w r] show ?thesis by simp
next
  case (L_clear l)
  with x obtain g where g: "loggers w l = Some g" "parent g \<noteq> None" "w' = put_logger l (g\<lparr>appenderArray := []\<rparr>) w"
    by (auto simp: clear_all_appender_def res_bind_eq_Inr)
  then show ?thesis by (auto intro: keeps_put_logger rooted_put_logger[OF r])
next
  case (L_set_formatter l f)
  with x(2) set_formatter_keeps[OF r] show ?thesis by simp
next
  case (A_new s)
  have "appenders w (next_obj w) = None"
    using lworld_wfD(7)[OF w, of "next_obj w"] by (cases "appenders w (next_obj w)") auto
  with A_new x(2) r show ?thesis
    by (auto simp: alloc_appender_def keeps_def formatted_def rooted_def put_appender_def)
next
  case (A_set_formatter a f)
  with x(2) obtain p where p: "w' = put_appender a (p\<lparr>ap_formatter := Some f, hasSpecialFormatter := True\<rparr>) w"
    by (auto simp: appender_set_formatter_def res_bind_eq_Inr)
  have "rooted w'" using r by (simp add: p rooted_def)
  then show ?thesis by (simp add: p keeps_put_appender)
next
  case (A_set_level a v)
  with x(2) obtain p where p: "appenders w a = Some p" "w' = put_appender a (p\<lparr>ap_level := v\<rparr>) w"
    by (auto simp: appender_set_level_def res_bind_eq_Inr)
  have "rooted w'" using r by (simp add: p(2) rooted_def)
  moreover have "keeps w w'" using p(1) by (simp add: p(2) keeps_def formatted_def)
  ultimately show ?thesis by simp
qed (use x in simp)

section \<open>Threads that log\<close>

fun pc_ok :: "lworld \<Rightarrow> log_pc \<Rightarrow> bool" where
  "pc_ok w Out \<longleftrightarrow> True"
| "pc_ok w (At l e) \<longleftrightarrow> loggers w l \<noteq> None \<and> traced e"
| "pc_ok w (Locking l e) \<longleftrightarrow> loggers w l \<noteq> None \<and> traced e"
| "pc_ok w (To_parent l e) \<longleftrightarrow> (\<exists>g. loggers w l = Some g \<and> parent g \<noteq> None) \<and> traced e"
| "pc_ok w (To_appenders as e) \<longleftrightarrow> list_all (formatted w) as \<and> traced e"

definition log_inv :: "log_threads \<Rightarrow> bool" where
  "log_inv s \<longleftrightarrow> lworld_wf (shared s) \<and> rooted (shared s) \<and> list_all (pc_ok (shared s)) (writers s)"

text \<open>
  What the threads do: log complete events through existing loggers, and make changes that succeed
  and are gentle.
\<close>

fun orderly :: "(string \<Rightarrow> int \<Rightarrow> string option) \<Rightarrow> log_action \<Rightarrow> log_threads \<Rightarrow> bool" where
  "orderly pt (Call_log i l e) s \<longleftrightarrow> loggers (shared s) l \<noteq> None \<and> traced e"
| "orderly pt (Log_on i) s \<longleftrightarrow> True"
| "orderly pt (Change x) s \<longleftrightarrow> gentle x (shared s) \<and> \<not> isl (log_exec pt x (shared s))"

lemma pc_ok_keeps: "pc_ok w c \<Longrightarrow> keeps w w' \<Longrightarrow> pc_ok w' c"
proof (induction c)
  case (To_appenders as e)
  then show ?case by (auto simp: keeps_def list_all_iff)
next
  case (To_parent l e)
  then show ?case unfolding keeps_def by fastforce
qed (auto simp: keeps_def, blast+)

lemma same_tree_keeps: "same_tree w w' \<Longrightarrow> keeps w w'"
  by (auto simp: same_tree_def keeps_def formatted_def)

lemma log_step_ok:
  assumes w: "lworld_wf w" and rt: "rooted w" and c: "pc_ok w c" and r: "log_step pt c w = Some r"
  shows "\<exists>c' w'. r = Inr (c', w') \<and> same_tree w w' \<and> pc_ok w' c'"
proof (cases c)
  case (At l e)
  with c r show ?thesis by (auto simp: same_tree_def)
next
  case (Locking l e)
  with c obtain g where g: "loggers w l = Some g" by auto
  have "\<forall>a\<in>set (appenderArray g). formatted w a"
    using lworld_wfD(6)[OF w g] by (simp add: formatted_def)
  with Locking c r g rootedD[OF rt g] show ?thesis
    by (auto simp: same_tree_def list_all_iff sylar_assert_def split: if_splits)
next
  case (To_parent l e)
  with c obtain g p where "loggers w l = Some g" "parent g = Some p" by auto
  with To_parent c r lworld_wfD(5)[OF w] show ?thesis by (auto simp: same_tree_def)
next
  case (To_appenders as e)
  show ?thesis
  proof (cases as)
    case Nil
    with To_appenders r show ?thesis by (auto simp: same_tree_def)
  next
    case (Cons a bs)
    with To_appenders c obtain p where p: "appenders w a = Some p" "ap_formatter p \<noteq> None" "traced e"
      by (auto simp: formatted_def)
    from appender_log_eq[OF p(3,1,2)] obtain w' where w': "appender_log pt e a w = Inr w'" "same_tree w w'"
      by blast
    have "pc_ok w (To_appenders bs e)" using To_appenders Cons c by simp
    from pc_ok_keeps[OF this same_tree_keeps[OF w'(2)]] w' To_appenders Cons r show ?thesis by auto
  qed
qed (use r in simp)

lemma log_act_inv:
  assumes i: "log_inv s" and o: "orderly pt a s" and r: "log_act pt a s = Some r"
  shows "\<exists>t. r = Inr t \<and> log_inv t"
proof (cases a)
  case (Call_log i l e)
  with assms show ?thesis by (auto simp: log_inv_def intro!: list_all_update split: if_splits)
next
  case (Log_on j)
  with r obtain q where j: "j < length (writers s)" and q: "log_step pt (writers s ! j) (shared s) = Some q"
    "r = res_bind q (\<lambda>(c, w). Inr \<lparr>shared = w, writers = (writers s)[j := c]\<rparr>)"
    by (auto split: if_splits)
  have inv: "lworld_wf (shared s)" "rooted (shared s)" "list_all (pc_ok (shared s)) (writers s)"
    using i by (simp_all add: log_inv_def)
  with j have "pc_ok (shared s) (writers s ! j)" by (simp add: list_all_length)
  from log_step_ok[OF inv(1,2) this q(1)] obtain c w where c: "q = Inr (c, w)" "same_tree (shared s) w" "pc_ok w c"
    by blast
  have "list_all (pc_ok w) (writers s)"
    using inv(3) pc_ok_keeps[OF _ same_tree_keeps[OF c(2)]] by (auto simp: list_all_iff)
  moreover have "lworld_wf w" using same_tree_wf[OF c(2)] inv(1) by simp
  moreover have "rooted w" using inv(2) c(2) by (simp add: rooted_def same_tree_def)
  ultimately show ?thesis using q(2) c by (simp add: log_inv_def list_all_update)
next
  case (Change x)
  with o obtain w where x: "gentle x (shared s)" "log_exec pt x (shared s) = Inr w"
    by (auto simp: isl_def) (metis sum.exhaust)
  have inv: "lworld_wf (shared s)" "rooted (shared s)" "list_all (pc_ok (shared s)) (writers s)"
    using i by (simp_all add: log_inv_def)
  note k = change_keeps[OF inv(1,2) x]
  have "list_all (pc_ok w) (writers s)" using inv(3) pc_ok_keeps k by (auto simp: list_all_iff)
  moreover have "r = Inr (s\<lparr>shared := w\<rparr>)" using r Change x by (cases x) auto
  ultimately show ?thesis using log_exec_wf[OF inv(1) x(2)] k by (simp add: log_inv_def)
qed

interpretation logging_threads: guarded_interleaving "log_act pt" log_inv "orderly pt" for pt
  by unfold_locales (rule log_act_inv)

section \<open>A call that is not interrupted\<close>

lemma writing_alone:
  assumes "i < length cs" "log_all pt e as w = Inr w'"
  shows "interleave (log_act pt) (replicate (Suc (length as)) (Log_on i))
      \<lparr>shared = w, writers = cs[i := To_appenders as e]\<rparr> = Some (Inr \<lparr>shared = w', writers = cs[i := Out]\<rparr>)"
  using assms(2)
proof (induction as arbitrary: w)
  case Nil
  with assms(1) show ?case by simp
next
  case (Cons a as)
  then obtain w1 where w1: "appender_log pt e a w = Inr w1" "log_all pt e as w1 = Inr w'"
    by (auto simp: res_bind_eq_Inr)
  have "log_act pt (Log_on i) \<lparr>shared = w, writers = cs[i := To_appenders (a # as) e]\<rparr> =
      Some (Inr \<lparr>shared = w1, writers = cs[i := To_appenders as e]\<rparr>)"
    using assms(1) w1(1) by simp
  with Cons.IH[OF w1(2)] show ?case by (simp del: log_act.simps)
qed

lemma log_alone:
  assumes w: "lworld_wf w" and i: "i < length cs"
  shows "loggers w l \<noteq> None \<Longrightarrow> logger_log pt e l w = Some (Inr w') \<Longrightarrow>
    \<exists>n. interleave (log_act pt) (replicate n (Log_on i)) \<lparr>shared = w, writers = cs[i := At l e]\<rparr> =
      Some (Inr \<lparr>shared = w', writers = cs[i := Out]\<rparr>)"
  using lworld_wfD(1)[OF w]
proof (induction l rule: wf_induct_rule)
  case (less l)
  then obtain g where g: "loggers w l = Some g" by blast
  let ?at = "\<lambda>c. \<lparr>shared = w, writers = cs[i := c]\<rparr>"
  show ?case
  proof (cases "lg_level g \<le> ev_level e")
    case False
    with less.prems(2) g have "w' = w" by (simp add: logger_log.simps)
    then show ?thesis using False g i by (intro exI[of _ 1]) simp
  next
    case True
    have one: "log_act pt (Log_on i) (?at (At l e)) = Some (Inr (?at (Locking l e)))"
      using True g i by simp
    show ?thesis
    proof (cases "appenderArray g = []")
      case False
      then have two: "log_act pt (Log_on i) (?at (Locking l e)) =
          Some (Inr (?at (To_appenders (appenderArray g) e)))"
        using g i by simp
      have "log_all pt e (appenderArray g) w = Inr w'"
        using less.prems(2) True False g by (simp add: logger_log.simps)
      from writing_alone[OF i this] one two show ?thesis
        by (intro exI[of _ "Suc (Suc (Suc (length (appenderArray g))))"]) (simp del: log_act.simps)
    next
      case empty: True
      with less.prems(2) True g obtain p where p: "parent g = Some p" "logger_log pt e p w = Some (Inr w')"
        by (auto simp: logger_log.simps[of pt e l] split: option.splits)
      have two: "log_act pt (Log_on i) (?at (Locking l e)) = Some (Inr (?at (To_parent l e)))"
        and three: "log_act pt (Log_on i) (?at (To_parent l e)) = Some (Inr (?at (At p e)))"
        using g i empty p(1) by (simp_all add: sylar_assert_def)
      have "(p, l) \<in> parent_rel w" using g p(1) by (auto simp: parent_rel_def)
      from less.IH[OF this lworld_wfD(5)[OF w g p(1)] p(2)] obtain n where
        "interleave (log_act pt) (replicate n (Log_on i)) (?at (At p e)) =
          Some (Inr \<lparr>shared = w', writers = cs[i := Out]\<rparr>)" by blast
      with one two three show ?thesis
        by (intro exI[of _ "Suc (Suc (Suc n))"]) (simp del: log_act.simps)
    qed
  qed
qed

section \<open>Properties\<close>


definition loud_event :: log_event where
  "loud_event = orphan_event\<lparr>trigger := Some 0\<rparr>"

lemma root_world_rooted: "rooted root_world"
  by (simp add: rooted_def root_world_def)

definition changing_run :: "log_action list" where
  "changing_run = [Change (L_get ''a''), Call_log 0 2 loud_event, Log_on 0, Call_log 1 0 loud_event,
     Log_on 1, Change (L_set_level 2 kError), Change (L_clear 2), Log_on 0, Log_on 1, Log_on 0, Log_on 0]"

lemma get_a: "get_logger ''a'' root_world = Inr (2, with_logger ''a'' root_world)"
proof -
  have "named root_world ''a'' = None" "next_obj root_world = 2" by (simp_all add: root_world_def root_name_def)
  with init_logger_spec[OF root_world_wf] show ?thesis by (simp add: get_logger_def)
qed

lemmas log_race_simps = get_a with_logger_def fresh_logger_def put_named_def put_logger_def
  root_world_def new_logger_def orphan_event_def loud_event_def less_eq_level_def traced_def sylar_assert_def
  logger_set_level_def clear_all_appender_def numeral_2_eq_2[symmetric]


text \<open>
  A call of \<^verbatim>\<open>Log\<close> that no other thread interrupts takes finitely many steps, leaves the loggers,
  appenders and streams as the sequential model of \<^verbatim>\<open>Log\<close> says, and is over.
\<close>

theorem uninterrupted_log:
  assumes "lworld_wf (shared s)" "loggers (shared s) l \<noteq> None" "i < length (writers s)" "writers s ! i = Out"
    and "logger_log pt e l (shared s) = Some (Inr w)"
  shows "\<exists>n. interleave (log_act pt) (Call_log i l e # replicate n (Log_on i)) s = Some (Inr (s\<lparr>shared := w\<rparr>))"
proof -
  obtain n where n: "interleave (log_act pt) (replicate n (Log_on i))
      \<lparr>shared = shared s, writers = (writers s)[i := At l e]\<rparr> =
      Some (Inr \<lparr>shared = w, writers = (writers s)[i := Out]\<rparr>)"
    using log_alone[OF assms(1,3,2,5)] by blast
  have same: "(writers s)[i := Out] = writers s" using assms(3,4) by (metis list_update_id)
  have "s\<lparr>writers := (writers s)[i := At l e]\<rparr> = \<lparr>shared = shared s, writers = (writers s)[i := At l e]\<rparr>"
    "s\<lparr>shared := w\<rparr> = \<lparr>shared = w, writers = writers s\<rparr>" by simp_all
  then have "interleave (log_act pt) (Call_log i l e # replicate n (Log_on i)) s = Some (Inr (s\<lparr>shared := w\<rparr>))"
    using n assms(3,4) unfolding same by (cases s) simp
  then show ?thesis by blast
qed

theorem uninterrupted_log_witness:
  "\<exists>w n. logger_log (\<lambda>_ _. None) loud_event 0 root_world = Some (Inr w) \<and>
     interleave (log_act (\<lambda>_ _. None)) (Call_log 1 0 loud_event # replicate n (Log_on 1))
       \<lparr>shared = root_world, writers = [To_appenders [1] loud_event, Out]\<rparr> =
     Some (Inr \<lparr>shared = w, writers = [To_appenders [1] loud_event, Out]\<rparr>)"
proof -
  let ?s = "\<lparr>shared = root_world, writers = [To_appenders [1] loud_event, Out]\<rparr>"
  have "traced loud_event" "\<forall>a\<in>set [1]. \<exists>p. appenders root_world a = Some p \<and> ap_formatter p \<noteq> None"
    by (simp_all add: traced_def loud_event_def orphan_event_def root_world_def)
  from log_all_eq[OF this] obtain w where w: "log_all (\<lambda>_ _. None) loud_event [1] root_world = Inr w" by blast
  have "logger_log (\<lambda>_ _. None) loud_event 0 root_world = Some (Inr w)"
    using w by (simp add: logger_log.simps root_world_def loud_event_def orphan_event_def less_eq_level_def)
  with uninterrupted_log[of ?s 0 1 "\<lambda>_ _. None" loud_event w] show ?thesis
    using root_world_wf by (auto simp: root_world_def[THEN arg_cong[of _ _ loggers]] simp del: interleave.simps)
qed

text \<open>
  Reconfiguring the logger at the top of the tree is not safe while others log. A definition
  of the root logger clears its appenders before it adds the new ones; an event that has passed the
  level in between aborts the process, since the root has no parent. And \<^verbatim>\<open>Log\<close> looks at the parent
  under the mutex but follows it afterwards: if it is set to null in between, a null pointer is
  followed.
\<close>

theorem reconfiguration_races:
  "interleave (log_act pt) [Call_log 0 0 loud_event, Log_on 0, Change (L_clear 0), Log_on 0]
     \<lparr>shared = root_world, writers = [Out]\<rparr> = Some (Inl Assert_failed) \<and>
   interleave (log_act pt) [Change (L_get ''a''), Call_log 0 2 loud_event, Log_on 0, Log_on 0,
       Change (L_set_parent 2 None), Log_on 0]
     \<lparr>shared = root_world, writers = [Out]\<rparr> = Some (Inl Undefined_behaviour)"
  by (simp add: get_a) (simp add: log_race_simps set_parent_def cycle_walk.simps returns_def)

end
