(* ===== verification/Logger_Race.thy ===== *)
theory Logger_Race
  imports Loggers
begin

text \<open>
  Calls of \<^verbatim>\<open>Logger::SetParent\<close> by several threads at once (\<^verbatim>\<open>base/log.cpp\<close>). The mutex of a
  logger is held for one \<^verbatim>\<open>GetParent\<close> and for the final write, not for the call, so a step
  here is one \<^verbatim>\<open>GetParent\<close> of the walk up the parents, the end of the walk, or the write.
\<close>

section \<open>Steps\<close>

text \<open>
  What a thread is doing: \<open>Walking l p current\<close> and \<open>Writing l p\<close> are inside
  \<^verbatim>\<open>l->SetParent(p)\<close>, \<open>Refused\<close> is after its exception.
\<close>

datatype parent_call =
    No_call
  | Walking nat "nat option" "nat option"
  | Writing nat "nat option"
  | Refused

record lrace =
  tree :: lworld
  calls :: "parent_call list"

datatype race_action = Begin nat nat "nat option" | Advance nat

fun parent_step :: "parent_call \<Rightarrow> lworld \<Rightarrow> (parent_call \<times> lworld) res option" where
  "parent_step (Walking l p (Some c)) w =
     Some (if c = l then Inr (Refused, w)
           else res_bind (get_parent c w) (\<lambda>q. Inr (Walking l p q, w)))"
| "parent_step (Walking l p None) w = Some (Inr (Writing l p, w))"
| "parent_step (Writing l p) w =
     Some (res_bind (deref (loggers w l)) (\<lambda>g. Inr (No_call, put_logger l (g\<lparr>parent := p\<rparr>) w)))"
| "parent_step _ w = None"

fun race_act :: "race_action \<Rightarrow> lrace \<Rightarrow> lrace res option" where
  "race_act (Begin i l p) s =
     (if i < length (calls s) \<and> (calls s ! i = No_call \<or> calls s ! i = Refused)
      then Some (Inr (s\<lparr>calls := (calls s)[i := Walking l p p]\<rparr>)) else None)"
| "race_act (Advance i) s =
     (if i < length (calls s) then
        map_option (\<lambda>r. res_bind r (\<lambda>(c, w). Inr \<lparr>tree = w, calls = (calls s)[i := c]\<rparr>))
          (parent_step (calls s ! i) (tree s))
      else None)"

section \<open>A call that is not interrupted\<close>

lemma walk_alone:
  assumes "wf (parent_rel (tree s))"
    and ex: "\<And>l g p. loggers (tree s) l = Some g \<Longrightarrow> parent g = Some p \<Longrightarrow> loggers (tree s) p \<noteq> None"
    and i: "i < length (calls s)"
  shows "\<And>s'. loggers (tree s) c \<noteq> None \<Longrightarrow> tree s' = tree s \<Longrightarrow>
    calls s' = (calls s)[i := Walking l p (Some c)] \<Longrightarrow>
    \<exists>n t. interleave race_act (replicate n (Advance i)) s' = Some (Inr t) \<and> tree t = tree s \<and>
      calls t = (calls s)[i := if (l, c) \<in> (parent_rel (tree s))\<^sup>* then Refused else Writing l p]"
  using assms(1)
proof (induction c rule: wf_induct_rule)
  case (less c)
  then obtain g where g: "loggers (tree s) c = Some g" by blast
  have step: "race_act (Advance i) s' = Some (Inr \<lparr>tree = tree s, calls = (calls s)[i := k]\<rparr>)"
    if "parent_step (Walking l p (Some c)) (tree s) = Some (Inr (k, tree s))" for k
    using that less.prems(2,3) i by (simp del: parent_step.simps)
  show ?case
  proof (cases "c = l")
    case True
    then show ?thesis using step[of Refused] by (intro exI[of _ 1]) simp
  next
    case False
    note anc = rtrancl_parent[OF g False]
    define s1 where "s1 = \<lparr>tree = tree s, calls = (calls s)[i := Walking l p (parent g)]\<rparr>"
    have one: "race_act (Advance i) s' = Some (Inr s1)"
      using step False g by (simp add: get_parent_def s1_def)
    show ?thesis
    proof (cases "parent g")
      case None
      then have "race_act (Advance i) s1 = Some (Inr \<lparr>tree = tree s, calls = (calls s)[i := Writing l p]\<rparr>)"
        using i by (simp add: s1_def)
      with one None anc show ?thesis by (intro exI[of _ 2]) (simp add: numeral_2_eq_2)
    next
      case (Some q)
      have "(q, c) \<in> parent_rel (tree s)" using g Some by (auto simp: parent_rel_def)
      from less.IH[OF this, of s1] ex[OF g Some] obtain n t where
        "interleave race_act (replicate n (Advance i)) s1 = Some (Inr t)" "tree t = tree s"
        "calls t = (calls s)[i := if (l, q) \<in> (parent_rel (tree s))\<^sup>* then Refused else Writing l p]"
        using Some by (auto simp: s1_def)
      with one Some anc show ?thesis by (intro exI[of _ "Suc n"] exI[of _ t]) simp
    qed
  qed
qed

lemma call_alone:
  assumes w: "lworld_wf (tree s)" and l: "loggers (tree s) l = Some g" and q: "loggers (tree s) q \<noteq> None"
    and i: "i < length (calls s)" "calls s ! i = No_call"
  shows "\<exists>n t. interleave race_act (Begin i l (Some q) # replicate n (Advance i)) s = Some (Inr t) \<and>
    (if (l, q) \<in> (parent_rel (tree s))\<^sup>*
     then tree t = tree s \<and> calls t = (calls s)[i := Refused]
     else tree t = put_logger l (g\<lparr>parent := Some q\<rparr>) (tree s) \<and> calls t = calls s)"
proof -
  have ex: "loggers (tree s) p \<noteq> None" if "loggers (tree s) k = Some h" "parent h = Some p" for k h p
    using that by (rule lworld_wfD(5)[OF w])
  define s1 where "s1 = s\<lparr>calls := (calls s)[i := Walking l (Some q) (Some q)]\<rparr>"
  have b: "race_act (Begin i l (Some q)) s = Some (Inr s1)" using i by (simp add: s1_def)
  have "\<exists>n t. interleave race_act (replicate n (Advance i)) s1 = Some (Inr t) \<and> tree t = tree s \<and>
    calls t = (calls s)[i := if (l, q) \<in> (parent_rel (tree s))\<^sup>* then Refused else Writing l (Some q)]"
    by (rule walk_alone[OF lworld_wfD(1)[OF w] ex i(1) q]) (simp_all add: s1_def)
  then obtain n t where t: "interleave race_act (replicate n (Advance i)) s1 = Some (Inr t)" "tree t = tree s"
    "calls t = (calls s)[i := if (l, q) \<in> (parent_rel (tree s))\<^sup>* then Refused else Writing l (Some q)]"
    by blast
  show ?thesis
  proof (cases "(l, q) \<in> (parent_rel (tree s))\<^sup>*")
    case True
    with b t show ?thesis by (intro exI[of _ n] exI[of _ t]) simp
  next
    case False
    define u where "u = \<lparr>tree = put_logger l (g\<lparr>parent := Some q\<rparr>) (tree s), calls = calls s\<rparr>"
    have same: "(calls s)[i := No_call] = calls s" using i by (metis list_update_id)
    have "race_act (Advance i) t = Some (Inr u)"
      using t(2,3) False l i same by (simp add: u_def)
    then have "interleave race_act (replicate n (Advance i) @ [Advance i]) s1 = Some (Inr u)"
      by (simp add: interleave_append t(1) del: race_act.simps)
    with b False show ?thesis
      by (intro exI[of _ "Suc n"] exI[of _ u]) (simp add: u_def replicate_append_same del: race_act.simps)
  qed
qed

section \<open>A cycle of parents\<close>

text \<open>A call of \<^verbatim>\<open>Log\<close> that stays inside a set of loggers without appenders never returns.\<close>

lemma logger_log_in_cycle:
  assumes "\<And>l. l \<in> A \<Longrightarrow> \<exists>g p. loggers w l = Some g \<and> lg_level g \<le> ev_level e \<and> appenderArray g = [] \<and>
      parent g = Some p \<and> p \<in> A" and "l \<in> A"
  shows "logger_log put_time e l w = None"
proof -
  have "pt = put_time \<longrightarrow> e' = e \<longrightarrow> w' = w \<longrightarrow> k \<notin> A" if ret: "logger_log pt e' k w' = Some r" for pt e' k w' r
  proof (rule logger_log.raw_induct
      [where P = "\<lambda>pt e' k w' r. pt = put_time \<longrightarrow> e' = e \<longrightarrow> w' = w \<longrightarrow> k \<notin> A", OF _ ret], intro impI notI)
    fix f pt e' k w' r
    assume IH: "\<And>pt e' k w' r. f pt e' k w' = Some r \<Longrightarrow> pt = put_time \<longrightarrow> e' = e \<longrightarrow> w' = w \<longrightarrow> k \<notin> A"
      and body: "(case loggers w' k of None \<Rightarrow> Some (Inl Undefined_behaviour)
        | Some g \<Rightarrow> if lg_level g \<le> ev_level e' then
            if appenderArray g = [] then
              case parent g of None \<Rightarrow> Some (Inl Assert_failed) | Some p \<Rightarrow> f pt e' p w'
            else Some (log_all pt e' (appenderArray g) w')
          else Some (Inr w')) = Some r"
      and "pt = put_time" "e' = e" "w' = w" "k \<in> A"
    moreover from this assms(1) obtain g p where "loggers w k = Some g" "lg_level g \<le> ev_level e"
      "appenderArray g = []" "parent g = Some p" "p \<in> A" by blast
    ultimately have "f put_time e p w = Some r" by simp
    with IH \<open>p \<in> A\<close> show False by blast
  qed
  with assms(2) show ?thesis by (cases "logger_log put_time e l w") blast+
qed

section \<open>Two loggers of one process\<close>

definition two_loggers :: lworld where
  "two_loggers = with_logger ''b'' (with_logger ''a'' root_world)"

lemma two_loggers_wf: "lworld_wf two_loggers"
  unfolding two_loggers_def
  by (intro with_logger_wf root_world_wf)
     (simp_all add: root_world_def root_name_def with_logger_def put_named_def put_logger_def)

lemma two_loggers_look:
  "loggers two_loggers 2 = Some (fresh_logger ''a'' root_world)"
  "loggers two_loggers 3 = Some (fresh_logger ''b'' (with_logger ''a'' root_world))"
  "parent (fresh_logger n root_world) = Some 0"
  "parent (fresh_logger n (with_logger ''a'' root_world)) = Some 0"
  "loggers two_loggers 0 = loggers root_world 0"
  by (simp_all add: two_loggers_def fresh_logger_def with_logger_def put_named_def put_logger_def root_world_def
      new_logger_def)

definition crossing :: "race_action list" where
  "crossing = [Begin 0 2 (Some 3), Begin 1 3 (Some 2)] @
     [Advance 0, Advance 0, Advance 0, Advance 1, Advance 1, Advance 1, Advance 0, Advance 1]"

lemma crossing_result:
  "interleave race_act crossing \<lparr>tree = two_loggers, calls = [No_call, No_call]\<rparr> =
    Some (Inr \<lparr>tree = put_logger 3 ((fresh_logger ''b'' (with_logger ''a'' root_world))\<lparr>parent := Some 2\<rparr>)
        (put_logger 2 ((fresh_logger ''a'' root_world)\<lparr>parent := Some 3\<rparr>) two_loggers),
      calls = [No_call, No_call]\<rparr>)"
proof -
  have root: "get_parent 0 two_loggers = Inr None"
    by (simp add: get_parent_def two_loggers_look) (simp add: root_world_def)
  have ab: "get_parent 2 two_loggers = Inr (Some 0)" "get_parent 3 two_loggers = Inr (Some 0)"
    by (simp_all add: get_parent_def two_loggers_look)
  show ?thesis
    by (simp add: crossing_def root ab two_loggers_look put_logger_def numeral_2_eq_2[symmetric])
qed

text \<open>
  A call of \<^verbatim>\<open>SetParent\<close> that no other thread interrupts takes finitely many steps and does
  what the sequential model says: with the result of \<open>set_parent\<close> the tree is that result and
  the thread is out of the call, with its exception the tree is as it was.
\<close>

theorem uninterrupted_set_parent:
  assumes "lworld_wf (tree s)" "loggers (tree s) l \<noteq> None" "loggers (tree s) q \<noteq> None"
    and "i < length (calls s)" "calls s ! i = No_call"
  shows "\<exists>n t. interleave race_act (Begin i l (Some q) # replicate n (Advance i)) s = Some (Inr t) \<and>
    (case set_parent l (Some q) (tree s) of
       Inr w \<Rightarrow> tree t = w \<and> calls t = calls s
     | Inl e \<Rightarrow> e = Thrown Runtime_error \<and> tree t = tree s \<and> calls t = (calls s)[i := Refused])"
proof -
  from assms(2) obtain g where g: "loggers (tree s) l = Some g" by blast
  show ?thesis
    using call_alone[OF assms(1) g assms(3-5)] unfolding set_parent_spec[OF assms(1) g assms(3)]
    by (cases "(l, q) \<in> (parent_rel (tree s))\<^sup>*") simp_all
qed

theorem uninterrupted_set_parent_witness:
  "\<exists>n t. interleave race_act (Begin 1 2 (Some 3) # replicate n (Advance 1))
      \<lparr>tree = two_loggers, calls = [Refused, No_call]\<rparr> = Some (Inr t) \<and>
    tree t = put_logger 2 ((fresh_logger ''a'' root_world)\<lparr>parent := Some 3\<rparr>) two_loggers \<and>
    calls t = [Refused, No_call]"
proof -
  have "set_parent 2 (Some 3) two_loggers =
      Inr (put_logger 2 ((fresh_logger ''a'' root_world)\<lparr>parent := Some 3\<rparr>) two_loggers)"
    by (simp add: set_parent_def cycle_walk.simps get_parent_def two_loggers_look returns_def)
      (simp add: root_world_def cycle_walk.simps)
  with uninterrupted_set_parent[of "\<lparr>tree = two_loggers, calls = [Refused, No_call]\<rparr>" 2 3 1]
  show ?thesis by (simp add: two_loggers_wf two_loggers_look del: interleave.simps split: sum.splits)
qed

text \<open>
  C39: Two threads that give two loggers without appenders each other as parent can both pass the
  search for a cycle before either writes. Neither call throws; the parents then form a cycle,
  and from there \<^verbatim>\<open>Log\<close> of either logger never returns for an event that passes their level.
\<close>

theorem concurrent_set_parent_cycles:
  "\<exists>t. interleave race_act crossing \<lparr>tree = two_loggers, calls = [No_call, No_call]\<rparr> = Some (Inr t) \<and>
    calls t = [No_call, No_call] \<and> lworld_wf two_loggers \<and> \<not> lworld_wf (tree t) \<and>
    (\<forall>l\<in>{2, 3}. \<forall>e. ev_level e = kInfo \<longrightarrow> logger_log put_time e l (tree t) = None)"
proof -
  define w where "w = put_logger 3 ((fresh_logger ''b'' (with_logger ''a'' root_world))\<lparr>parent := Some 2\<rparr>)
        (put_logger 2 ((fresh_logger ''a'' root_world)\<lparr>parent := Some 3\<rparr>) two_loggers)"
  have "(2, 3) \<in> parent_rel w" "(3, 2) \<in> parent_rel w"
    by (simp_all add: parent_rel_def w_def put_logger_def)
  then have "\<not> wf (parent_rel w)" using wf_asym by metis
  then have "\<not> lworld_wf w" using lworld_wfD(1) by blast
  moreover have "logger_log put_time e l w = None" if "l \<in> {2, 3}" "ev_level e = kInfo" for e l
  proof (rule logger_log_in_cycle[where A = "{2, 3}"])
    show "\<exists>g p. loggers w k = Some g \<and> lg_level g \<le> ev_level e \<and> appenderArray g = [] \<and>
        parent g = Some p \<and> p \<in> {2, 3}" if "k \<in> {2, 3}" for k
      using that \<open>ev_level e = kInfo\<close>
      by (auto simp: w_def put_logger_def fresh_logger_def new_logger_def less_eq_level_def)
  qed (use that in simp)
  ultimately show ?thesis using crossing_result two_loggers_wf by (simp add: w_def)
qed

theorem concurrent_set_parent_cycles_witness:
  "\<exists>t. interleave race_act crossing \<lparr>tree = two_loggers, calls = [No_call, No_call]\<rparr> = Some (Inr t) \<and>
    logger_log (\<lambda>_ _. None) (orphan_event\<lparr>trigger := Some 2\<rparr>) 2 (tree t) = None"
  using concurrent_set_parent_cycles[of "\<lambda>_ _. None"] by (fastforce simp: orphan_event_def)

end
