(* ===== verification/Pool.thy ===== *)
theory Pool
  imports Task_Queue
begin

text \<open>
  The threads of one scheduler side by side (\<^verbatim>\<open>concurrency/scheduler.cpp\<close>,
  \<^verbatim>\<open>concurrency/notifier.cpp\<close>): an interleaving model of the scheduling loops, the shared task
  list and the eventfd that wakes threads. A step is one locked section, one write or read of
  the eventfd, or one switch between the parts of a loop; any thread may do the next one. The
  eventfd is a semaphore registered level-triggered: while its count is positive a polling
  thread may return from \<^verbatim>\<open>epoll_wait\<close>, and a read takes one from the count if there is one.
  What a task does is to post further tasks and to end; coroutines found in the list keep the
  states of \<open>h\<close>. A step that would abort the process is no step.
\<close>

section \<open>Threads\<close>

text \<open>
  Where a thread is in \<^verbatim>\<open>SchedulingFunc\<close>; the flag of \<open>Scanning\<close>, \<open>Notifying\<close> and \<open>Working\<close>
  tells whether its idle coroutine has terminated. \<open>Outside\<close> is the thread that made a scheduler
  with \<^verbatim>\<open>include_cur_thread\<close>: it runs the loop in the dummy main coroutine, which \<^verbatim>\<open>Stop\<close> enters.
\<close>

datatype pc =
    Scanning bool
  | Notifying bool "invocable option"
  | Working bool
  | Idle_check
  | Polling
  | Reading
  | Ended
  | Outside

record pool =
  sc :: sched
  tokens :: nat
  stop_pending :: "nat list"
  pcs :: "pc list"
  ids :: "pthread_t list"

definition go :: "nat \<Rightarrow> pc \<Rightarrow> pool \<Rightarrow> pool" where
  "go i c s = s\<lparr>pcs := (pcs s)[i := c]\<rparr>"

text \<open>After the scan: the task that was taken is run; without one, the idle coroutine is entered, or the loop ends.\<close>

definition after_scan :: "bool \<Rightarrow> invocable option \<Rightarrow> pc" where
  "after_scan idle_done t =
     (case t of Some _ \<Rightarrow> Working idle_done | None \<Rightarrow> if idle_done then Ended else Idle_check)"

section \<open>Steps\<close>

text \<open>The locked section of the loop.\<close>

definition pool_scan ::
  "(co_addr \<Rightarrow> coroutine option) \<Rightarrow> nat \<Rightarrow> bool \<Rightarrow> pool \<Rightarrow> pool option" where
  "pool_scan h i idle_done s =
     (case scan (ids s ! i) h False [] (taskList (sc s)) of
        Inl _ \<Rightarrow> None
      | Inr (need, t, rest) \<Rightarrow>
          let need_notify = need \<or> rest \<noteq> [] in
          Some (go i (if need_notify then Notifying idle_done t else after_scan idle_done t)
            (s\<lparr>sc := (sc s)\<lparr>taskList := rest\<rparr>\<rparr>)))"

text \<open>The \<^verbatim>\<open>Notify()\<close> after it, outside the lock.\<close>

definition pool_notify :: "nat \<Rightarrow> bool \<Rightarrow> invocable option \<Rightarrow> pool \<Rightarrow> pool" where
  "pool_notify i idle_done t s = go i (after_scan idle_done t) (s\<lparr>tokens := tokens s + 1\<rparr>)"

text \<open>\<^verbatim>\<open>Co\<close>, which notifies under the lock.\<close>

definition pool_co :: "invocable \<Rightarrow> pool \<Rightarrow> pool" where
  "pool_co t s =
     (let (c, need_notify) = add_task_no_lock t (sc s)
      in s\<lparr>sc := c, tokens := (if need_notify then tokens s + 1 else tokens s)\<rparr>)"

text \<open>One turn of the idle coroutine: \<^verbatim>\<open>HandleIdle\<close> ends, or polls.\<close>

definition pool_idle :: "nat \<Rightarrow> pool \<Rightarrow> pool" where
  "pool_idle i s = go i (if is_stopped (sc s) then Scanning True else Polling) s"

text \<open>\<^verbatim>\<open>HandleEventFd\<close>: a read of a count of 0 fails with \<^verbatim>\<open>EAGAIN\<close>, which is only logged.\<close>

definition pool_read :: "nat \<Rightarrow> pool \<Rightarrow> pool" where
  "pool_read i s = go i (Scanning False) (s\<lparr>tokens := tokens s - 1\<rparr>)"

text \<open>
  \<^verbatim>\<open>Stop\<close>: the flag is set first, the notifications are written afterwards, one for the threads
  of the pool together and one for the dummy main coroutine; then the caller enters that coroutine.
\<close>

definition pool_stop :: "pool \<Rightarrow> pool" where
  "pool_stop s = s\<lparr>sc := (sc s)\<lparr>stopped := True\<rparr>, stop_pending :=
     (if Outside \<in> set (pcs s) then [length (pcs s) - 1, 1] else [length (pcs s)])\<rparr>"

definition pool_stop_notify :: "pool \<Rightarrow> pool" where
  "pool_stop_notify s = s\<lparr>tokens := tokens s + hd (stop_pending s), stop_pending := tl (stop_pending s)\<rparr>"

definition pool_enter :: "nat \<Rightarrow> pool \<Rightarrow> pool" where
  "pool_enter i s = go i (Scanning False) s"

datatype action =
    Loop nat
  | Post nat invocable
  | Finish nat
  | Submit invocable
  | Other_event nat
  | Stop_flag
  | Stop_notify
  | Enter nat

text \<open>
  \<open>Loop i\<close> is the next step of thread \<open>i\<close> that needs nobody else; \<open>Post\<close> and \<open>Finish\<close> are
  steps of the task it runs, \<open>Submit\<close> is a \<^verbatim>\<open>Co\<close> from outside, and \<open>Other_event\<close> a timer or
  descriptor that becomes ready for a polling thread.
\<close>

fun loop_step :: "(co_addr \<Rightarrow> coroutine option) \<Rightarrow> nat \<Rightarrow> pc \<Rightarrow> pool \<Rightarrow> pool option" where
  "loop_step h i (Scanning d) s = pool_scan h i d s"
| "loop_step h i (Notifying d t) s = Some (pool_notify i d t s)"
| "loop_step h i Idle_check s = Some (pool_idle i s)"
| "loop_step h i Polling s = (if tokens s > 0 then Some (go i Reading s) else None)"
| "loop_step h i Reading s = Some (pool_read i s)"
| "loop_step h i _ s = None"

fun working :: "pc \<Rightarrow> bool" where
  "working (Working _) = True"
| "working _ = False"

fun act :: "(co_addr \<Rightarrow> coroutine option) \<Rightarrow> action \<Rightarrow> pool \<Rightarrow> pool option" where
  "act h (Loop i) s = (if i < length (pcs s) then loop_step h i (pcs s ! i) s else None)"
| "act h (Post i t) s =
     (if i < length (pcs s) \<and> working (pcs s ! i) then Some (pool_co t s) else None)"
| "act h (Finish i) s =
     (if i < length (pcs s) then
        (case pcs s ! i of Working d \<Rightarrow> Some (go i (Scanning d) s) | _ \<Rightarrow> None) else None)"
| "act h (Submit t) s = Some (pool_co t s)"
| "act h (Other_event i) s =
     (if i < length (pcs s) \<and> pcs s ! i = Polling then Some (go i (Scanning False) s) else None)"
| "act h Stop_flag s = (if \<not> stopped (sc s) then Some (pool_stop s) else None)"
| "act h Stop_notify s = (if stop_pending s \<noteq> [] then Some (pool_stop_notify s) else None)"
| "act h (Enter i) s =
     (if i < length (pcs s) \<and> pcs s ! i = Outside \<and> stopped (sc s) \<and> stop_pending s = []
      then Some (pool_enter i s) else None)"

text \<open>
  A pool of started threads, with the thread that made it if that one takes part, and what can
  become of it.
\<close>

definition started :: "sched \<Rightarrow> pthread_t list \<Rightarrow> pthread_t option \<Rightarrow> pool" where
  "started c ts caller = \<lparr>sc = c\<lparr>stopped := False\<rparr>, tokens = 0, stop_pending = [],
     pcs = replicate (length ts) (Scanning False) @ (case caller of None \<Rightarrow> [] | Some p \<Rightarrow> [Outside]),
     ids = ts @ (case caller of None \<Rightarrow> [] | Some p \<Rightarrow> [p])\<rparr>"

inductive reaches :: "(co_addr \<Rightarrow> coroutine option) \<Rightarrow> pool \<Rightarrow> pool \<Rightarrow> bool" for h s where
  here: "reaches h s s"
| step: "reaches h s t \<Longrightarrow> act h a t = Some u \<Longrightarrow> reaches h s u"

section \<open>No task is forgotten\<close>

text \<open>A thread on its way to the next scan.\<close>

fun awake :: "pc \<Rightarrow> bool" where
  "awake (Scanning _) = True"
| "awake (Notifying _ _) = True"
| "awake (Working _) = True"
| "awake Reading = True"
| "awake _ = False"

definition attended :: "pool \<Rightarrow> bool" where
  "attended s \<longleftrightarrow> taskList (sc s) = [] \<or> tokens s > 0 \<or> list_ex awake (pcs s)"

lemma list_ex_update: "i < length xs \<Longrightarrow> P x \<Longrightarrow> list_ex P (xs[i := x])"
  by (auto simp: list_ex_iff intro!: bexI[of _ x] set_update_memI)

lemma list_ex_other: "list_ex P xs \<Longrightarrow> \<not> P (xs ! i) \<Longrightarrow> list_ex P (xs[i := x])"
  by (metis list_ex_length length_list_update nth_list_update_neq)

lemma scan_None: "scan p h need acc ts = Inr (b, None, rest) \<Longrightarrow> rest = rev acc @ ts"
  by (induction p h need acc ts rule: scan.induct)
     (auto simp: res_bind_eq_Inr split: if_splits)

lemma pool_scan_attended:
  assumes "pool_scan h i d s = Some s'" "i < length (pcs s)"
  shows "attended s'"
proof -
  obtain need t rest where r: "scan (ids s ! i) h False [] (taskList (sc s)) = Inr (need, t, rest)"
    using assms(1) by (auto simp: pool_scan_def split: sum.splits)
  show ?thesis
  proof (cases "need \<or> rest \<noteq> []")
    case True
    with r assms show ?thesis
      by (auto simp: pool_scan_def Let_def attended_def go_def intro!: list_ex_update)
  next
    case False
    with r assms show ?thesis by (auto simp: pool_scan_def Let_def attended_def go_def)
  qed
qed

lemma loop_step_attended:
  assumes "attended s" "i < length (pcs s)" "loop_step h i (pcs s ! i) s = Some s'"
  shows "attended s'"
proof (cases "pcs s ! i")
  case (Scanning d)
  with assms(2,3) show ?thesis by (auto intro: pool_scan_attended)
next
  case (Notifying d t)
  with assms(3) show ?thesis by (auto simp: pool_notify_def go_def attended_def)
next
  case Idle_check
  then have "list_ex awake (pcs s) \<Longrightarrow> list_ex awake ((pcs s)[i := c])" for c
    by (intro list_ex_other) auto
  with Idle_check assms show ?thesis by (auto simp: pool_idle_def go_def attended_def)
next
  case Polling
  with assms show ?thesis by (auto simp: go_def attended_def split: if_splits)
next
  case Reading
  with assms show ?thesis by (auto simp: pool_read_def go_def attended_def intro!: list_ex_update)
qed (use assms in auto)

lemma pool_co_attended: "attended s \<Longrightarrow> attended (pool_co t s)"
  by (auto simp: pool_co_def add_task_no_lock_def attended_def)

lemma act_attended:
  assumes "attended s" "act h a s = Some s'"
  shows "attended s'"
proof (cases a)
  case (Loop i)
  with assms loop_step_attended show ?thesis by (auto split: if_splits)
next
  case (Post i t)
  with assms pool_co_attended show ?thesis by (auto split: if_splits)
next
  case (Finish i)
  with assms show ?thesis
    by (auto simp: go_def attended_def intro!: list_ex_update split: if_splits pc.splits)
next
  case (Submit t)
  with assms pool_co_attended show ?thesis by auto
next
  case (Other_event i)
  with assms show ?thesis
    by (auto simp: go_def attended_def intro!: list_ex_update split: if_splits)
next
  case Stop_flag
  with assms show ?thesis by (auto simp: pool_stop_def attended_def split: if_splits)
next
  case Stop_notify
  with assms show ?thesis by (auto simp: pool_stop_notify_def attended_def split: if_splits)
next
  case (Enter i)
  with assms show ?thesis
    by (auto simp: pool_enter_def go_def attended_def intro!: list_ex_update split: if_splits)
qed

lemma reaches_attended: "reaches h s t \<Longrightarrow> attended s \<Longrightarrow> attended t"
  by (induction rule: reaches.induct) (auto intro: act_attended)

lemma started_attended: "ts \<noteq> [] \<Longrightarrow> attended (started c ts caller)"
  by (cases ts) (auto simp: attended_def started_def)

section \<open>Runs\<close>

text \<open>A run given as the list of its actions, and the states of a run.\<close>

fun acts :: "(co_addr \<Rightarrow> coroutine option) \<Rightarrow> action list \<Rightarrow> pool \<Rightarrow> pool option" where
  "acts h [] s = Some s"
| "acts h (a # as) s = (case act h a s of None \<Rightarrow> None | Some t \<Rightarrow> acts h as t)"

lemma acts_append:
  "acts h (as @ bs) s = (case acts h as s of None \<Rightarrow> None | Some t \<Rightarrow> acts h bs t)"
  by (induction as arbitrary: s) (auto split: option.splits)

lemma acts_reaches: "acts h as s = Some t \<Longrightarrow> reaches h s t"
proof (induction as arbitrary: t rule: rev_induct)
  case (snoc a as)
  then show ?case
    by (auto simp: acts_append intro: reaches.step split: option.splits)
qed (simp add: reaches.here)

text \<open>
  Three threads. Thread 0 runs a task while \<^verbatim>\<open>Stop\<close> is called; its three wake-ups are read
  by the others, which go back to polling because the task posts more work.
\<close>

definition plain_task :: invocable where
  "plain_task = wrap_callback (Some Return) 0"

definition to_polling :: "nat \<Rightarrow> action list" where
  "to_polling i = [Loop i, Loop i]"

definition woken :: "nat \<Rightarrow> action list" where
  "woken i = [Loop i, Loop i, Loop i]"

definition hanging_run :: "action list" where
  "hanging_run =
     [Submit plain_task, Loop 0] @ to_polling 1 @ to_polling 2 @ woken 1 @ [Loop 1] @
     [Stop_flag, Stop_notify] @ woken 1 @ woken 2 @ [Post 0 plain_task, Loop 1, Loop 2] @
     woken 1 @ woken 2 @ [Finish 1, Loop 1, Post 0 plain_task, Loop 1, Loop 2] @
     woken 1 @ [Finish 1, Loop 1, Loop 1, Loop 1] @ [Finish 0, Loop 0, Loop 0, Loop 0]"

lemmas run_simps = plain_task_def to_polling_def woken_def hanging_run_def started_def
  pool_scan_def pool_notify_def pool_co_def pool_idle_def pool_read_def pool_stop_def
  pool_stop_notify_def pool_enter_def go_def after_scan_def add_task_no_lock_def is_stopped_def
  wrap_callback_def empty_sched_def

lemma hanging_run_ends:
  "acts h hanging_run (started (empty_sched ''main'') [1, 2, 3] None) =
     Some \<lparr>sc = (empty_sched ''main''), tokens = 0, stop_pending = [],
       pcs = [Ended, Ended, Polling], ids = [1, 2, 3]\<rparr>"
  by (simp add: run_simps)

section \<open>Properties\<close>

text \<open>
  C5: No wake-up is lost. However the threads of a started scheduler interleave with calls of
  \<^verbatim>\<open>Co\<close>, with \<^verbatim>\<open>Stop\<close> and with other events, as long as a task is in the list either a
  wake-up is still to be read from the eventfd, so that a polling thread returns from
  \<^verbatim>\<open>epoll_wait\<close>, or some thread is on its way to a scan of the list.
\<close>

theorem no_task_is_forgotten:
  assumes "reaches h (started c ts caller) s" "ts \<noteq> []"
  shows "taskList (sc s) = [] \<or> tokens s > 0 \<or> list_ex awake (pcs s)"
  using reaches_attended[OF assms(1) started_attended[OF assms(2)]] by (simp add: attended_def)

text \<open>
  C37: \<^verbatim>\<open>Stop\<close> may never return: its wake-ups are counted, not kept for the threads they are
  meant for. In a run of three threads, one of which runs a task that posts more work while
  \<^verbatim>\<open>Stop\<close> is called, two threads leave the scheduling loop and the third polls with an empty
  list and no wake-up left. Nothing inside the scheduler can wake it, and \<^verbatim>\<open>Join\<close> waits for it:
  only a further \<^verbatim>\<open>Co\<close> from outside or another ready descriptor would.
\<close>

theorem stop_can_hang:
  "\<exists>s. reaches h (started (empty_sched ''main'') [1, 2, 3] None) s \<and> is_stopped (sc s) \<and>
     tokens s = 0 \<and> stop_pending s = [] \<and> pcs s = [Ended, Ended, Polling] \<and>
     {a. act h a s \<noteq> None} \<subseteq> insert (Other_event 2) (range Submit)"
proof (intro exI conjI)
  let ?s = "\<lparr>sc = empty_sched ''main'', tokens = 0, stop_pending = [],
       pcs = [Ended, Ended, Polling], ids = [1, 2, 3]\<rparr>"
  show "reaches h (started (empty_sched ''main'') [1, 2, 3] None) ?s"
    using acts_reaches[OF hanging_run_ends] .
  have stuck: "act h a ?s = None" if "a \<notin> insert (Other_event 2) (range Submit)" for a
  proof (cases a)
    case (Loop i)
    then show ?thesis by (auto simp: nth_Cons split: nat.splits)
  next
    case (Post i t)
    then show ?thesis by (auto simp: nth_Cons split: nat.splits)
  next
    case (Finish i)
    then show ?thesis by (auto simp: nth_Cons split: nat.splits)
  next
    case (Other_event i)
    with that show ?thesis by (auto simp: nth_Cons numeral_2_eq_2 split: nat.splits)
  next
    case (Enter i)
    then show ?thesis by (auto simp: nth_Cons numeral_2_eq_2 split: nat.splits)
  qed (use that in \<open>auto simp: empty_sched_def\<close>)
  show "{a. act h a ?s \<noteq> None} \<subseteq> insert (Other_event 2) (range Submit)"
  proof (rule subsetI, rule ccontr)
    fix a assume a: "a \<in> {a. act h a ?s \<noteq> None}" "a \<notin> insert (Other_event 2) (range Submit)"
    show False using CollectD[OF a(1)] stuck[OF a(2)] by contradiction
  qed
qed (simp_all add: is_stopped_def empty_sched_def)

theorem no_task_is_forgotten_witness:
  "\<exists>s. reaches Map.empty (started (empty_sched ''main'') [1, 2] None) s \<and>
     taskList (sc s) = [plain_task] \<and> (tokens s > 0 \<or> list_ex awake (pcs s))"
proof -
  let ?run = "to_polling 0 @ to_polling 1 @ [Submit plain_task]"
  obtain s where s: "acts Map.empty ?run (started (empty_sched ''main'') [1, 2] None) = Some s"
    "taskList (sc s) = [plain_task]"
    by (simp add: run_simps)
  then show ?thesis
    using no_task_is_forgotten[OF acts_reaches[OF s(1)]] acts_reaches[OF s(1)] by auto
qed

end
