(* ===== verification/Pool_Runs.thy ===== *)
theory Pool_Runs
  imports Pool "HOL-Library.Multiset"
begin

text \<open>
  Runs of the interleaved threads of Pool: the steps of one thread against the sequential
  model of Task_Queue, the tasks taken in a run against the tasks posted, and \<^verbatim>\<open>Stop\<close> on a
  scheduler whose tasks have all ended.
\<close>

section \<open>The tasks taken in a run\<close>

text \<open>What a step takes from the list, with the thread that takes it, and what it posts.\<close>

fun takes :: "(co_addr \<Rightarrow> coroutine option) \<Rightarrow> action \<Rightarrow> pool \<Rightarrow> (pthread_t \<times> invocable) list" where
  "takes h (Loop i) s =
     (if i < length (pcs s) then
        (case pcs s ! i of
           Scanning _ \<Rightarrow>
             (case scan (ids s ! i) h False [] (taskList (sc s)) of
                Inr (_, Some t, _) \<Rightarrow> [(ids s ! i, t)]
              | _ \<Rightarrow> [])
         | _ \<Rightarrow> [])
      else [])"
| "takes h _ s = []"

fun posts :: "action \<Rightarrow> invocable list" where
  "posts (Post i t) = [t]"
| "posts (Submit t) = [t]"
| "posts _ = []"

fun taken :: "(co_addr \<Rightarrow> coroutine option) \<Rightarrow> action list \<Rightarrow> pool \<Rightarrow> (pthread_t \<times> invocable) list" where
  "taken h [] s = []"
| "taken h (a # as) s =
     takes h a s @ (case act h a s of None \<Rightarrow> [] | Some t \<Rightarrow> taken h as t)"

lemma scan_mset:
  "scan p h need acc ts = Inr (b, t, rest) \<Longrightarrow>
   mset rest + mset (case t of None \<Rightarrow> [] | Some x \<Rightarrow> [x]) = mset acc + mset ts"
  by (induction p h need acc ts rule: scan.induct) (auto simp: res_bind_eq_Inr split: if_splits)

lemma scan_eligible: "scan p h need acc ts = Inr (b, Some t, rest) \<Longrightarrow> eligible p t"
  by (induction p h need acc ts rule: scan.induct)
     (auto simp: res_bind_eq_Inr eligible_def split: if_splits)

lemma taskList_go [simp]: "taskList (sc (go i c s)) = taskList (sc s)"
  by (simp add: go_def)

lemma taskList_pool_co [simp]: "taskList (sc (pool_co t s)) = taskList (sc s) @ [t]"
  by (simp add: pool_co_def add_task_no_lock_def)

lemma act_mset:
  assumes "act h a s = Some s'"
  shows "mset (map snd (takes h a s)) + mset (taskList (sc s')) =
    mset (taskList (sc s)) + mset (posts a)"
proof (cases a)
  case (Loop i)
  show ?thesis
  proof (cases "pcs s ! i")
    case (Scanning d)
    with assms Loop have "pool_scan h i d s = Some s'" "i < length (pcs s)"
      by (auto split: if_splits)
    then show ?thesis
      using Loop Scanning
      by (auto simp: pool_scan_def Let_def add.commute dest!: scan_mset split: sum.splits option.splits)
  qed (use assms Loop in \<open>auto simp: pool_notify_def pool_idle_def pool_read_def split: if_splits\<close>)
qed (use assms in \<open>auto simp: pool_stop_def pool_stop_notify_def pool_enter_def split: if_splits pc.splits\<close>)

lemma ids_act: "act h a s = Some s' \<Longrightarrow> ids s' = ids s"
proof (cases a)
  case (Loop i)
  moreover assume "act h a s = Some s'"
  ultimately show ?thesis
    by (cases "pcs s ! i")
       (auto simp: pool_scan_def Let_def pool_notify_def pool_idle_def pool_read_def go_def
        split: if_splits sum.splits)
qed (auto simp: pool_stop_def pool_stop_notify_def pool_enter_def go_def pool_co_def add_task_no_lock_def
      split: if_splits pc.splits)

lemma takes_eligible: "list_all (\<lambda>(p, t). eligible p t) (takes h a s)"
  by (cases a) (auto split: pc.splits sum.splits option.splits dest: scan_eligible)

lemma acts_mset:
  "acts h as s = Some t \<Longrightarrow>
   mset (map snd (taken h as s)) + mset (taskList (sc t)) =
     mset (taskList (sc s)) + mset (concat (map posts as))"
proof (induction as arbitrary: s)
  case (Cons a as)
  then obtain s1 where s1: "act h a s = Some s1" "acts h as s1 = Some t"
    by (auto split: option.splits)
  have "mset (map snd (taken h (a # as) s)) + mset (taskList (sc t)) =
      mset (map snd (takes h a s)) + (mset (map snd (taken h as s1)) + mset (taskList (sc t)))"
    by (simp only: taken.simps s1(1) option.case map_append mset_append add.assoc)
  also have "\<dots> = (mset (map snd (takes h a s)) + mset (taskList (sc s1))) + mset (concat (map posts as))"
    unfolding Cons.IH[OF s1(2)] by (rule add.assoc[symmetric])
  also have "\<dots> = mset (taskList (sc s)) + mset (concat (map posts (a # as)))"
    unfolding act_mset[OF s1(1)] by (simp add: add.assoc)
  finally show ?case .
qed simp

lemma taken_eligible: "list_all (\<lambda>(p, t). eligible p t) (taken h as s)"
proof (induction as arbitrary: s)
  case (Cons a as)
  then show ?case using takes_eligible[of h a s] by (auto split: option.splits)
qed simp

section \<open>One thread against the sequential model\<close>

lemma pool_scan_take:
  assumes "i < length (pcs s)" "take_task (ids s ! i) h (sc s) = Inr (t, c)"
  shows "\<exists>s1. pool_scan h i d s = Some s1 \<and> taskList (sc s1) = taskList c \<and>
    (if length (notified c) = length (notified (sc s))
     then tokens s1 = tokens s \<and> pcs s1 = (pcs s)[i := after_scan d t]
     else length (notified c) = Suc (length (notified (sc s))) \<and> tokens s1 = tokens s \<and>
       pcs s1 = (pcs s)[i := Notifying d t])"
proof -
  obtain need rest where r: "scan (ids s ! i) h False [] (taskList (sc s)) = Inr (need, t, rest)"
    "c = (let s' = (sc s)\<lparr>taskList := rest\<rparr> in if need \<or> rest \<noteq> [] then notify 1 s' else s')"
    using assms(2) by (auto simp: take_task_def Let_def elim!: res_bind_InrE)
  show ?thesis unfolding pool_scan_def r by (simp add: Let_def go_def)
qed

section \<open>Stopping\<close>

text \<open>
  A quiet scheduler: no task in the list and none running. The steps it makes on its own are
  those of its threads, further events and the wake-ups of \<^verbatim>\<open>Stop\<close>; no task is posted.
\<close>

fun idle_pc :: "pc \<Rightarrow> bool" where
  "idle_pc (Notifying _ t) \<longleftrightarrow> t = None"
| "idle_pc (Working _) \<longleftrightarrow> False"
| "idle_pc _ \<longleftrightarrow> True"

definition quiet :: "pool \<Rightarrow> bool" where
  "quiet s \<longleftrightarrow> taskList (sc s) = [] \<and> list_all idle_pc (pcs s)"

fun own :: "action \<Rightarrow> bool" where
  "own (Post _ _) = False"
| "own (Submit _) = False"
| "own _ = True"

text \<open>How many steps a thread is from the end of its loop, and whether it needs a wake-up.\<close>

fun distance :: "pc \<Rightarrow> nat" where
  "distance (Notifying d _) = 6"
| "distance Polling = 5"
| "distance Reading = 4"
| "distance (Scanning d) = (if d then 1 else 3)"
| "distance Idle_check = 2"
| "distance Outside = 4"
| "distance _ = 0"

fun to_wake :: "pc \<Rightarrow> nat" where
  "to_wake Polling = 1"
| "to_wake Reading = 1"
| "to_wake _ = 0"

definition steps_left :: "pool \<Rightarrow> nat" where
  "steps_left s = sum_list (map distance (pcs s)) + length (stop_pending s)"

text \<open>Stopping, with a wake-up left for every thread that polls.\<close>

definition stopping :: "pool \<Rightarrow> bool" where
  "stopping s \<longleftrightarrow> quiet s \<and> stopped (sc s) \<and>
     sum_list (map to_wake (pcs s)) \<le> tokens s + sum_list (stop_pending s)"

text \<open>Moving thread \<open>i\<close> on.\<close>

lemma stopping_go:
  assumes "stopping s" "i < length (pcs s)" "idle_pc c" "distance c < distance (pcs s ! i)"
    "tokens s + to_wake c \<le> k + to_wake (pcs s ! i)"
  shows "stopping (go i c (s\<lparr>tokens := k\<rparr>)) \<and> steps_left (go i c (s\<lparr>tokens := k\<rparr>)) < steps_left s"
  using assms sum_list_map_update[of i "pcs s" to_wake c] sum_list_map_update[of i "pcs s" distance c]
  by (auto simp: stopping_def quiet_def steps_left_def go_def list_all_update)

lemma stopping_step:
  assumes "stopping s" "i < length (pcs s)" "loop_step h i (pcs s ! i) s = Some s'"
  shows "stopping s' \<and> steps_left s' < steps_left s"
proof -
  have q: "taskList (sc s) = []" "idle_pc (pcs s ! i)" "stopped (sc s)"
    using assms(1,2) by (auto simp: stopping_def quiet_def list_all_length)
  have same: "s\<lparr>tokens := tokens s\<rparr> = s" "s\<lparr>sc := (sc s)\<lparr>taskList := []\<rparr>\<rparr> = s"
    using q(1) by (cases "sc s"; simp)+
  note go = stopping_go[OF assms(1,2)]
  show ?thesis
  proof (cases "pcs s ! i")
    case (Scanning d)
    with assms(3) q(1) same(2) have "s' = go i (after_scan d None) s" by (simp add: pool_scan_def)
    with go[of "after_scan d None" "tokens s"] Scanning same(1) show ?thesis
      by (simp add: after_scan_def split: if_splits)
  next
    case (Notifying d t)
    with assms(3) q(2) have "s' = go i (after_scan d None) (s\<lparr>tokens := tokens s + 1\<rparr>)"
      by (simp add: pool_notify_def)
    with go[of "after_scan d None" "tokens s + 1"] Notifying show ?thesis
      by (simp add: after_scan_def split: if_splits)
  next
    case Idle_check
    with assms(3) q have "s' = go i (Scanning True) s" by (simp add: pool_idle_def is_stopped_def)
    with go[of "Scanning True" "tokens s"] Idle_check same(1) show ?thesis by simp
  next
    case Polling
    with assms(3) have "s' = go i Reading s" by (simp split: if_splits)
    with go[of Reading "tokens s"] Polling same(1) show ?thesis by simp
  next
    case Reading
    with assms(3) have "s' = go i (Scanning False) (s\<lparr>tokens := tokens s - 1\<rparr>)"
      by (simp add: pool_read_def)
    with go[of "Scanning False" "tokens s - 1"] Reading show ?thesis by simp
  qed (use assms(3) q(2) in auto)
qed

lemma act_stopping:
  assumes "stopping s" "own a" "act h a s = Some s'"
  shows "stopping s' \<and> steps_left s' < steps_left s"
proof (cases a)
  case (Loop i)
  with assms show ?thesis by (intro stopping_step) (auto split: if_splits)
next
  case (Finish i)
  with assms have "\<exists>d. pcs s ! i = Working d" "i < length (pcs s)" by (auto split: if_splits pc.splits)
  with assms(1) show ?thesis by (auto simp: stopping_def quiet_def list_all_length)
next
  case (Other_event i)
  with assms(3) have "i < length (pcs s)" "pcs s ! i = Polling" "s' = go i (Scanning False) s"
    by (auto split: if_splits)
  with stopping_go[OF assms(1), of i "Scanning False" "tokens s"] show ?thesis by simp
next
  case Stop_flag
  with assms show ?thesis by (simp add: stopping_def)
next
  case Stop_notify
  with assms show ?thesis
    by (cases "stop_pending s") (auto simp: stopping_def quiet_def steps_left_def pool_stop_notify_def)
next
  case (Enter i)
  with assms(3) have "i < length (pcs s)" "pcs s ! i = Outside" "s' = go i (Scanning False) s"
    by (auto simp: pool_enter_def split: if_splits)
  with stopping_go[OF assms(1), of i "Scanning False" "tokens s"] show ?thesis by simp
qed (use assms(2) in auto)

lemma acts_stopping:
  "stopping s \<Longrightarrow> list_all own as \<Longrightarrow> acts h as s = Some t \<Longrightarrow>
   stopping t \<and> length as + steps_left t \<le> steps_left s"
proof (induction as arbitrary: s)
  case (Cons a as)
  then obtain s1 where s1: "act h a s = Some s1" "acts h as s1 = Some t"
    by (auto split: option.splits)
  have "stopping s1 \<and> steps_left s1 < steps_left s"
    using act_stopping[OF Cons.prems(1) _ s1(1)] Cons.prems(2) by simp
  with Cons.IH[OF _ _ s1(2)] Cons.prems(2) show ?case by simp
qed simp

lemma stopping_progress:
  assumes "stopping s" "\<not> list_all ((=) Ended) (pcs s)"
  shows "\<exists>a. own a \<and> act h a s \<noteq> None"
proof -
  obtain i where i: "i < length (pcs s)" "pcs s ! i \<noteq> Ended"
    using assms(2) by (auto simp: list_all_length)
  have q: "taskList (sc s) = []" "idle_pc (pcs s ! i)"
    using assms(1) i(1) by (auto simp: stopping_def quiet_def list_all_length)
  show ?thesis
  proof (cases "stop_pending s = []")
    case False
    then have "own Stop_notify \<and> act h Stop_notify s \<noteq> None" by simp
    then show ?thesis by blast
  next
    case True
    show ?thesis
    proof (cases "pcs s ! i = Outside")
      case out: True
      with True i(1) assms(1) have "own (Enter i) \<and> act h (Enter i) s \<noteq> None" by (simp add: stopping_def)
      then show ?thesis by blast
    next
      case False
      have "to_wake (pcs s ! i) \<le> sum_list (map to_wake (pcs s))"
        using i(1) by (intro member_le_sum_list) auto
      with True assms(1) have "pcs s ! i = Polling \<Longrightarrow> tokens s > 0" by (auto simp: stopping_def)
      with i q False have "act h (Loop i) s \<noteq> None"
        by (cases "pcs s ! i") (auto simp: pool_scan_def Let_def)
      then have "own (Loop i) \<and> act h (Loop i) s \<noteq> None" by simp
      then show ?thesis by blast
    qed
  qed
qed

lemma to_wake_le: "sum_list (map to_wake xs) \<le> length xs"
proof (induction xs)
  case (Cons x xs)
  have "to_wake x \<le> 1" by (cases x) auto
  with Cons show ?case by simp
qed simp

lemma distance_le: "sum_list (map distance xs) \<le> 6 * length xs"
proof (induction xs)
  case (Cons x xs)
  have "distance x \<le> 6" by (cases x) auto
  with Cons show ?case by simp
qed simp

lemma pool_stop_stopping:
  "quiet s \<Longrightarrow> stopping (pool_stop s) \<and> steps_left (pool_stop s) \<le> 6 * length (pcs s) + 2"
  using to_wake_le[of "pcs s"] distance_le[of "pcs s"]
  by (auto simp: stopping_def quiet_def pool_stop_def steps_left_def)

section \<open>Properties\<close>

text \<open>
  C6: In every interleaving each task is run once: the tasks the threads have taken together
  with those still in the list are the tasks that were in the list before together with those
  posted, each as often as it was posted, and every task was taken by a thread it may run on.
\<close>

theorem each_task_taken_once:
  assumes "acts h as s = Some t"
  shows "mset (map snd (taken h as s)) + mset (taskList (sc t)) =
      mset (taskList (sc s)) + mset (concat (map posts as)) \<and>
    list_all (\<lambda>(p, t). eligible p t) (taken h as s)"
  using acts_mset[OF assms] taken_eligible by blast


text \<open>
  C11: \<^verbatim>\<open>Stop\<close> on a scheduler whose tasks have all ended returns: as long as no task is posted,
  every run after it, in whatever order the threads take turns and wherever they were, has at
  most six steps for each thread and two for the wake-ups, and while a thread has not left its
  loop a further step is possible; so all threads end and can be joined, and if the caller takes
  part itself, its dummy main coroutine comes back.
\<close>

theorem stop_returns_when_quiet:
  assumes "quiet s" "acts h (Stop_flag # as) s = Some t" "list_all own as"
  shows "length as \<le> 6 * length (pcs s) + 2 \<and>
    (list_all ((=) Ended) (pcs t) \<or> (\<exists>a. own a \<and> act h a t \<noteq> None))"
proof -
  have r: "acts h as (pool_stop s) = Some t" using assms(2) by (auto split: if_splits)
  from acts_stopping[OF _ assms(3) r] pool_stop_stopping[OF assms(1)]
  have "stopping t \<and> length as \<le> 6 * length (pcs s) + 2" by auto
  with stopping_progress[of t h] show ?thesis by blast
qed

definition two_idle :: pool where
  "two_idle = \<lparr>sc = (empty_sched ''main'')\<lparr>stopped := False\<rparr>, tokens = 0, stop_pending = [],
     pcs = [Polling, Idle_check, Outside], ids = [1, 2, 3]\<rparr>"

definition stop_run :: "action list" where
  "stop_run = [Stop_notify, Loop 1, Loop 0, Stop_notify, Loop 0, Loop 0, Enter 2, Loop 0, Loop 0, Loop 1,
     Loop 2, Loop 2, Loop 2]"

theorem stop_returns_when_quiet_witness:
  "\<exists>t. acts Map.empty (Stop_flag # stop_run) two_idle = Some t \<and> pcs t = [Ended, Ended, Ended] \<and>
     length stop_run \<le> 20"
proof -
  have q: "quiet two_idle" "list_all own stop_run"
    by (simp_all add: quiet_def two_idle_def stop_run_def empty_sched_def)
  obtain t where t: "acts Map.empty (Stop_flag # stop_run) two_idle = Some t" "pcs t = [Ended, Ended, Ended]"
    by (simp add: run_simps two_idle_def stop_run_def)
  from stop_returns_when_quiet[OF q(1) t(1) q(2)] t show ?thesis by (auto simp: two_idle_def)
qed

theorem each_task_taken_once_witness:
  "taken Map.empty [Submit plain_task, Loop 0] (started (empty_sched ''main'') [1, 2] None) = [(1, plain_task)]
   \<and> (\<exists>t. acts Map.empty [Submit plain_task, Loop 0] (started (empty_sched ''main'') [1, 2] None) = Some t \<and>
       {#plain_task#} + mset (taskList (sc t)) = {#plain_task#})"
proof -
  let ?as = "[Submit plain_task, Loop 0]" and ?s = "started (empty_sched ''main'') [1, 2] None"
  have k: "taken Map.empty ?as ?s = [(1, plain_task)]" by (simp add: run_simps)
  obtain t where t: "acts Map.empty ?as ?s = Some t" by (simp add: run_simps)
  have "{#plain_task#} + mset (taskList (sc t)) = {#plain_task#}"
    using each_task_taken_once[OF t] unfolding k by (simp add: started_def empty_sched_def)
  with k t show ?thesis by blast
qed


end
