(* ===== verification/Threads.thy ===== *)
theory Threads
  imports Interfaces
begin

text \<open>
  Threads (\<^verbatim>\<open>concurrency/thread.cpp\<close>, \<^verbatim>\<open>base/this_thread.cpp\<close>), the spin lock
  (\<^verbatim>\<open>concurrency/spin_mutex.h\<close>) and the singletons (\<^verbatim>\<open>base/singleton.hpp\<close>). Threads of the
  system and \<^verbatim>\<open>Thread\<close> objects are numbered; the thread-local variables are a record per
  thread of the system. The ids the kernel gives to a thread are parameters. The constructor
  waits until the new thread has called \<^verbatim>\<open>ready_.set_value\<close>, so up to there the two threads
  run one after the other; the function of the thread is not part of the model, but whether
  it has returned is.
\<close>

section \<open>Ids\<close>

type_synonym os_thread = nat
type_synonym thread_addr = nat
type_synonym pid_t = u32

record tls =
  tl_tid :: pid_t
  tl_pthread_id :: pthread_t
  tl_p_this_thread :: "thread_addr option"
  tl_thread_name :: string

definition fresh_tls :: tls where
  "fresh_tls = \<lparr>tl_tid = 0, tl_pthread_id = 0, tl_p_this_thread = None,
     tl_thread_name = ''UNDEFINED''\<rparr>"

definition cache_tid :: "pid_t \<Rightarrow> tls \<Rightarrow> tls" where
  "cache_tid gettid l = (if tl_tid l = 0 then l\<lparr>tl_tid := gettid\<rparr> else l)"

definition cache_pthread_id :: "pthread_t \<Rightarrow> tls \<Rightarrow> tls" where
  "cache_pthread_id pthread_self l =
     (if tl_pthread_id l = 0 then l\<lparr>tl_pthread_id := pthread_self\<rparr> else l)"

definition get_tid :: "pid_t \<Rightarrow> tls \<Rightarrow> pid_t \<times> tls" where
  "get_tid gettid l =
     (let l' = (if tl_tid l = 0 then cache_tid gettid l else l) in (tl_tid l', l'))"

definition get_pthread_id :: "pthread_t \<Rightarrow> tls \<Rightarrow> pthread_t \<times> tls" where
  "get_pthread_id pthread_self l =
     (let l' = (if tl_pthread_id l = 0 then cache_pthread_id pthread_self l else l)
      in (tl_pthread_id l', l'))"

text \<open>A cached id is the one of the kernel; the system call is made at most once.\<close>

lemma get_tid_kernel: "tl_tid l \<in> {0, k} \<Longrightarrow> fst (get_tid k l) = k \<and> tl_tid (snd (get_tid k l)) = k"
  by (auto simp: get_tid_def cache_tid_def Let_def)

lemma get_tid_again: "tl_tid l \<noteq> 0 \<Longrightarrow> get_tid k l = (tl_tid l, l)"
  by (simp add: get_tid_def)

section \<open>Thread objects\<close>

record thread_obj =
  th_name :: string
  th_tid :: pid_t
  th_pthreadId :: pthread_t
  th_ready :: bool
  th_os :: os_thread
  th_joinable :: bool

record tworld =
  tlss :: "os_thread \<Rightarrow> tls"
  ths :: "thread_addr \<Rightarrow> thread_obj option"
  next_os :: os_thread
  next_th :: thread_addr
  func_returned :: "os_thread list"

record kernel_ids =
  gettid_of :: "os_thread \<Rightarrow> pid_t"
  pthread_self_of :: "os_thread \<Rightarrow> pthread_t"

text \<open>The table of live threads is one more of the stores.\<close>

definition put_thread :: "thread_addr \<Rightarrow> thread_obj \<Rightarrow> tworld \<Rightarrow> tworld" where
  "put_thread p t w = w\<lparr>ths := (ths w)(p \<mapsto> t)\<rparr>"

definition drop_thread :: "thread_addr \<Rightarrow> tworld \<Rightarrow> tworld" where
  "drop_thread p w = w\<lparr>ths := (ths w)(p := None)\<rparr>"

interpretation threads_alive: registry ths put_thread drop_thread
  by unfold_locales (auto simp: put_thread_def drop_thread_def)

definition set_thread_name :: "string \<Rightarrow> tls \<Rightarrow> tls res" where
  "set_thread_name n l =
     res_bind (sylar_assert (tl_thread_name l = ''UNDEFINED'')) (\<lambda>_.
     Inr (l\<lparr>tl_thread_name := n\<rparr>))"

definition set_this_thread :: "thread_addr option \<Rightarrow> tls \<Rightarrow> tls res" where
  "set_this_thread p l =
     res_bind (sylar_assert (tl_p_this_thread l = None)) (\<lambda>_. Inr (l\<lparr>tl_p_this_thread := p\<rparr>))"

definition get_this_thread :: "os_thread \<Rightarrow> tworld \<Rightarrow> thread_addr option" where
  "get_this_thread me w = tl_p_this_thread (tlss w me)"

text \<open>\<^verbatim>\<open>ThreadFunc\<close> until it calls the function it was given.\<close>

definition thread_func :: "kernel_ids \<Rightarrow> os_thread \<Rightarrow> thread_addr \<Rightarrow> tworld \<Rightarrow> tworld res" where
  "thread_func K me p w =
     res_bind (deref (ths w p)) (\<lambda>t.
     let (tid, l1) = get_tid (gettid_of K me) (tlss w me);
         (pid, l2) = get_pthread_id (pthread_self_of K me) l1 in
     res_bind (set_thread_name (th_name t) l2) (\<lambda>l3.
     res_bind (set_this_thread (Some p) l3) (\<lambda>l4.
     Inr (put_thread p (t\<lparr>th_tid := tid, th_pthreadId := pid, th_ready := True\<rparr>)
            (w\<lparr>tlss := (tlss w)(me := l4)\<rparr>)))))"

definition new_thread :: "kernel_ids \<Rightarrow> string \<Rightarrow> tworld \<Rightarrow> (thread_addr \<times> tworld) res" where
  "new_thread K n w =
     (let p = next_th w; os = next_os w;
          t = \<lparr>th_name = n, th_tid = 0, th_pthreadId = 0, th_ready = False, th_os = os,
               th_joinable = True\<rparr>;
          w1 = put_thread p t
            (w\<lparr>tlss := (tlss w)(os := fresh_tls), next_os := Suc os, next_th := Suc p\<rparr>) in
      res_bind (thread_func K os p w1) (\<lambda>w2. Inr (p, w2)))"

text \<open>
  \<^verbatim>\<open>Join\<close>: \<open>None\<close> while the caller has to wait; a thread that joins itself gets an exception
  from \<^verbatim>\<open>std::thread::join\<close>.
\<close>

definition join_thread :: "os_thread \<Rightarrow> thread_addr \<Rightarrow> tworld \<Rightarrow> tworld res option" where
  "join_thread me p w =
     (case ths w p of
        None \<Rightarrow> Some (Inl Undefined_behaviour)
      | Some t \<Rightarrow>
          if \<not> th_joinable t then Some (Inr w)
          else if th_os t = me then Some (Inl (Thrown System_error))
          else if th_os t \<in> set (func_returned w)
            then Some (Inr (put_thread p (t\<lparr>th_joinable := False\<rparr>) w))
          else None)"

definition detach_thread :: "thread_addr \<Rightarrow> tworld \<Rightarrow> tworld res" where
  "detach_thread p w =
     res_bind (deref (ths w p)) (\<lambda>t.
     Inr (if th_joinable t then put_thread p (t\<lparr>th_joinable := False\<rparr>) w else w))"

text \<open>The destructor, which runs in the thread \<open>me\<close>.\<close>

definition delete_thread :: "os_thread \<Rightarrow> thread_addr \<Rightarrow> tworld \<Rightarrow> tworld res" where
  "delete_thread me p w =
     res_bind (detach_thread p w) (\<lambda>w1.
     res_bind (set_this_thread None (tlss w1 me)) (\<lambda>l.
     Inr (drop_thread p (w1\<lparr>tlss := (tlss w1)(me := l)\<rparr>))))"

lemmas thread_simps = new_thread_def thread_func_def get_tid_def get_pthread_id_def
  cache_tid_def cache_pthread_id_def set_thread_name_def set_this_thread_def fresh_tls_def
  put_thread_def drop_thread_def delete_thread_def detach_thread_def get_this_thread_def

lemma new_thread_runs:
  "new_thread K n w = Inr (next_th w,
     w\<lparr>tlss := (tlss w)(next_os w := \<lparr>tl_tid = gettid_of K (next_os w),
            tl_pthread_id = pthread_self_of K (next_os w), tl_p_this_thread = Some (next_th w),
            tl_thread_name = n\<rparr>),
       ths := (ths w)(next_th w \<mapsto> \<lparr>th_name = n, th_tid = gettid_of K (next_os w),
            th_pthreadId = pthread_self_of K (next_os w), th_ready = True, th_os = next_os w,
            th_joinable = True\<rparr>),
       next_os := Suc (next_os w), next_th := Suc (next_th w)\<rparr>)"
  by (simp add: thread_simps Let_def)

section \<open>The spin lock\<close>

datatype spin_pc = Outside | Trying | Inside

record spin =
  spin_flag :: bool
  who :: "spin_pc list"

text \<open>
  \<^verbatim>\<open>lock\<close> is entered, tests and sets the flag until it was clear, and returns; only the
  holder calls \<^verbatim>\<open>unlock\<close>. The steps are sequentially consistent: the relaxed store of
  \<^verbatim>\<open>unlock\<close>, which does not publish the writes made inside, is outside the model.
\<close>

inductive spin_step :: "spin \<Rightarrow> spin \<Rightarrow> bool" where
  enter: "i < length (who s) \<Longrightarrow> who s ! i = Outside \<Longrightarrow>
    spin_step s (s\<lparr>who := (who s)[i := Trying]\<rparr>)"
| test_busy: "i < length (who s) \<Longrightarrow> who s ! i = Trying \<Longrightarrow> spin_flag s \<Longrightarrow> spin_step s s"
| test_free: "i < length (who s) \<Longrightarrow> who s ! i = Trying \<Longrightarrow> \<not> spin_flag s \<Longrightarrow>
    spin_step s (s\<lparr>spin_flag := True, who := (who s)[i := Inside]\<rparr>)"
| clear: "i < length (who s) \<Longrightarrow> who s ! i = Inside \<Longrightarrow>
    spin_step s (s\<lparr>spin_flag := False, who := (who s)[i := Outside]\<rparr>)"

definition new_spin :: "nat \<Rightarrow> spin" where
  "new_spin n = \<lparr>spin_flag = False, who = replicate n Outside\<rparr>"

definition holders :: "spin \<Rightarrow> nat" where
  "holders s = count_list (who s) Inside"

lemma count_list_update:
  "i < length xs \<Longrightarrow>
   count_list (xs[i := x]) y + (if xs ! i = y then 1 else 0) = count_list xs y + (if x = y then 1 else 0)"
proof (induction xs arbitrary: i)
  case (Cons z zs)
  show ?case
  proof (cases i)
    case (Suc j)
    with Cons.IH[of j] Cons.prems show ?thesis by auto
  qed auto
qed simp

lemma spin_step_holders:
  assumes "spin_step s t" "holders s = (if spin_flag s then 1 else 0)"
  shows "holders t = (if spin_flag t then 1 else 0)"
  using assms(1)
proof cases
  case (enter i)
  with assms(2) count_list_update[of i "who s" Trying Inside] show ?thesis
    by (simp add: holders_def)
next
  case (test_free i)
  with assms(2) count_list_update[of i "who s" Inside Inside] show ?thesis
    by (simp add: holders_def)
next
  case (clear i)
  with assms(2) count_list_update[of i "who s" Outside Inside] show ?thesis
    by (simp add: holders_def split: if_splits)
qed (use assms(2) in simp)

lemma new_spin_holders: "holders (new_spin n) = 0"
  by (simp add: holders_def new_spin_def count_list_0_iff)

section \<open>Singletons\<close>

text \<open>
  \<^verbatim>\<open>Singleton\<close> keeps one function-local static, constructed at the first call (\<open>ctor\<close>, on the
  rest of the program's state); \<^verbatim>\<open>SingletonPtr\<close> constructs at every call.
\<close>

definition singleton_get :: "('s \<Rightarrow> 'a \<times> 's) \<Rightarrow> 'a option \<times> 's \<Rightarrow> 'a \<times> 'a option \<times> 's" where
  "singleton_get ctor z =
     (case z of
        (Some x, s) \<Rightarrow> (x, Some x, s)
      | (None, s) \<Rightarrow> (let (x, s') = ctor s in (x, Some x, s')))"

definition singleton_ptr_get :: "('s \<Rightarrow> 'a \<times> 's) \<Rightarrow> 's \<Rightarrow> 'a \<times> 's" where
  "singleton_ptr_get ctor s = ctor s"

text \<open>Two calls of a counting constructor give the objects 0 and 1.\<close>

lemma singleton_ptr_makes_new:
  "map fst [singleton_ptr_get (\<lambda>n. (n, Suc n)) 0,
     singleton_ptr_get (\<lambda>n. (n, Suc n)) (snd (singleton_ptr_get (\<lambda>n. (n, Suc n)) 0))] = [0, 1]"
  by (simp add: singleton_ptr_get_def)

lemma singleton_get_again:
  "singleton_get ctor z = (x, z') \<Longrightarrow> singleton_get ctor z' = (x, z')"
  by (auto simp: singleton_get_def split: prod.splits option.splits)

section \<open>Properties\<close>

text \<open>
  The constructor of \<^verbatim>\<open>Thread\<close> always returns an object that is ready and joinable and
  holds the ids the kernel gave to the new thread; in that thread \<^verbatim>\<open>GetThisThread\<close> returns this
  object and \<^verbatim>\<open>GetTid\<close> answers from the cache, without changing anything, and the
  thread-local variables of every other thread are as before.
\<close>

theorem thread_starts_with_ids:
  "\<exists>w' t. new_thread K n w = Inr (next_th w, w') \<and> ths w' (next_th w) = Some t \<and>
     th_ready t \<and> th_joinable t \<and> th_tid t = gettid_of K (th_os t) \<and>
     get_this_thread (th_os t) w' = Some (next_th w) \<and>
     get_tid (gettid_of K (th_os t)) (tlss w' (th_os t)) = (th_tid t, tlss w' (th_os t)) \<and>
     tl_thread_name (tlss w' (th_os t)) = n \<and>
     tlss w' = (tlss w)(th_os t := tlss w' (th_os t))"
  by (auto simp: new_thread_runs get_this_thread_def get_tid_def cache_tid_def)

text \<open>
  The destructor of \<^verbatim>\<open>Thread\<close> resets the \<^verbatim>\<open>GetThisThread\<close> pointer of the thread that runs
  it instead of the one of the thread that ends: run in a thread that is itself managed by a
  \<^verbatim>\<open>Thread\<close> it fails its assertion, and run anywhere else it leaves the destroyed object's own
  thread with a pointer to the object that is gone.
\<close>

theorem destructor_resets_wrong_thread:
  assumes "new_thread K n w = Inr (a, w1)" "new_thread K m w1 = Inr (b, w2)"
    and "get_this_thread me w = None" "me < next_os w"
  shows "delete_thread (next_os w) b w2 = Inl Assert_failed \<and>
    (\<exists>w3. delete_thread me b w2 = Inr w3 \<and> ths w3 b = None \<and>
      get_this_thread (next_os w1) w3 = Some b)"
  using assms by (auto simp: new_thread_runs thread_simps)

theorem destructor_resets_wrong_thread_witness:
  "\<exists>w1 w2 w3. new_thread \<lparr>gettid_of = word_of_nat, pthread_self_of = word_of_nat\<rparr> ''a''
       \<lparr>tlss = \<lambda>_. fresh_tls, ths = Map.empty, next_os = 1, next_th = 0, func_returned = []\<rparr>
       = Inr (0, w1) \<and>
     new_thread \<lparr>gettid_of = word_of_nat, pthread_self_of = word_of_nat\<rparr> ''b'' w1 = Inr (1, w2) \<and>
     delete_thread 1 1 w2 = Inl Assert_failed \<and> delete_thread 0 1 w2 = Inr w3 \<and>
     get_this_thread 2 w3 = Some 1"
proof -
  let ?K = "\<lparr>gettid_of = word_of_nat, pthread_self_of = word_of_nat\<rparr>"
  let ?w = "\<lparr>tlss = \<lambda>_. fresh_tls, ths = Map.empty, next_os = 1, next_th = 0, func_returned = []\<rparr>"
  obtain w1 w2 where w: "new_thread ?K ''a'' ?w = Inr (0, w1)" "new_thread ?K ''b'' w1 = Inr (1, w2)"
    "next_os w1 = 2"
    by (simp add: new_thread_runs)
  have me: "get_this_thread 0 ?w = None" "0 < next_os ?w"
    by (simp_all add: get_this_thread_def fresh_tls_def)
  from destructor_resets_wrong_thread[OF w(1,2) me] w show ?thesis by auto
qed

text \<open>
  However any number of threads interleave in \<^verbatim>\<open>lock\<close> and \<^verbatim>\<open>unlock\<close> of one
  \<^verbatim>\<open>SpinMutex\<close>, at most one is between the two, and the flag is set exactly while one is, so
  that a thread that is trying is never kept out of a free lock.
\<close>

theorem spin_mutex_excludes:
  assumes "rtranclp spin_step (new_spin n) s"
  shows "holders s = (if spin_flag s then 1 else 0)"
  using assms
proof (induction rule: rtranclp_induct)
  case base
  then show ?case by (simp add: new_spin_holders) (simp add: new_spin_def)
next
  case (step s t)
  show ?case by (rule spin_step_holders[OF step.hyps(2) step.IH])
qed

theorem spin_mutex_excludes_witness:
  "\<exists>s. rtranclp spin_step (new_spin 2) s \<and> who s = [Inside, Trying] \<and> holders s = 1"
proof -
  let ?t = "\<lambda>b xs. \<lparr>spin_flag = b, who = xs\<rparr>"
  have steps: "spin_step (?t False [Outside, Outside]) (?t False [Trying, Outside])"
    "spin_step (?t False [Trying, Outside]) (?t True [Inside, Outside])"
    "spin_step (?t True [Inside, Outside]) (?t True [Inside, Trying])"
    using spin_step.enter[of 0 "?t False [Outside, Outside]"]
      spin_step.test_free[of 0 "?t False [Trying, Outside]"]
      spin_step.enter[of 1 "?t True [Inside, Outside]"] by simp_all
  have "new_spin 2 = ?t False [Outside, Outside]" by (simp add: new_spin_def numeral_2_eq_2)
  then have r: "rtranclp spin_step (new_spin 2) (?t True [Inside, Trying])"
    using rtranclp.rtrancl_into_rtrancl[OF rtranclp.rtrancl_into_rtrancl[OF
      r_into_rtranclp[of spin_step, OF steps(1)] steps(2)] steps(3)] by (simp only:)
  with spin_mutex_excludes[OF r] show ?thesis by (intro exI[of _ "?t True [Inside, Trying]"]) simp
qed

end
