(* ===== verification/Spec2Isabelle.thy ===== *)
theory Spec2Isabelle
  imports Wake_Up Timer_Race Handoff Config_Race Log_Config Log_Statements Log_Race Logger_Race Pool_Runs Threads
begin

text \<open>
  A verification development for the library under \<^verbatim>\<open>src/sylar\<close>: stackful coroutines, a
  scheduler that runs them on a pool of threads, timers, an epoll poller, hooked system calls,
  logging and configuration.

  Parts and how they interact. A \<^verbatim>\<open>Scheduler\<close> keeps a list of tasks (coroutines or callbacks,
  for one thread or for any). Each of its threads runs \<^verbatim>\<open>SchedulingFunc\<close>: it takes a task it
  may run, switches to the coroutine of the task (\<^verbatim>\<open>SwapIn\<close>), and looks at the state the
  coroutine comes back in. Without a task it switches to its idle coroutine, which polls
  (\<^verbatim>\<open>EpollPoller::PollAndHandle\<close>). Ready descriptors, expired timers and the eventfd of the
  notifier make the poll return; what was waiting for them is handed to the scheduler as new
  tasks (\<^verbatim>\<open>Co\<close>). The hooked calls put the calling coroutine to sleep behind a timer or an event
  and yield. Loggers form a tree with appenders and formatters; a configuration variable
  \<open>loggers\<close> has a monitor that keeps the loggers in step with a YAML document.

  Theories, in the order of their imports, with the files under \<^verbatim>\<open>src/sylar\<close>:

  \<^item> Prelude: machine types, failures as values (\<open>'a res\<close>: an assertion, an abort, undefined
    behaviour, an exception or not returning is an \<open>Inl\<close>), sequencing, runs of operations;
    \<^verbatim>\<open>SYLAR_ASSERT\<close> of \<^verbatim>\<open>base/debug.h\<close>.
  \<^item> Interfaces: the locales. \<open>store\<close> and \<open>registry\<close> are the maps of the managers, \<open>task_sink\<close> is
    what timers and poller rely on in the scheduler, \<open>guarded_system\<close>, \<open>guarded_calls\<close> and
    \<open>guarded_interleaving\<close> are state machines with an invariant. Each is interpreted in the theory that provides it.
  \<^item> Coroutine (\<^verbatim>\<open>concurrency/coroutine.h\<close>, \<^verbatim>\<open>coroutine.cpp\<close>): the world of coroutine objects
    with the thread's current and main coroutine; \<open>new_coroutine\<close>, \<open>swap_in\<close>, \<open>swap_out\<close>,
    \<open>reset_co\<close>, \<open>yield_cur\<close>, \<open>destroy\<close>. A saved machine context is what the coroutine does when
    it is resumed.
  \<^item> Task_Queue (\<^verbatim>\<open>concurrency/scheduler.h\<close>, the locked part of \<^verbatim>\<open>SchedulingFunc\<close>, \<^verbatim>\<open>notifier.cpp\<close>):
    tasks, \<open>co\<close>, the scan \<open>take_task\<close> and its specification.
  \<^item> Timer_Manager (\<^verbatim>\<open>concurrency/timer_manager.h\<close>, \<^verbatim>\<open>timer_manager.cpp\<close>): the ordered set of
    timers, ids, arming of the timerfd, expiry and repetition, and the timer calls of the scheduler.
  \<^item> Timer_Race (\<^verbatim>\<open>timer_manager.cpp\<close>): one timer manager used by several threads, at the grain of its
    locked sections, of the expiry and the \<^verbatim>\<open>read\<close> of the edge-triggered timerfd and of the calls of
    \<^verbatim>\<open>Co\<close> after a collection.
  \<^item> Epoll_Poller (\<^verbatim>\<open>concurrency/epoll_poller.h\<close>, \<^verbatim>\<open>epoll_poller.cpp\<close>): event objects, registration,
    cancellation, delivery of ready events.
  \<^item> Scheduler (\<^verbatim>\<open>concurrency/scheduler.cpp\<close>): construction, \<open>start\<close>, \<open>stop_scheduler\<close> and the whole
    \<open>scheduling_func\<close> of one thread with its idle and temporary coroutines.
  \<^item> Pool and Pool_Runs (\<^verbatim>\<open>concurrency/scheduler.cpp\<close>, \<^verbatim>\<open>notifier.cpp\<close>): several scheduling threads
    interleaved, with the thread that made the scheduler and enters the dummy main coroutine in
    \<^verbatim>\<open>Stop\<close>, at the grain of locked sections and of single reads and writes of the eventfd;
    whole runs, and the refinement of the sequential model of taking a task.
  \<^item> Fd_Manager and Hook (\<^verbatim>\<open>concurrency/fd_manager.cpp\<close>, \<^verbatim>\<open>hook.cpp\<close>): contexts of descriptors, the
    pointers to the original functions, the sleeps, \<^verbatim>\<open>socket\<close>, \<^verbatim>\<open>connect\<close>, \<^verbatim>\<open>accept\<close>, \<^verbatim>\<open>read\<close>,
    \<^verbatim>\<open>write\<close>, \<^verbatim>\<open>fcntl\<close>, \<^verbatim>\<open>getsockopt\<close> and \<^verbatim>\<open>setsockopt\<close>.
  \<^item> Handoff (\<^verbatim>\<open>concurrency/coroutine.cpp\<close>, \<^verbatim>\<open>scheduler.cpp\<close>): one coroutine and the threads that take,
    run and release it, interleaved at the grain of single reads and writes of its state and of
    the switches; the sequential \<open>swap_in\<close> refines to it.
  \<^item> Wake_Up: a whole sleep through Hook, Timer_Manager, Epoll_Poller and Scheduler.
  \<^item> Log_Format and Loggers (\<^verbatim>\<open>base/log.h\<close>, first half of \<^verbatim>\<open>log.cpp\<close>): levels, the state machine that reads
    patterns, the formatting of events; loggers, appenders, parents and their manager.
  \<^item> Log_Statements (the macros of \<^verbatim>\<open>base/log.h\<close> and \<^verbatim>\<open>debug.h\<close>, \<^verbatim>\<open>debug.cpp\<close>): events while they are
    written, the wrapper that logs them, the backtrace, and the assertion macros as a whole, which
    refine to the \<open>sylar_assert\<close> of Prelude.
  \<^item> Log_Race: \<^verbatim>\<open>Log\<close> called by several threads while others change the loggers, at the grain of its
    reads and locked sections; an uninterrupted call is that of Loggers.
  \<^item> Logger_Race: \<^verbatim>\<open>SetParent\<close> called by several threads, at the grain of its locked sections.
  \<^item> Yaml_Casts and Config (\<^verbatim>\<open>base/config.h\<close>, \<^verbatim>\<open>config.cpp\<close>): conversions of containers, variables
    with monitors, the manager, loading of a document.
  \<^item> Config_Race: \<^verbatim>\<open>SetVal\<close> called by several threads, at the grain of its locked section and of the
    calls of monitors.
  \<^item> Log_Config (second half of \<^verbatim>\<open>base/log.cpp\<close>): definitions of loggers, the loggers made from
    them, and the monitor.
  \<^item> Threads (\<^verbatim>\<open>concurrency/thread.cpp\<close>, \<^verbatim>\<open>base/this_thread.cpp\<close>, \<^verbatim>\<open>spin_mutex.h\<close>,
    \<^verbatim>\<open>base/singleton.hpp\<close>): thread objects and thread-local variables, the spin lock, singletons.
\<close>

text \<open>
  What the lemmas show. Coroutines: control returns to the caller of \<^verbatim>\<open>SwapIn\<close>, every sequence of
  calls keeps states and contexts consistent, a callback that yields \<open>n\<close> times needs \<open>n + 1\<close>
  switches. Tasks: the scan implements its specification, no task is lost, reordered or run
  twice by one thread; among several threads no wake-up is lost, every task is taken exactly
  once, and \<^verbatim>\<open>Stop\<close> returns once all tasks have ended, but can wait for
  ever while tasks post more. A coroutine is never shared by two threads if what wakes it comes
  after its thread has let go of it, and is if it comes earlier. Scheduler: a stopped scheduler runs everything that is left and
  everything this hands over, and returns. Timers: expired timers are collected in order, the
  timerfd is armed for the earliest one; however threads interleave, no pending timer is forgotten
  and each is handed over or cancelled once, and one polling thread never fails, while two can
  abort the process. Poller and hooks: a ready event is handed over once;
  what a hooked call does to the timers, the descriptor flags and the calling coroutine; a
  coroutine that sleeps, by any of the three calls, goes on after its timer.
  Logging: the pattern machine is equivalent to a grammar, patterns round-trip, an event reaches
  the appenders of the nearest logger, parents stay acyclic unless two threads set them at once, and
  logging never fails while others reconfigure, unless the root loses its appenders;
  a failed assertion reports to the root logger and ends the process. Configuration: conversions
  round-trip, variables stay well typed, a document is applied to all variables it names or to
  none, monitors are called once per change, in any order if several threads assign, and the loggers are those of the last loaded
  definitions.
  The theorems on faults state what the code does where that is not what it means to do.

  Parameters and bounds. Machine integers are words of their width (task counts, timer ids,
  monitor ids); descriptors are \<open>int\<close>, and so are times, with their overflow written out.
  The clock, the results of the system calls (a list per call site, in order; an empty list is
  a call that does not return), of \<^verbatim>\<open>malloc\<close> and of the YAML library are parameters, as are
  whether a weak pointer is alive and whether a coroutine is owned elsewhere. What a callback
  does is a value of type \<open>body\<close>. Loops that need not end (\<open>sched_loop\<close>, \<open>expire_loop\<close>,
  \<open>logger_log\<close>, \<open>cycle_walk\<close>) are partial functions with \<open>None\<close> for not returning; no fuel is
  used, and that they return is part of the theorems about them. The assumptions on the YAML
  library (\<open>reloads\<close>) say that it reads a node as it wrote it.

  Not modelled. The test programs and the build files, which hold no program logic. Calls on the
  poller's events and on the managers of descriptors, loggers and variables are sequential, as
  each holds its mutex; so are calls on loggers except for \<^verbatim>\<open>Log\<close> and \<^verbatim>\<open>SetParent\<close>, and on
  variables except for \<^verbatim>\<open>SetVal\<close>, and a monitor does not call back into the configuration. Pool
  reduces what a task does to posting tasks and ending, Handoff reduces everything but one
  coroutine to taking and waking it; Scheduler gives the single thread in full. In Timer_Race and
  Log_Race a call under one mutex is one step. Outside Log_Statements what a statement logs is left
  out. Memory orders weaker than sequential consistency, and the lifetime of objects behind a
  \<^verbatim>\<open>shared_ptr\<close> other than coroutines, are outside the model.
\<close>

end
